(* ===== verification/Prelude.thy ===== *)
theory Prelude
  imports Main "HOL-Library.Word" "HOL-Library.List_Lexorder" "HOL-Library.Char_ord"
begin

text \<open>
  The vocabulary every component theory shares: Rust's \<open>Result\<close> as a sum with its error on the
  left and the sequencing that the \<open>?\<close> operator performs, unsigned machine integers as naturals
  with the saturating and checked operations of the standard library written out, and the
  ordered map \<open>BTreeMap\<close> as an association list whose keys are strictly sorted. The last section
  states what clients rely on of a keyed table as a locale and proves it for the ordered map.
\<close>

named_theorems result_simps "how a sequence of fallible steps fails or succeeds"

section \<open>Results\<close>

type_synonym ('e, 'a) result = "'e + 'a"

definition bindR :: "('e, 'a) result \<Rightarrow> ('a \<Rightarrow> ('e, 'b) result) \<Rightarrow> ('e, 'b) result" where
  "bindR r f = (case r of Inl e \<Rightarrow> Inl e | Inr x \<Rightarrow> f x)"

definition ensure :: "bool \<Rightarrow> 'e \<Rightarrow> ('e, unit) result" where
  "ensure b e = (if b then Inr () else Inl e)"

definition ok_or :: "'a option \<Rightarrow> 'e \<Rightarrow> ('e, 'a) result" where
  "ok_or x e = (case x of None \<Rightarrow> Inl e | Some y \<Rightarrow> Inr y)"

text \<open>\<open>for x in xs { f(x)? }\<close>: every step threads the state and the first error ends the loop.\<close>

fun foldR :: "('s \<Rightarrow> 'a \<Rightarrow> ('e, 's) result) \<Rightarrow> 's \<Rightarrow> 'a list \<Rightarrow> ('e, 's) result" where
  "foldR f s [] = Inr s"
| "foldR f s (x # xs) = bindR (f s x) (\<lambda>s'. foldR f s' xs)"

text \<open>\<open>xs.iter().map(f).collect::<Result<Vec<_>, _>>()\<close>.\<close>

fun mapR :: "('a \<Rightarrow> ('e, 'b) result) \<Rightarrow> 'a list \<Rightarrow> ('e, 'b list) result" where
  "mapR f [] = Inr []"
| "mapR f (x # xs) = bindR (f x) (\<lambda>y. bindR (mapR f xs) (\<lambda>ys. Inr (y # ys)))"

lemma bindR_Inl [simp]: "bindR (Inl e) f = Inl e"
  by (simp add: bindR_def)

lemma bindR_Inr [simp]: "bindR (Inr x) f = f x"
  by (simp add: bindR_def)

lemma bindR_eq_Inr [result_simps]:
  "bindR r f = Inr y \<longleftrightarrow> (\<exists>x. r = Inr x \<and> f x = Inr y)"
  by (cases r) auto

lemma bindR_eq_Inl [result_simps]:
  "bindR r f = Inl e \<longleftrightarrow> r = Inl e \<or> (\<exists>x. r = Inr x \<and> f x = Inl e)"
  by (cases r) auto

lemma ensure_eq_Inr [result_simps]: "ensure b e = Inr u \<longleftrightarrow> b"
  by (simp add: ensure_def)

lemma ensure_eq_Inl [result_simps]: "ensure b e = Inl e' \<longleftrightarrow> \<not> b \<and> e' = e"
  by (auto simp: ensure_def)

lemma ensure_True [simp]: "ensure True e = Inr ()"
  by (simp add: ensure_def)

lemma ensure_False [simp]: "ensure False e = Inl e"
  by (simp add: ensure_def)

lemma ok_or_eq_Inr [result_simps]: "ok_or x e = Inr y \<longleftrightarrow> x = Some y"
  by (auto simp: ok_or_def split: option.splits)

lemma ok_or_eq_Inl [result_simps]: "ok_or x e = Inl e' \<longleftrightarrow> x = None \<and> e' = e"
  by (auto simp: ok_or_def split: option.splits)

lemma ok_or_None [simp]: "ok_or None e = Inl e"
  by (simp add: ok_or_def)

lemma ok_or_Some [simp]: "ok_or (Some y) e = Inr y"
  by (simp add: ok_or_def)

lemma bindR_cong [fundef_cong]:
  "r = r' \<Longrightarrow> (\<And>x. r' = Inr x \<Longrightarrow> f x = g x) \<Longrightarrow> bindR r f = bindR r' g"
  by (cases r') auto

text \<open>Only the state an operation leaves.\<close>

definition state_of :: "('e, 'a \<times> 's) result \<Rightarrow> ('e, 's) result" where
  "state_of r = bindR r (\<lambda>(_, s). Inr s)"

lemma state_of_eq_Inr [result_simps]: "state_of r = Inr s \<longleftrightarrow> (\<exists>x. r = Inr (x, s))"
  by (cases r) (auto simp: state_of_def)

lemma sorted_le_last: "sorted xs \<Longrightarrow> x \<in> set xs \<Longrightarrow> x \<le> last xs"
  by (induction xs) auto

lemma set_map_filter: "set (List.map_filter f xs) = {y. \<exists>x \<in> set xs. f x = Some y}"
  by (induction xs) (auto simp: List.map_filter_def split: option.splits)

text \<open>A loop preserves what each of its steps preserves.\<close>

lemma foldR_invariant:
  assumes "foldR f s xs = Inr s'" and "I s"
    and "\<And>s x s'. x \<in> set xs \<Longrightarrow> I s \<Longrightarrow> f s x = Inr s' \<Longrightarrow> I s'"
  shows "I s'"
  using assms
proof (induction xs arbitrary: s)
  case Nil
  then show ?case by simp
next
  case (Cons x xs)
  then obtain t where t: "f s x = Inr t" "foldR f t xs = Inr s'"
    by (auto simp: result_simps)
  have "I t" using Cons.prems(2) t(1) by (auto intro: Cons.prems(3))
  show ?case
    using t(2) \<open>I t\<close> by (rule Cons.IH) (rule Cons.prems(3), auto)
qed

lemma find_append: "find P (xs @ ys) = (case find P xs of None \<Rightarrow> find P ys | Some x \<Rightarrow> Some x)"
  by (induction xs) auto

lemma foldR_append: "foldR f s (xs @ ys) = bindR (foldR f s xs) (\<lambda>t. foldR f t ys)"
proof (induction xs arbitrary: s)
  case Nil
  then show ?case by simp
next
  case (Cons x xs)
  then show ?case by (cases "f s x") auto
qed

lemma mapR_eq_Inr:
  "mapR f xs = Inr ys \<longleftrightarrow> list_all2 (\<lambda>x y. f x = Inr y) xs ys"
  by (induction xs arbitrary: ys) (auto simp: result_simps list_all2_Cons1)

lemma mapR_eq_Inl: "mapR f xs = Inl e \<Longrightarrow> \<exists>x \<in> set xs. f x = Inl e"
  by (induction xs) (auto simp: result_simps)

section \<open>Unsigned machine integers\<close>

definition usize_max :: nat where
  "usize_max = 18446744073709551615"

definition u64_max :: nat where
  "u64_max = 18446744073709551615"

definition u32_max :: nat where
  "u32_max = 4294967295"

definition sat_add :: "nat \<Rightarrow> nat \<Rightarrow> nat" where
  "sat_add a b = min usize_max (a + b)"

definition sat_mul :: "nat \<Rightarrow> nat \<Rightarrow> nat" where
  "sat_mul a b = min usize_max (a * b)"

definition sat_sub :: "nat \<Rightarrow> nat \<Rightarrow> nat" where
  "sat_sub a b = (if b \<le> a then a - b else 0)"

text \<open>\<open>checked_add\<close> of an unsigned type with the given maximum.\<close>

definition checked_add :: "nat \<Rightarrow> nat \<Rightarrow> nat \<Rightarrow> nat option" where
  "checked_add lim a b = (if a + b \<le> lim then Some (a + b) else None)"

definition checked_mul :: "nat \<Rightarrow> nat \<Rightarrow> nat \<Rightarrow> nat option" where
  "checked_mul lim a b = (if a * b \<le> lim then Some (a * b) else None)"

text \<open>\<open>checked_sub\<close>: the result does not exist below zero.\<close>

definition checked_sub :: "nat \<Rightarrow> nat \<Rightarrow> nat option" where
  "checked_sub a b = (if b \<le> a then Some (a - b) else None)"

lemma sat_add_le [simp]: "sat_add a b \<le> usize_max"
  by (simp add: sat_add_def)

lemma sat_add_exact: "a + b \<le> usize_max \<Longrightarrow> sat_add a b = a + b"
  by (simp add: sat_add_def)

lemma sat_sub_eq [simp]: "sat_sub a b = a - b"
  by (simp add: sat_sub_def)

lemma checked_add_eq_Some [result_simps]:
  "checked_add lim a b = Some c \<longleftrightarrow> c = a + b \<and> a + b \<le> lim"
  by (auto simp: checked_add_def)

lemma checked_add_eq_None [result_simps]: "checked_add lim a b = None \<longleftrightarrow> lim < a + b"
  by (auto simp: checked_add_def)

lemma checked_mul_eq_Some [result_simps]:
  "checked_mul lim a b = Some c \<longleftrightarrow> c = a * b \<and> a * b \<le> lim"
  by (auto simp: checked_mul_def)

lemma checked_mul_eq_None [result_simps]: "checked_mul lim a b = None \<longleftrightarrow> lim < a * b"
  by (auto simp: checked_mul_def)

section \<open>Ordered maps\<close>

type_synonym ('k, 'v) btree = "('k \<times> 'v) list"

abbreviation bt_get :: "('k, 'v) btree \<Rightarrow> 'k \<Rightarrow> 'v option" where
  "bt_get \<equiv> map_of"

fun bt_insert :: "'k::linorder \<Rightarrow> 'v \<Rightarrow> ('k, 'v) btree \<Rightarrow> ('k, 'v) btree" where
  "bt_insert k v [] = [(k, v)]"
| "bt_insert k v ((k', v') # m) =
     (if k < k' then (k, v) # (k', v') # m
      else if k = k' then (k, v) # m
      else (k', v') # bt_insert k v m)"

definition bt_retain :: "('k \<Rightarrow> 'v \<Rightarrow> bool) \<Rightarrow> ('k, 'v) btree \<Rightarrow> ('k, 'v) btree" where
  "bt_retain p m = filter (\<lambda>(k, v). p k v) m"

definition bt_remove :: "'k \<Rightarrow> ('k, 'v) btree \<Rightarrow> ('k, 'v) btree" where
  "bt_remove k m = bt_retain (\<lambda>k' _. k' \<noteq> k) m"

text \<open>An \<open>UPDATE ... WHERE\<close>, or a change through \<open>get_mut\<close>: rows keep their keys.\<close>

definition bt_update :: "'k \<Rightarrow> ('v \<Rightarrow> 'v) \<Rightarrow> ('k, 'v) btree \<Rightarrow> ('k, 'v) btree" where
  "bt_update k f m = map (\<lambda>(k', v). if k' = k then (k', f v) else (k', v)) m"

definition bt_of_list :: "('k::linorder \<times> 'v) list \<Rightarrow> ('k, 'v) btree" where
  "bt_of_list kvs = fold (\<lambda>(k, v) m. bt_insert k v m) kvs []"

definition bt_wf :: "('k::linorder, 'v) btree \<Rightarrow> bool" where
  "bt_wf m = sorted_wrt (<) (map fst m)"

lemma bt_wf_Nil [simp]: "bt_wf []"
  by (simp add: bt_wf_def)

lemma bt_wf_distinct: "bt_wf m \<Longrightarrow> distinct (map fst m)"
  by (simp add: bt_wf_def strict_sorted_iff)

lemma bt_get_insert [simp]: "bt_get (bt_insert k v m) = (bt_get m)(k \<mapsto> v)"
  by (induction m) (auto simp: fun_eq_iff)

lemma keys_bt_insert [simp]: "fst ` set (bt_insert k v m) = insert k (fst ` set m)"
  by (induction k v m rule: bt_insert.induct) (simp_all add: insert_commute)

lemma bt_wf_insert [simp]: "bt_wf m \<Longrightarrow> bt_wf (bt_insert k v m)"
  unfolding bt_wf_def
proof (induction m)
  case Nil
  then show ?case by simp
next
  case (Cons kv m)
  obtain k' v' where kv: "kv = (k', v')" by (cases kv)
  show ?case
  proof (cases "k' < k")
    case True
    then have "\<not> k < k'" "k \<noteq> k'" by auto
    moreover have "\<forall>y \<in> fst ` set (bt_insert k v m). k' < y"
      using Cons.prems True unfolding kv keys_bt_insert by auto
    ultimately show ?thesis
      using Cons by (simp add: kv)
  next
    case False
    then show ?thesis using Cons.prems by (auto simp: kv)
  qed
qed

lemma bt_wf_retain [simp]: "bt_wf m \<Longrightarrow> bt_wf (bt_retain p m)"
  unfolding bt_wf_def bt_retain_def
  by (simp add: sorted_wrt_map sorted_wrt_filter)

lemma bt_wf_remove [simp]: "bt_wf m \<Longrightarrow> bt_wf (bt_remove k m)"
  by (simp add: bt_remove_def)

lemma keys_bt_update [simp]: "map fst (bt_update k f m) = map fst m"
  by (induction m) (auto simp: bt_update_def)

lemma bt_wf_update [simp]: "bt_wf (bt_update k f m) = bt_wf m"
  by (simp add: bt_wf_def)

lemma bt_get_update:
  "bt_get (bt_update k f m) k' = (if k' = k then map_option f (bt_get m k) else bt_get m k')"
  by (induction m) (auto simp: bt_update_def)

lemma bt_get_retain:
  assumes "bt_wf m"
  shows "bt_get (bt_retain p m) k =
    (case bt_get m k of None \<Rightarrow> None | Some v \<Rightarrow> if p k v then Some v else None)"
proof -
  have "distinct (map fst m)" using assms by (rule bt_wf_distinct)
  then show ?thesis
    by (induction m) (auto simp: bt_retain_def map_of_eq_None_iff image_iff split: option.splits)
qed

lemma bt_get_remove [simp]: "bt_get (bt_remove k m) k' = (if k' = k then None else bt_get m k')"
  by (induction m) (auto simp: bt_remove_def bt_retain_def)

lemma bt_get_None_iff: "bt_get m k = None \<longleftrightarrow> k \<notin> fst ` set m"
  by (rule map_of_eq_None_iff)

lemma bt_get_mem: "bt_wf m \<Longrightarrow> bt_get m k = Some v \<longleftrightarrow> (k, v) \<in> set m"
  using bt_wf_distinct by (metis map_of_eq_Some_iff)

lemma bt_retain_length: "length (bt_retain p m) \<le> length m"
  by (simp add: bt_retain_def)

lemma bt_retain_all: "length (bt_retain p m) = length m \<Longrightarrow> bt_retain p m = m"
  by (metis bt_retain_def filter_id_conv length_filter_less linorder_not_less order_refl)

lemma bt_insert_same: "bt_wf m \<Longrightarrow> bt_get m k = Some v \<Longrightarrow> bt_insert k v m = m"
  by (induction m) (fastforce simp: bt_wf_def dest: map_of_SomeD split: if_splits)+

text \<open>Two well-formed ordered maps with the same bindings are the same list.\<close>

lemma bt_eqI:
  assumes "bt_wf m" "bt_wf m'" "\<And>k. bt_get m k = bt_get m' k"
  shows "m = m'"
proof -
  have eq: "set m = set m'"
    using bt_get_mem[OF assms(1)] bt_get_mem[OF assms(2)] assms(3) by auto
  have d: "sorted (map fst m)" "distinct (map fst m)" "sorted (map fst m')" "distinct (map fst m')"
    using assms(1,2) by (auto simp: bt_wf_def strict_sorted_iff)
  then have "inj_on fst (set m \<union> set m')"
    using eq by (simp add: distinct_map)
  then show ?thesis
    using d eq by (rule map_sorted_distinct_set_unique)
qed

text \<open>A property of every row, kept by the operations.\<close>

definition table_all :: "('k \<Rightarrow> 'v \<Rightarrow> bool) \<Rightarrow> ('k, 'v) btree \<Rightarrow> bool" where
  "table_all p m = list_all (\<lambda>(k, v). p k v) m"

lemma table_all_Nil [simp]: "table_all p []"
  by (simp add: table_all_def)

lemma table_all_insert [simp]: "table_all p m \<Longrightarrow> p k v \<Longrightarrow> table_all p (bt_insert k v m)"
  by (induction k v m rule: bt_insert.induct) (auto simp: table_all_def)

lemma table_all_retain [simp]: "table_all p m \<Longrightarrow> table_all p (bt_retain q m)"
  by (auto simp: table_all_def bt_retain_def list_all_iff)

lemma table_all_remove [simp]: "table_all p m \<Longrightarrow> table_all p (bt_remove k m)"
  by (simp add: bt_remove_def)

lemma table_all_update:
  "table_all p m \<Longrightarrow> (\<And>v. p k v \<Longrightarrow> p k (f v)) \<Longrightarrow> table_all p (bt_update k f m)"
  by (induction m) (auto simp: table_all_def bt_update_def split: if_splits)

lemma table_all_get: "table_all p m \<Longrightarrow> bt_get m k = Some v \<Longrightarrow> p k v"
  by (auto simp: table_all_def list_all_iff dest: map_of_SomeD)

lemma bt_update_absent: "bt_get m k = None \<Longrightarrow> bt_update k f m = m"
  by (induction m) (auto simp: bt_update_def split: if_splits)

section \<open>The interface of a keyed table\<close>

text \<open>
  What a client of a table relies on: a stored row is found under its key and no other key is
  disturbed, a deleted key is absent, and every operation keeps the table's invariant. The
  persistence components use tables through these laws.
\<close>

locale keyed_table =
  fixes get :: "'t \<Rightarrow> 'k \<Rightarrow> 'v option"
    and put :: "'k \<Rightarrow> 'v \<Rightarrow> 't \<Rightarrow> 't"
    and remove :: "'k \<Rightarrow> 't \<Rightarrow> 't"
    and change :: "'k \<Rightarrow> ('v \<Rightarrow> 'v) \<Rightarrow> 't \<Rightarrow> 't"
    and wf :: "'t \<Rightarrow> bool"
  assumes get_put: "get (put k v t) k' = (if k' = k then Some v else get t k')"
    and get_removed: "get (remove k t) k' = (if k' = k then None else get t k')"
    and get_change: "get (change k f t) k' = (if k' = k then map_option f (get t k) else get t k')"
    and wf_put: "wf t \<Longrightarrow> wf (put k v t)"
    and wf_removed: "wf t \<Longrightarrow> wf (remove k t)"
    and wf_change: "wf t \<Longrightarrow> wf (change k f t)"
begin

lemma put_put_get: "get (put k v (put k w t)) = get (put k v t)"
  by (auto simp: get_put)

lemma put_commute_get: "k \<noteq> l \<Longrightarrow> get (put k v (put l w t)) = get (put l w (put k v t))"
  by (auto simp: get_put)

lemma remove_put_get: "get (remove k (put k v t)) = get (remove k t)"
  by (auto simp: get_put get_removed)

lemma change_id_get: "(\<And>v. get t k = Some v \<Longrightarrow> f v = v) \<Longrightarrow> get (change k f t) = get t"
  by (cases "get t k") (auto simp: get_change fun_eq_iff)

end

interpretation bt: keyed_table bt_get bt_insert bt_remove bt_update bt_wf
  by unfold_locales (auto simp: bt_get_update)

end
