(* ===== verification/Rust_Str.thy ===== *)
theory Rust_Str
  imports Prelude
begin

text \<open>
  Rust's \<open>str\<close> and \<open>[u8]\<close> as \<open>string\<close>, one \<open>char\<close> per byte, so that lengths and indices are byte
  lengths and byte indices as in the source. The functions are the parts of \<open>core::str\<close> the
  modelled code calls: UTF-8 validation, character boundaries, checked slicing, Unicode white
  space trimming, and decimal printing and parsing.
\<close>

section \<open>Bytes\<close>

definition byte :: "char \<Rightarrow> nat" where
  "byte c = of_char c"

definition is_ascii_digit :: "char \<Rightarrow> bool" where
  "is_ascii_digit c = (48 \<le> byte c \<and> byte c \<le> 57)"

definition is_ascii_alphanumeric :: "char \<Rightarrow> bool" where
  "is_ascii_alphanumeric c =
     (is_ascii_digit c \<or> 65 \<le> byte c \<and> byte c \<le> 90 \<or> 97 \<le> byte c \<and> byte c \<le> 122)"

abbreviation newline :: char where
  "newline \<equiv> CHR 0x0A"

lemma byte_less [simp]: "byte c < 256"
proof -
  have "(of_char c :: nat) < 256" by (metis of_char_of mod_less_divisor of_char_mod_256 zero_less_numeral)
  then show ?thesis by (simp add: byte_def)
qed

lemma byte_inject [simp]: "byte a = byte b \<longleftrightarrow> a = b"
  by (simp add: byte_def)

lemma byte_char_of: "n < 256 \<Longrightarrow> byte (char_of n) = n"
  by (simp add: byte_def)

section \<open>UTF-8\<close>

definition is_cont :: "nat \<Rightarrow> bool" where
  "is_cont b = (128 \<le> b \<and> b \<le> 191)"

text \<open>The byte length of the well-formed scalar value that starts \<open>s\<close>, and 0 when there is none.\<close>

definition scalar_len :: "string \<Rightarrow> nat" where
  "scalar_len s = (case map byte (take 4 s) of
     [] \<Rightarrow> 0
   | a # t \<Rightarrow>
      if a < 128 then 1
      else if 194 \<le> a \<and> a \<le> 223 then
        (case t of b # _ \<Rightarrow> if is_cont b then 2 else 0 | _ \<Rightarrow> 0)
      else if 224 \<le> a \<and> a \<le> 239 then
        (case t of b # c # _ \<Rightarrow>
           if is_cont b \<and> is_cont c \<and> (a = 224 \<longrightarrow> 160 \<le> b) \<and> (a = 237 \<longrightarrow> b \<le> 159) then 3 else 0
         | _ \<Rightarrow> 0)
      else if 240 \<le> a \<and> a \<le> 244 then
        (case t of b # c # d # _ \<Rightarrow>
           if is_cont b \<and> is_cont c \<and> is_cont d \<and> (a = 240 \<longrightarrow> 144 \<le> b) \<and> (a = 244 \<longrightarrow> b \<le> 143)
           then 4 else 0
         | _ \<Rightarrow> 0)
      else 0)"

lemma scalar_len_le: "scalar_len s \<le> length s"
  unfolding scalar_len_def
  by (cases s; cases "tl s"; cases "tl (tl s)"; cases "tl (tl (tl s))") auto

lemma scalar_len_Nil [simp]: "scalar_len [] = 0"
  by (simp add: scalar_len_def)

function utf8_valid :: "string \<Rightarrow> bool" where
  "utf8_valid s =
     (if s = [] then True
      else if scalar_len s = 0 then False
      else utf8_valid (drop (scalar_len s) s))"
  by pat_completeness auto
termination
proof (relation "measure length", goal_cases)
  case 1
  show ?case by simp
next
  case (2 s)
  then show ?case
    using scalar_len_le[of s] by (cases s) auto
qed

declare utf8_valid.simps [simp del]

definition is_char_boundary :: "string \<Rightarrow> nat \<Rightarrow> bool" where
  "is_char_boundary s i =
     (i = 0 \<or> i = length s \<or> i < length s \<and> \<not> is_cont (byte (s ! i)))"

text \<open>\<open>s.get(a..b)\<close>.\<close>

definition str_get :: "string \<Rightarrow> nat \<Rightarrow> nat \<Rightarrow> string option" where
  "str_get s a b =
     (if a \<le> b \<and> is_char_boundary s a \<and> is_char_boundary s b then Some (take (b - a) (drop a s))
      else None)"

lemma scalar_first_not_cont: "scalar_len (a # s) \<noteq> 0 \<Longrightarrow> \<not> is_cont (byte a)"
  by (auto simp: scalar_len_def is_cont_def split: if_splits)

lemma scalar_tail_cont:
  assumes "0 < i" "i < scalar_len s"
  shows "is_cont (byte (s ! i))"
proof -
  have "scalar_len s \<le> 4"
    by (simp add: scalar_len_def split: list.split)
  then have "i = 1 \<or> i = 2 \<or> i = 3" using assms by linarith
  moreover obtain a t where "s = a # t" using assms by (cases s) auto
  ultimately show ?thesis
    using assms(2)
    by (cases t; cases "tl t"; cases "tl (tl t)")
      (auto simp: scalar_len_def split: if_splits)
qed

lemma scalar_ascii: "byte a < 128 \<Longrightarrow> scalar_len (a # s) = 1"
  by (simp add: scalar_len_def)

lemma utf8_valid_first:
  assumes "utf8_valid s" "s \<noteq> []"
  shows "\<not> is_cont (byte (s ! 0))"
proof -
  obtain a t where "s = a # t" using assms(2) by (cases s) auto
  moreover have "scalar_len s \<noteq> 0"
    using assms utf8_valid.simps[of s] by (auto split: if_splits)
  ultimately show ?thesis using scalar_first_not_cont[of a t] by simp
qed

text \<open>After an ASCII byte of valid UTF-8 comes a character boundary.\<close>

lemma boundary_after_ascii:
  assumes "utf8_valid s" "i < length s" "byte (s ! i) < 128"
  shows "is_char_boundary s (Suc i)"
  using assms
proof (induction s arbitrary: i rule: utf8_valid.induct)
  case (1 s)
  let ?n = "scalar_len s"
  have s: "s \<noteq> []" "?n \<noteq> 0" "utf8_valid (drop ?n s)" "?n \<le> length s"
    using "1.prems" utf8_valid.simps[of s] scalar_len_le[of s] by (auto split: if_splits)
  show ?case
  proof (cases "i < ?n")
    case True
    have "i = 0"
      using True "1.prems"(3) scalar_tail_cont[of i s] by (auto simp: is_cont_def)
    then have "?n = 1"
      using s(1) "1.prems"(3) by (cases s) (auto simp: scalar_ascii)
    then show ?thesis
      using \<open>i = 0\<close> s utf8_valid_first[OF s(3)] by (auto simp: is_char_boundary_def)
  next
    case False
    have "is_char_boundary (drop ?n s) (Suc (i - ?n))"
      using "1.IH"[of "i - ?n"] s False "1.prems" by auto
    then show ?thesis
      using False s "1.prems"(2) by (auto simp: is_char_boundary_def)
  qed
qed

section \<open>White space\<close>

text \<open>The byte length of the white space character that starts \<open>s\<close>: ASCII 9 to 13 and 32,
  U+0085, U+00A0, U+1680, U+2000 to U+200A, U+2028, U+2029, U+202F, U+205F and U+3000.\<close>

definition space_len :: "string \<Rightarrow> nat" where
  "space_len s = (case map byte (take 3 s) of
     [] \<Rightarrow> 0
   | a # t \<Rightarrow>
      if 9 \<le> a \<and> a \<le> 13 \<or> a = 32 then 1
      else (case t of
         [] \<Rightarrow> 0
       | b # u \<Rightarrow>
          if a = 194 \<and> (b = 133 \<or> b = 160) then 2
          else (case u of
             [] \<Rightarrow> 0
           | c # _ \<Rightarrow>
              if a = 225 \<and> b = 154 \<and> c = 128
                \<or> a = 226 \<and> b = 128 \<and> (128 \<le> c \<and> c \<le> 138 \<or> c = 168 \<or> c = 169 \<or> c = 175)
                \<or> a = 226 \<and> b = 129 \<and> c = 159
                \<or> a = 227 \<and> b = 128 \<and> c = 128
              then 3 else 0)))"

lemma space_len_Nil [simp]: "space_len [] = 0"
  by (simp add: space_len_def)

function trim_start :: "string \<Rightarrow> string" where
  "trim_start s = (if space_len s = 0 then s else trim_start (drop (space_len s) s))"
  by pat_completeness auto
termination
proof (relation "measure length", goal_cases)
  case 1
  show ?case by simp
next
  case (2 s)
  then have "s \<noteq> []" by auto
  with 2 show ?case by simp
qed

declare trim_start.simps [simp del]

text \<open>\<open>s.trim().is_empty()\<close>: nothing is left once the white space at the front is gone.\<close>

definition trim_is_empty :: "string \<Rightarrow> bool" where
  "trim_is_empty s = (trim_start s = [])"

lemma length_trim_start: "length (trim_start s) \<le> length s"
proof (induction s rule: trim_start.induct)
  case (1 s)
  then show ?case by (subst trim_start.simps) (simp split: if_split, linarith)
qed

lemma trim_start_suffix: "\<exists>p. s = p @ trim_start s"
proof (induction s rule: trim_start.induct)
  case (1 s)
  show ?case
  proof (cases "space_len s = 0")
    case True
    then show ?thesis by (simp add: trim_start.simps[of s])
  next
    case False
    then obtain p where p: "drop (space_len s) s = p @ trim_start (drop (space_len s) s)"
      using "1.IH" by blast
    have "s = (take (space_len s) s @ p) @ trim_start (drop (space_len s) s)"
      by (metis append.assoc append_take_drop_id p)
    then show ?thesis using False by (metis trim_start.simps)
  qed
qed

lemma trim_start_idem: "trim_start (trim_start s) = trim_start s"
proof (induction s rule: trim_start.induct)
  case (1 s)
  then show ?case
    by (cases "space_len s = 0") (simp_all add: trim_start.simps[of s])
qed

section \<open>Decimal numbers\<close>

definition digit_char :: "nat \<Rightarrow> char" where
  "digit_char d = char_of (48 + d)"

fun nat_digits :: "nat \<Rightarrow> string" where
  "nat_digits n =
     (if n < 10 then [digit_char n] else nat_digits (n div 10) @ [digit_char (n mod 10)])"

declare nat_digits.simps [simp del]

text \<open>\<open>{:0w}\<close>: pad with zeros on the left.\<close>

definition pad_zero :: "nat \<Rightarrow> string \<Rightarrow> string" where
  "pad_zero w s = replicate (w - length s) CHR ''0'' @ s"

definition digits_value :: "string \<Rightarrow> nat" where
  "digits_value s = foldl (\<lambda>n c. 10 * n + (byte c - 48)) 0 s"

text \<open>\<open>parse::<u64>()\<close>: an optional plus sign, then at least one digit, within range.\<close>

definition parse_u64 :: "string \<Rightarrow> nat option" where
  "parse_u64 s =
     (let t = (case s of c # cs \<Rightarrow> if c = CHR ''+'' then cs else s | [] \<Rightarrow> [])
      in if t \<noteq> [] \<and> list_all is_ascii_digit t \<and> digits_value t \<le> u64_max
         then Some (digits_value t) else None)"

text \<open>\<open>parse::<i64>()\<close>: an optional sign, then at least one digit, within range.\<close>

definition parse_i64 :: "string \<Rightarrow> int option" where
  "parse_i64 s =
     (let neg = (s \<noteq> [] \<and> hd s = CHR ''-'');
          t = (case s of c # cs \<Rightarrow> if c = CHR ''+'' \<or> c = CHR ''-'' then cs else s | [] \<Rightarrow> []);
          v = (if neg then - int (digits_value t) else int (digits_value t))
      in if t \<noteq> [] \<and> list_all is_ascii_digit t \<and> - (2 ^ 63) \<le> v \<and> v < 2 ^ 63
         then Some v else None)"

text \<open>The texts of the parse errors: the scan stops at the first character that is no digit or
  takes the number out of range.\<close>

definition parse_bool_error :: string where
  "parse_bool_error = ''provided string was not '' @ [CHR 0x60] @ ''true'' @ [CHR 0x60] @ '' or ''
     @ [CHR 0x60] @ ''false'' @ [CHR 0x60]"

fun scan_i64_error :: "bool \<Rightarrow> int \<Rightarrow> string \<Rightarrow> string" where
  "scan_i64_error neg acc [] = []"
| "scan_i64_error neg acc (c # cs) =
     (if \<not> is_ascii_digit c then ''invalid digit found in string''
      else let d = int (byte c - 48);
               acc' = (if neg then 10 * acc - d else 10 * acc + d)
           in if acc' < - (2 ^ 63) then ''number too small to fit in target type''
              else if 2 ^ 63 \<le> acc' then ''number too large to fit in target type''
              else scan_i64_error neg acc' cs)"

definition parse_i64_error :: "string \<Rightarrow> string" where
  "parse_i64_error s =
     (case s of
        [] \<Rightarrow> ''cannot parse integer from empty string''
      | c # cs \<Rightarrow>
          if c = CHR ''+'' \<or> c = CHR ''-'' then
            (if cs = [] then ''invalid digit found in string'' else scan_i64_error (c = CHR ''-'') 0 cs)
          else scan_i64_error False 0 s)"

lemma byte_digit_char: "d < 10 \<Longrightarrow> byte (digit_char d) = 48 + d"
  by (simp add: digit_char_def byte_char_of)

lemma digits_value_snoc: "digits_value (s @ [c]) = 10 * digits_value s + (byte c - 48)"
  by (simp add: digits_value_def)

lemma nat_digits_value: "digits_value (nat_digits n) = n"
proof (induction n rule: nat_digits.induct)
  case (1 n)
  show ?case
  proof (cases "n < 10")
    case True
    then show ?thesis
      by (simp add: nat_digits.simps[of n] digits_value_def byte_digit_char)
  next
    case False
    then show ?thesis
      using 1 by (simp add: nat_digits.simps[of n] digits_value_snoc byte_digit_char)
  qed
qed

lemma nat_digits_ascii: "list_all is_ascii_digit (nat_digits n)"
proof (induction n rule: nat_digits.induct)
  case (1 n)
  have "is_ascii_digit (digit_char d)" if "d < 10" for d
    using that by (simp add: is_ascii_digit_def byte_digit_char)
  with 1 show ?case by (subst nat_digits.simps) auto
qed

lemma nat_digits_nonempty: "nat_digits n \<noteq> []"
  by (subst nat_digits.simps) simp

lemma digit_not_plus: "is_ascii_digit c \<Longrightarrow> c \<noteq> CHR ''+''"
  by (auto simp: is_ascii_digit_def byte_def)

lemma parse_u64_nat_digits: "n \<le> u64_max \<Longrightarrow> parse_u64 (nat_digits n) = Some n"
  using nat_digits_ascii[of n] nat_digits_nonempty[of n] nat_digits_value[of n]
  by (cases "nat_digits n") (auto simp: parse_u64_def Let_def dest: digit_not_plus)

end
