(* ===== verification/Permissions.thy ===== *)
theory Permissions
  imports Rust_Str
begin

text \<open>
  Sandbox capabilities and the permission policy (crates/kraai-execution-types, permissions.rs,
  policy.rs and profile.rs): the six capabilities in their declared order, the closed capability
  sets a script runs with, and how a script's request is resolved against its profile's defaults,
  per-capability rules and escalation policy. A \<open>BTreeSet\<close> is a set over a finite linear order and
  its iteration is \<open>sorted_list_of_set\<close>. The locale \<open>closure_operator\<close> states what a client of the
  capability closure may use; it is interpreted on the closure that the constructor computes.
\<close>

section \<open>Capabilities\<close>

datatype sandbox_capability =
  WorkspaceRead | HostRead | WorkspaceWrite | HostWrite | Network | NoSandbox

definition capability_rank :: "sandbox_capability \<Rightarrow> nat" where
  "capability_rank c = (case c of WorkspaceRead \<Rightarrow> 0 | HostRead \<Rightarrow> 1 | WorkspaceWrite \<Rightarrow> 2
     | HostWrite \<Rightarrow> 3 | Network \<Rightarrow> 4 | NoSandbox \<Rightarrow> 5)"

lemma capability_rank_inj [simp]: "capability_rank a = capability_rank b \<longleftrightarrow> a = b"
  by (cases a; cases b) (simp_all add: capability_rank_def)

instantiation sandbox_capability :: linorder
begin

definition less_eq_sandbox_capability :: "sandbox_capability \<Rightarrow> sandbox_capability \<Rightarrow> bool" where
  "less_eq_sandbox_capability a b = (capability_rank a \<le> capability_rank b)"

definition less_sandbox_capability :: "sandbox_capability \<Rightarrow> sandbox_capability \<Rightarrow> bool" where
  "less_sandbox_capability a b = (capability_rank a < capability_rank b)"

instance
  by intro_classes (auto simp: less_eq_sandbox_capability_def less_sandbox_capability_def)

end

lemma UNIV_sandbox_capability:
  "UNIV = {WorkspaceRead, HostRead, WorkspaceWrite, HostWrite, Network, NoSandbox}"
  using sandbox_capability.exhaust by blast

instance sandbox_capability :: finite
  by intro_classes (simp add: UNIV_sandbox_capability)

fun capability_as_str :: "sandbox_capability \<Rightarrow> string" where
  "capability_as_str WorkspaceRead = ''workspace-read''"
| "capability_as_str HostRead = ''host-read''"
| "capability_as_str WorkspaceWrite = ''workspace-write''"
| "capability_as_str HostWrite = ''host-write''"
| "capability_as_str Network = ''network''"
| "capability_as_str NoSandbox = ''no-sandbox''"

type_synonym sandbox_capabilities = "sandbox_capability set"

definition caps_workspace_read :: sandbox_capabilities where
  "caps_workspace_read = {WorkspaceRead, Network}"

definition caps_workspace_write :: sandbox_capabilities where
  "caps_workspace_write = {WorkspaceRead, WorkspaceWrite, Network}"

definition caps_new :: "sandbox_capability list \<Rightarrow> sandbox_capabilities" where
  "caps_new capabilities =
     (let effective = set capabilities in
      if NoSandbox \<in> effective then {NoSandbox}
      else
        let effective = (if HostWrite \<in> effective
                         then effective \<union> {HostRead, WorkspaceWrite, WorkspaceRead} else effective);
            effective = (if WorkspaceWrite \<in> effective
                         then insert WorkspaceRead effective else effective);
            effective = (if HostRead \<in> effective
                         then insert WorkspaceRead effective else effective)
        in effective)"

definition caps_contains :: "sandbox_capabilities \<Rightarrow> sandbox_capability \<Rightarrow> bool" where
  "caps_contains s c = (NoSandbox \<in> s \<or> c \<in> s)"

definition is_unsandboxed :: "sandbox_capabilities \<Rightarrow> bool" where
  "is_unsandboxed s = caps_contains s NoSandbox"

definition caps_iter :: "sandbox_capabilities \<Rightarrow> sandbox_capability list" where
  "caps_iter s = sorted_list_of_set s"

section \<open>Policy\<close>

datatype escalation_policy = Deny | Prompt | Allow

fun policy_as_str :: "escalation_policy \<Rightarrow> string" where
  "policy_as_str Deny = ''deny''"
| "policy_as_str Prompt = ''prompt''"
| "policy_as_str Allow = ''allow''"

type_synonym capability_permission_rules = "(sandbox_capability, escalation_policy) btree"

definition rules_new ::
  "(sandbox_capability \<times> escalation_policy) list \<Rightarrow> capability_permission_rules" where
  "rules_new rules = bt_of_list rules"

definition rules_get ::
  "capability_permission_rules \<Rightarrow> sandbox_capability \<Rightarrow> escalation_policy option" where
  "rules_get rules c = bt_get rules c"

record resolved_permissions =
  effective :: sandbox_capabilities
  additions :: "sandbox_capability list"

datatype permission_resolution =
  Denied "sandbox_capability list"
| PromptFor resolved_permissions
| Allowed resolved_permissions

definition requested_additions ::
  "sandbox_capabilities \<Rightarrow> sandbox_capabilities \<Rightarrow> sandbox_capability list" where
  "requested_additions defaults requested =
     (if is_unsandboxed requested \<and> \<not> is_unsandboxed defaults then [NoSandbox]
      else filter (\<lambda>c. \<not> caps_contains defaults c) (caps_iter requested))"

definition merge_capabilities ::
  "sandbox_capabilities \<Rightarrow> sandbox_capabilities \<Rightarrow> sandbox_capabilities" where
  "merge_capabilities defaults requested = caps_new (caps_iter defaults @ caps_iter requested)"

text \<open>\<open>rules.get(c).unwrap_or(fallback)\<close>.\<close>

definition policy_for ::
  "capability_permission_rules \<Rightarrow> escalation_policy \<Rightarrow> sandbox_capability \<Rightarrow> escalation_policy" where
  "policy_for rules fallback c = (case rules_get rules c of None \<Rightarrow> fallback | Some p \<Rightarrow> p)"

text \<open>The loop over the additions: the denied ones so far, and whether one needs a prompt.\<close>

fun resolve_loop ::
  "(sandbox_capability \<Rightarrow> escalation_policy) \<Rightarrow> sandbox_capability list \<Rightarrow> bool
     \<Rightarrow> sandbox_capability list \<Rightarrow> sandbox_capability list \<times> bool" where
  "resolve_loop policy denied prompt [] = (denied, prompt)"
| "resolve_loop policy denied prompt (c # cs) =
     (case policy c of
        Deny \<Rightarrow> resolve_loop policy (denied @ [c]) prompt cs
      | Prompt \<Rightarrow> resolve_loop policy denied True cs
      | Allow \<Rightarrow> resolve_loop policy denied prompt cs)"

definition resolve ::
  "sandbox_capabilities \<Rightarrow> sandbox_capabilities \<Rightarrow> capability_permission_rules
     \<Rightarrow> escalation_policy \<Rightarrow> permission_resolution" where
  "resolve self requested rules fallback =
     (let adds = requested_additions self requested in
      if adds = [] then Allowed \<lparr>effective = self, additions = adds\<rparr>
      else
        let (denied, prompt) = resolve_loop (policy_for rules fallback) [] False adds in
        if denied \<noteq> [] then Denied denied
        else
          let resolved = \<lparr>effective = merge_capabilities self requested, additions = adds\<rparr> in
          if prompt then PromptFor resolved else Allowed resolved)"

section \<open>Script profiles\<close>

datatype environment_policy = EnvMinimal | EnvInherit | EnvAllowList

datatype nushell_startup = StartupClean | StartupInherit

datatype path_policy = PathInherit | PathPackaged

record script_profile_snapshot =
  profile_id :: string
  commands :: "string list"
  permissions :: sandbox_capabilities
  permission_rules :: capability_permission_rules
  escalation_policy_of :: escalation_policy
  environment_policy_of :: environment_policy
  nushell_startup_of :: nushell_startup
  path_policy_of :: path_policy

section \<open>What a capability set grants\<close>

definition granted :: "sandbox_capabilities \<Rightarrow> sandbox_capability set" where
  "granted s = {c. caps_contains s c}"

text \<open>A set is closed when it holds what its members imply, or is exactly the unsandboxed set.\<close>

definition caps_closed :: "sandbox_capabilities \<Rightarrow> bool" where
  "caps_closed s =
     (if NoSandbox \<in> s then s = {NoSandbox}
      else (HostWrite \<in> s \<longrightarrow> HostRead \<in> s \<and> WorkspaceWrite \<in> s)
         \<and> (WorkspaceWrite \<in> s \<longrightarrow> WorkspaceRead \<in> s)
         \<and> (HostRead \<in> s \<longrightarrow> WorkspaceRead \<in> s))"

lemma set_caps_iter [simp]: "set (caps_iter s) = s"
  by (simp add: caps_iter_def)

lemma sorted_caps_iter: "sorted (caps_iter s)"
  by (simp add: caps_iter_def)

lemma distinct_caps_iter: "distinct (caps_iter s)"
  by (simp add: caps_iter_def)

lemma caps_new_closed: "caps_closed (caps_new xs)"
  by (auto simp: caps_new_def caps_closed_def Let_def)

lemma caps_new_least: "set xs \<subseteq> s \<Longrightarrow> caps_closed s \<Longrightarrow> granted (caps_new xs) \<subseteq> granted s"
  by (auto simp: caps_new_def caps_closed_def granted_def caps_contains_def Let_def split: if_splits)

lemma caps_new_extensive: "set xs \<subseteq> granted (caps_new xs)"
  by (auto simp: caps_new_def granted_def caps_contains_def Let_def)

lemma caps_new_mono: "set xs \<subseteq> set ys \<Longrightarrow> granted (caps_new xs) \<subseteq> granted (caps_new ys)"
  by (auto simp: caps_new_def granted_def caps_contains_def Let_def split: if_splits)

lemma caps_new_id: "caps_closed s \<Longrightarrow> set xs = s \<Longrightarrow> caps_new xs = s"
  by (auto simp: caps_new_def caps_closed_def Let_def split: if_splits)

lemma closed_union:
  "caps_closed a \<Longrightarrow> caps_closed b \<Longrightarrow> NoSandbox \<notin> a \<Longrightarrow> NoSandbox \<notin> b \<Longrightarrow> caps_closed (a \<union> b)"
  by (auto simp: caps_closed_def)

text \<open>The constructor as an operator on sets of capabilities.\<close>

definition caps_closure :: "sandbox_capability set \<Rightarrow> sandbox_capability set" where
  "caps_closure s = granted (caps_new (caps_iter s))"

locale closure_operator =
  fixes cl :: "'a set \<Rightarrow> 'a set"
  assumes extensive: "s \<subseteq> cl s"
    and monotone: "s \<subseteq> t \<Longrightarrow> cl s \<subseteq> cl t"
    and idempotent: "cl (cl s) = cl s"
begin

lemma cl_union: "cl (cl s \<union> cl t) = cl (s \<union> t)"
proof (rule antisym)
  have "cl s \<union> cl t \<subseteq> cl (s \<union> t)" by (simp add: monotone)
  then show "cl (cl s \<union> cl t) \<subseteq> cl (s \<union> t)" by (metis idempotent monotone)
next
  have "s \<union> t \<subseteq> cl s \<union> cl t" using extensive by blast
  then show "cl (s \<union> t) \<subseteq> cl (cl s \<union> cl t)" by (rule monotone)
qed

lemma cl_least: "s \<subseteq> t \<Longrightarrow> cl t = t \<Longrightarrow> cl s \<subseteq> t"
  using monotone by metis

lemma cl_grows: "cl s \<subseteq> cl (s \<union> t)"
  by (simp add: monotone)

end

interpretation caps: closure_operator caps_closure
proof unfold_locales
  show "s \<subseteq> caps_closure s" for s
    using caps_new_extensive[of "caps_iter s"] by (simp add: caps_closure_def)
next
  show "caps_closure s \<subseteq> caps_closure t" if "s \<subseteq> t" for s t
    unfolding caps_closure_def using that by (intro caps_new_mono) simp
next
  show "caps_closure (caps_closure s) = caps_closure s" for s
    by (auto simp: caps_closure_def caps_new_def granted_def caps_contains_def Let_def)
qed

lemma granted_merge: "granted (merge_capabilities d r) = caps_closure (d \<union> r)"
proof -
  have "set (caps_iter d @ caps_iter r) = set (caps_iter (d \<union> r))" by simp
  then show ?thesis
    unfolding merge_capabilities_def caps_closure_def
    by (metis caps_new_mono order_refl subset_antisym)
qed

lemma granted_new: "granted (caps_new xs) = caps_closure (set xs)"
  unfolding caps_closure_def by (metis caps_new_mono order_refl set_caps_iter subset_antisym)

section \<open>What the resolution decides\<close>

lemma resolve_loop_denied:
  "fst (resolve_loop policy denied prompt cs) = denied @ filter (\<lambda>c. policy c = Deny) cs"
  by (induction cs arbitrary: denied prompt) (auto split: escalation_policy.split)

lemma resolve_loop_prompt:
  "snd (resolve_loop policy denied prompt cs) = (prompt \<or> Prompt \<in> policy ` set cs)"
  by (induction cs arbitrary: denied prompt) (auto split: escalation_policy.split)

lemma denied_filter: "filter (\<lambda>c. policy c = Deny) cs = [] \<longleftrightarrow> Deny \<notin> policy ` set cs"
  by (force simp: filter_empty_conv image_iff)

lemmas resolve_loop_simps = resolve_loop_denied resolve_loop_prompt

lemma resolve_eq:
  "resolve d r rules fb =
     (let adds = requested_additions d r; policy = policy_for rules fb;
          candidate = \<lparr>effective = merge_capabilities d r, additions = adds\<rparr> in
      if adds = [] then Allowed \<lparr>effective = d, additions = []\<rparr>
      else if Deny \<in> policy ` set adds then Denied (filter (\<lambda>c. policy c = Deny) adds)
      else if Prompt \<in> policy ` set adds then PromptFor candidate
      else Allowed candidate)"
  by (simp add: resolve_def Let_def split_beta resolve_loop_simps denied_filter)

lemma requested_additions_gain:
  assumes "c \<in> set (requested_additions d r)"
  shows "\<not> caps_contains d c \<and> caps_contains r c"
  using assms by (auto simp: requested_additions_def is_unsandboxed_def caps_contains_def split: if_splits)

text \<open>Where the request stays sandboxed, whatever the merge adds is one of the additions.\<close>

lemma merge_gain:
  assumes "caps_closed d" "caps_closed r" "\<not> is_unsandboxed r" "\<not> is_unsandboxed d"
    "caps_contains (merge_capabilities d r) c" "\<not> caps_contains d c"
  shows "c \<in> set (requested_additions d r)"
proof -
  have ns: "NoSandbox \<notin> d" "NoSandbox \<notin> r"
    using assms by (auto simp: is_unsandboxed_def caps_contains_def)
  then have "merge_capabilities d r = d \<union> r"
    using assms(1,2) by (simp add: merge_capabilities_def caps_new_id closed_union)
  then show ?thesis
    using assms ns by (auto simp: requested_additions_def caps_contains_def is_unsandboxed_def)
qed

lemma allowed_effective:
  assumes "resolve d r rules fb = Allowed p \<or> resolve d r rules fb = PromptFor p"
  shows "effective p = (if requested_additions d r = [] then d else merge_capabilities d r)
    \<and> additions p = requested_additions d r"
  using assms by (auto simp: resolve_eq Let_def split: if_splits)

lemma no_additions_granted:
  assumes "requested_additions d r = []"
  shows "granted r \<subseteq> granted d"
  using assms
  by (auto simp: requested_additions_def granted_def caps_contains_def is_unsandboxed_def
      filter_empty_conv split: if_splits)

lemma granted_closure: "caps_closed d \<Longrightarrow> caps_closure d = granted d"
  by (simp add: caps_closure_def caps_new_id)

section \<open>Properties\<close>

text \<open>C20. No escalation without approval: when a request is allowed without asking, every
  capability the script gains over its profile's defaults was requested, and the policy in force
  (the capability's own rule, else the fallback) allows that capability, or allows leaving the
  sandbox altogether.\<close>

theorem resolve_no_unapproved_gain:
  assumes "caps_closed d" "caps_closed r"
    and "resolve d r rules fb = Allowed p"
    and "caps_contains (effective p) c" "\<not> caps_contains d c"
  shows "caps_contains r c \<and>
    (policy_for rules fb c = Allow \<or> is_unsandboxed r \<and> policy_for rules fb NoSandbox = Allow)"
proof (cases "is_unsandboxed r")
  case True
  have "\<not> is_unsandboxed d"
    using assms(5) by (auto simp: is_unsandboxed_def caps_contains_def)
  then have "requested_additions d r = [NoSandbox]"
    using True by (simp add: requested_additions_def)
  then have "policy_for rules fb NoSandbox = Allow"
    using assms(3) by (cases "policy_for rules fb NoSandbox") (auto simp: resolve_eq Let_def)
  then show ?thesis
    using True by (auto simp: is_unsandboxed_def caps_contains_def)
next
  case False
  have eff: "effective p = merge_capabilities d r"
    using allowed_effective[of d r rules fb p] assms(3,4,5) by (auto split: if_splits)
  have nd: "\<not> is_unsandboxed d"
    using assms(5) by (auto simp: is_unsandboxed_def caps_contains_def)
  then have mem: "c \<in> set (requested_additions d r)"
    using merge_gain[OF assms(1,2) False] assms(4,5) eff by simp
  then have "policy_for rules fb c = Allow"
    using assms(3) imageI[OF mem, of "policy_for rules fb"]
    by (cases "policy_for rules fb c") (auto simp: resolve_eq Let_def split: if_splits)
  then show ?thesis using requested_additions_gain[OF mem] by simp
qed

theorem resolve_no_unapproved_gain_witness:
  "caps_contains {WorkspaceRead, WorkspaceWrite, Network} Network
    \<and> policy_for [(Network, Allow)] Deny Network = Allow"
proof -
  let ?d = "{WorkspaceRead, WorkspaceWrite}" and ?r = "{Network}"
  have iter: "caps_iter {Network} = [Network]" by (simp add: caps_iter_def)
  have "requested_additions ?d ?r = [Network]"
    by (simp add: requested_additions_def is_unsandboxed_def caps_contains_def iter)
  then have res: "resolve ?d ?r [(Network, Allow)] Deny
      = Allowed \<lparr>effective = merge_capabilities ?d ?r, additions = [Network]\<rparr>"
    by (simp add: resolve_eq Let_def policy_for_def rules_get_def)
  have eff: "merge_capabilities ?d ?r = {WorkspaceRead, WorkspaceWrite, Network}"
    by (auto simp: merge_capabilities_def caps_new_def Let_def)
  have "caps_closed ?d" "caps_closed ?r" by (simp_all add: caps_closed_def)
  from resolve_no_unapproved_gain[OF this res, of Network] show ?thesis
    by (simp add: eff caps_contains_def is_unsandboxed_def)
qed

text \<open>The permissions a granted or prompted request runs with are the least closed capability
  set that holds both the defaults and the request: everything asked for is included, and nothing
  that neither implies.\<close>

theorem resolve_effective_least:
  assumes "caps_closed d"
    and "resolve d r rules fb = Allowed p \<or> resolve d r rules fb = PromptFor p"
  shows "granted (effective p) = caps_closure (d \<union> r)"
proof (cases "requested_additions d r = []")
  case True
  then have eff: "effective p = d" using allowed_effective[OF assms(2)] by simp
  have "r \<subseteq> granted d"
    using no_additions_granted[OF True] by (auto simp: granted_def caps_contains_def)
  moreover have "granted d = caps_closure d" using granted_closure[OF assms(1)] by simp
  ultimately have "d \<union> r \<subseteq> caps_closure d" using caps.extensive by blast
  then have "caps_closure (d \<union> r) \<subseteq> caps_closure d"
    using caps.idempotent caps.monotone by metis
  moreover have "caps_closure d \<subseteq> caps_closure (d \<union> r)" by (rule caps.cl_grows)
  ultimately show ?thesis
    using eff \<open>granted d = caps_closure d\<close> by simp
next
  case False
  then show ?thesis using allowed_effective[OF assms(2)] by (simp add: granted_merge)
qed

theorem resolve_effective_least_witness:
  "granted {HostRead, WorkspaceRead} = caps_closure ({HostRead, WorkspaceRead} \<union> {WorkspaceRead})"
proof -
  let ?d = "{HostRead, WorkspaceRead}" and ?r = "{WorkspaceRead}"
  have "requested_additions ?d ?r = []"
    by (simp add: requested_additions_def is_unsandboxed_def caps_contains_def caps_iter_def)
  then have "resolve ?d ?r [] Deny = Allowed \<lparr>effective = ?d, additions = []\<rparr>"
    by (simp add: resolve_eq Let_def)
  moreover have "caps_closed ?d" by (simp add: caps_closed_def)
  ultimately show ?thesis
    using resolve_effective_least[of ?d ?r "[]" Deny "\<lparr>effective = ?d, additions = []\<rparr>"] by simp
qed

text \<open>Every outcome of a resolution, as an equivalence: a request is denied exactly when some
  capability it adds has policy deny, and then the answer lists exactly those, in capability
  order; it prompts exactly when none is denied and one has policy prompt; otherwise it is
  allowed, which includes every request that adds nothing, whatever the policy says.\<close>

theorem resolve_outcome:
  "(\<forall>xs. resolve d r rules fb = Denied xs \<longleftrightarrow>
      xs \<noteq> [] \<and> xs = filter (\<lambda>c. policy_for rules fb c = Deny) (requested_additions d r))
   \<and> ((\<exists>p. resolve d r rules fb = PromptFor p) \<longleftrightarrow>
      Deny \<notin> policy_for rules fb ` set (requested_additions d r)
      \<and> Prompt \<in> policy_for rules fb ` set (requested_additions d r))
   \<and> ((\<exists>p. resolve d r rules fb = Allowed p) \<longleftrightarrow>
      policy_for rules fb ` set (requested_additions d r) \<subseteq> {Allow})
   \<and> sorted (requested_additions d r)"
proof -
  let ?pol = "policy_for rules fb" and ?adds = "requested_additions d r"
  have sorted: "sorted ?adds"
    by (simp add: requested_additions_def sorted_wrt_filter sorted_caps_iter)
  have allow: "?pol ` set ?adds \<subseteq> {Allow}
      \<longleftrightarrow> Deny \<notin> ?pol ` set ?adds \<and> Prompt \<notin> ?pol ` set ?adds"
  proof -
    have pol: "p = Allow \<longleftrightarrow> p \<noteq> Deny \<and> p \<noteq> Prompt" for p
      by (cases p) auto
    show ?thesis
      unfolding image_subset_iff image_iff singleton_iff pol by metis
  qed
  have denied: "filter (\<lambda>c. ?pol c = Deny) ?adds = [] \<longleftrightarrow> Deny \<notin> ?pol ` set ?adds"
    by (rule denied_filter)
  consider "?adds = []" | "?adds \<noteq> []" "Deny \<in> ?pol ` set ?adds"
    | "?adds \<noteq> []" "Deny \<notin> ?pol ` set ?adds" "Prompt \<in> ?pol ` set ?adds"
    | "?adds \<noteq> []" "Deny \<notin> ?pol ` set ?adds" "Prompt \<notin> ?pol ` set ?adds"
    by blast
  then show ?thesis
  proof cases
    case 1
    then show ?thesis by (simp add: resolve_eq Let_def)
  next
    case 2
    then obtain xs where xs: "xs = filter (\<lambda>c. ?pol c = Deny) ?adds" "xs \<noteq> []"
      using denied by blast
    have "resolve d r rules fb = Denied xs"
      using 2 xs by (auto simp: resolve_eq Let_def)
    then show ?thesis using 2(2) xs sorted allow by auto
  next
    case 3
    then have "\<exists>p. resolve d r rules fb = PromptFor p"
      by (auto simp: resolve_eq Let_def)
    then show ?thesis using 3 denied sorted allow by auto
  next
    case 4
    then have "\<exists>p. resolve d r rules fb = Allowed p"
      by (auto simp: resolve_eq Let_def)
    then show ?thesis using 4 denied sorted allow by auto
  qed
qed

end
