(* ===== verification/Edits.thy ===== *)
theory Edits
  imports Rust_Str "HOL-Library.Product_Lexorder" "HOL-Library.Multiset"
begin

text \<open>
  Exact text edits (crates/kraai-workspace-fs, edits.rs): an edit names a range of lines and the
  text it expects there, all edits are validated against the original text, sorted, checked for
  overlap, and spliced into one new text. Slicing, splitting and length arithmetic that would
  panic in Rust are the failure \<open>Panic\<close> of the model, so that its absence is a theorem. The
  reference is \<open>replaced_lines\<close>, which states the result line by line.
\<close>

section \<open>Data\<close>

record exact_text_edit =
  edit_start_line :: nat
  edit_end_line :: nat
  old_text :: string
  new_text :: string

record line_span =
  content_start :: nat
  content_end :: nat

record pending_edit =
  pending_start_line :: nat
  pending_end_line :: nat
  start_byte :: nat
  end_byte :: nat
  pending_new_text :: string

datatype workspace_fs_error =
  MissingFileName string
| MissingParent string
| Canonicalize string string
| Metadata string string
| NotFile string
| NotDirectory string
| ReadText string string
| NoEdits
| InvalidLineRange string nat nat nat
| InvalidTextBoundary string nat
| OldTextMismatch string nat string string
| OverlappingEdits string nat nat nat nat
| WriteError string string

datatype edit_failure = Fs workspace_fs_error | Panic

definition isize_max :: nat where
  "isize_max = 9223372036854775807"

section \<open>Operations\<close>

text \<open>The loop of \<open>index_lines\<close>: the spans pushed so far and where the current line starts.\<close>

fun index_loop :: "line_span list \<Rightarrow> nat \<Rightarrow> nat \<Rightarrow> string \<Rightarrow> line_span list \<times> nat" where
  "index_loop ls start index [] = (ls, start)"
| "index_loop ls start index (b # bs) =
     (if b = newline
      then index_loop (ls @ [\<lparr>content_start = start, content_end = sat_add index 1\<rparr>])
             (sat_add index 1) (Suc index) bs
      else index_loop ls start (Suc index) bs)"

definition index_lines :: "string \<Rightarrow> line_span list" where
  "index_lines contents =
     (if contents = [] then [\<lparr>content_start = 0, content_end = 0\<rparr>]
      else let (ls, start) = index_loop [] 0 0 contents
           in if start < length contents
              then ls @ [\<lparr>content_start = start, content_end = length contents\<rparr>] else ls)"

definition slice_get :: "'a list \<Rightarrow> nat \<Rightarrow> 'a option" where
  "slice_get xs i = (if i < length xs then Some (xs ! i) else None)"

definition validate_edit ::
  "string \<Rightarrow> string \<Rightarrow> line_span list \<Rightarrow> nat \<Rightarrow> exact_text_edit
     \<Rightarrow> (edit_failure, pending_edit) result" where
  "validate_edit path contents lns index edit =
     (let edit_number = sat_add index 1;
          start_line = edit_start_line edit;
          end_line = edit_end_line edit;
          bad_range = Fs (InvalidLineRange path edit_number start_line end_line)
      in bindR (ensure (\<not> (start_line = 0 \<or> end_line < start_line \<or> length lns < end_line)) bad_range) (\<lambda>_.
         bindR (ok_or (slice_get lns (sat_sub start_line 1)) bad_range) (\<lambda>first.
         bindR (ok_or (slice_get lns (sat_sub end_line 1)) bad_range) (\<lambda>last.
         bindR (ok_or (str_get contents (content_start first) (content_end last))
                  (Fs (InvalidTextBoundary path edit_number))) (\<lambda>actual.
         bindR (ensure (actual = old_text edit)
                  (Fs (OldTextMismatch path edit_number (old_text edit) actual))) (\<lambda>_.
         Inr \<lparr>pending_start_line = start_line, pending_end_line = end_line,
              start_byte = content_start first, end_byte = content_end last,
              pending_new_text = new_text edit\<rparr>))))))"

fun validate_all ::
  "string \<Rightarrow> string \<Rightarrow> line_span list \<Rightarrow> nat \<Rightarrow> exact_text_edit list
     \<Rightarrow> (edit_failure, pending_edit list) result" where
  "validate_all path contents lns index [] = Inr []"
| "validate_all path contents lns index (e # es) =
     bindR (validate_edit path contents lns index e) (\<lambda>p.
     bindR (validate_all path contents lns (Suc index) es) (\<lambda>ps. Inr (p # ps)))"

text \<open>\<open>windows(2)\<close> over the sorted edits.\<close>

fun check_overlaps :: "string \<Rightarrow> pending_edit list \<Rightarrow> (edit_failure, unit) result" where
  "check_overlaps path (previous # current # rest) =
     (if pending_start_line current \<le> pending_end_line previous
      then Inl (Fs (OverlappingEdits path (pending_start_line previous) (pending_end_line previous)
                      (pending_start_line current) (pending_end_line current)))
      else check_overlaps path (current # rest))"
| "check_overlaps path _ = Inr ()"

text \<open>\<open>length - (end_byte - start_byte) + new_text.len()\<close>, each operation checked.\<close>

definition output_len_step :: "nat \<Rightarrow> pending_edit \<Rightarrow> (edit_failure, nat) result" where
  "output_len_step n edit =
     bindR (ok_or (checked_sub (end_byte edit) (start_byte edit)) Panic) (\<lambda>removed.
     bindR (ok_or (checked_sub n removed) Panic) (\<lambda>kept.
     ok_or (checked_add usize_max kept (length (pending_new_text edit))) Panic))"

definition split_at :: "string \<Rightarrow> nat \<Rightarrow> (edit_failure, string \<times> string) result" where
  "split_at s k = (if is_char_boundary s k then Inr (take k s, drop k s) else Inl Panic)"

text \<open>One turn of the splicing loop over the state \<open>(buffer, remaining, consumed)\<close>.\<close>

definition splice_step ::
  "string \<times> string \<times> nat \<Rightarrow> pending_edit \<Rightarrow> (edit_failure, string \<times> string \<times> nat) result" where
  "splice_step st edit = (case st of (buffer, remaining, consumed) \<Rightarrow>
     bindR (ok_or (checked_sub (start_byte edit) consumed) Panic) (\<lambda>skip.
     bindR (split_at remaining skip) (\<lambda>(unchanged, tail).
     bindR (ok_or (checked_sub (end_byte edit) (start_byte edit)) Panic) (\<lambda>removed.
     bindR (split_at tail removed) (\<lambda>(_, tail).
     Inr (buffer @ unchanged @ pending_new_text edit, tail, end_byte edit))))))"

definition apply_exact_edits ::
  "string \<Rightarrow> string \<Rightarrow> exact_text_edit list \<Rightarrow> (edit_failure, string) result" where
  "apply_exact_edits path contents edits =
     (if edits = [] then Inr contents
      else
        let lns = index_lines contents in
        bindR (validate_all path contents lns 0 edits) (\<lambda>pending.
        let pending = sort_key (\<lambda>e. (pending_start_line e, pending_end_line e)) pending in
        bindR (check_overlaps path pending) (\<lambda>_.
        bindR (foldR output_len_step (length contents) pending) (\<lambda>output_len.
        bindR (ensure (output_len \<le> isize_max) Panic) (\<lambda>_.
        bindR (foldR splice_step ([], contents, 0) pending) (\<lambda>(buffer, remaining, _).
        Inr (buffer @ remaining)))))))"

section \<open>The reference\<close>

text \<open>The lines of a text, each with its terminator; the empty text has one empty line.\<close>

fun lines_of :: "string \<Rightarrow> string list" where
  "lines_of [] = []"
| "lines_of (c # s) =
     (if c = newline then [c] # lines_of s
      else case lines_of s of [] \<Rightarrow> [[c]] | l # ls \<Rightarrow> (c # l) # ls)"

definition text_lines :: "string \<Rightarrow> string list" where
  "text_lines s = (if s = [] then [[]] else lines_of s)"

text \<open>An edit fits a text: its range names lines of it and they hold the expected text.\<close>

definition edit_fits :: "string list \<Rightarrow> exact_text_edit \<Rightarrow> bool" where
  "edit_fits ls e =
     (1 \<le> edit_start_line e \<and> edit_start_line e \<le> edit_end_line e \<and> edit_end_line e \<le> length ls
      \<and> concat (take (Suc (edit_end_line e) - edit_start_line e) (drop (edit_start_line e - 1) ls))
        = old_text e)"

definition disjoint_edits :: "exact_text_edit \<Rightarrow> exact_text_edit \<Rightarrow> bool" where
  "disjoint_edits a b = (edit_end_line a < edit_start_line b \<or> edit_end_line b < edit_start_line a)"

text \<open>What the new text has in place of line \<open>n\<close> (counted from 1): the new text of the edit that
  starts there, nothing inside an edit, and the old line everywhere else.\<close>

definition replaced_line :: "string list \<Rightarrow> exact_text_edit list \<Rightarrow> nat \<Rightarrow> string" where
  "replaced_line ls es n =
     (case find (\<lambda>e. edit_start_line e = n) es of
        Some e \<Rightarrow> new_text e
      | None \<Rightarrow> if \<exists>e \<in> set es. edit_start_line e < n \<and> n \<le> edit_end_line e then [] else ls ! (n - 1))"

definition replaced_lines :: "string list \<Rightarrow> exact_text_edit list \<Rightarrow> string" where
  "replaced_lines ls es = concat (map (replaced_line ls es) [1..<Suc (length ls)])"

section \<open>Lines and their offsets\<close>

fun spans :: "nat \<Rightarrow> string list \<Rightarrow> line_span list" where
  "spans a [] = []"
| "spans a (l # ls) = \<lparr>content_start = a, content_end = a + length l\<rparr> # spans (a + length l) ls"

definition offset :: "string list \<Rightarrow> nat \<Rightarrow> nat" where
  "offset ls k = length (concat (take k ls))"

lemma length_spans [simp]: "length (spans a ls) = length ls"
  by (induction ls arbitrary: a) auto

lemma nth_spans:
  "i < length ls \<Longrightarrow> spans a ls ! i = \<lparr>content_start = a + offset ls i, content_end = a + offset ls (Suc i)\<rparr>"
  by (induction ls arbitrary: a i) (auto simp: nth_Cons offset_def split: nat.splits)

lemma lines_of_newline_free: "newline \<notin> set p \<Longrightarrow> lines_of p = (if p = [] then [] else [p])"
  by (induction p) auto

lemma lines_of_prefix: "newline \<notin> set p \<Longrightarrow> lines_of (p @ newline # s) = (p @ [newline]) # lines_of s"
  by (induction p) auto

lemma concat_lines_of [simp]: "concat (lines_of s) = s"
proof (induction s)
  case (Cons c s)
  then show ?case by (cases "lines_of s") auto
qed simp

lemma concat_text_lines [simp]: "concat (text_lines s) = s"
  by (simp add: text_lines_def)

lemma text_lines_nonempty [simp]: "text_lines s \<noteq> []"
  by (cases s) (auto simp: text_lines_def split: list.splits)

text \<open>Every line but the last ends in a newline.\<close>

lemma lines_of_ends:
  "Suc k < length (lines_of s) \<Longrightarrow> \<exists>l. lines_of s ! k = l @ [newline]"
proof (induction s arbitrary: k)
  case (Cons c s)
  show ?case
  proof (cases "c = newline")
    case True
    then show ?thesis using Cons by (cases k) auto
  next
    case False
    obtain l ls where ls: "lines_of s = l # ls"
      using Cons.prems False by (cases "lines_of s") auto
    then show ?thesis
      using Cons.IH[of k] Cons.prems False by (cases k) auto
  qed
qed simp

lemma index_loop_spans:
  assumes "newline \<notin> set p" "start + length p = idx" "idx + length bs = n" "n \<le> usize_max"
  shows "(let (ls, st) = index_loop acc start idx bs
          in if st < n then ls @ [\<lparr>content_start = st, content_end = n\<rparr>] else ls)
    = acc @ spans start (lines_of (p @ bs))"
  using assms
proof (induction bs arbitrary: acc start idx p)
  case Nil
  then show ?case by (cases "p = []") (auto simp: lines_of_newline_free)
next
  case (Cons b bs)
  show ?case
  proof (cases "b = newline")
    case True
    have "lines_of (p @ b # bs) = (p @ [newline]) # lines_of bs"
      using Cons.prems(1) True by (simp add: lines_of_prefix)
    moreover have "sat_add idx 1 = Suc idx"
      using Cons.prems(3,4) by (simp add: sat_add_def)
    ultimately show ?thesis
      using Cons.IH[of "[]" "Suc idx" "Suc idx"] Cons.prems(2,3,4) True by simp
  next
    case False
    then show ?thesis
      using Cons.IH[of "p @ [b]" start "Suc idx" acc] Cons.prems by simp
  qed
qed

lemma index_lines_spans:
  assumes "length s \<le> usize_max"
  shows "index_lines s = spans 0 (text_lines s)"
proof -
  have "(let (ls, st) = index_loop [] 0 0 s
         in if st < length s
            then ls @ [\<lparr>content_start = st, content_end = length s\<rparr>] else ls)
      = spans 0 (lines_of s)"
    using index_loop_spans[of "[]" 0 0 s "length s" "[]"] assms by simp
  then show ?thesis by (simp add: index_lines_def text_lines_def)
qed

lemma offset_mono: "a \<le> b \<Longrightarrow> offset ls a \<le> offset ls b"
proof -
  assume "a \<le> b"
  then have "take b ls = take a ls @ take (b - a) (drop a ls)"
    by (metis le_add_diff_inverse take_add)
  then show ?thesis by (simp add: offset_def)
qed

lemma offset_all: "length ls \<le> k \<Longrightarrow> offset ls k = length (concat ls)"
  by (simp add: offset_def)

lemma offset_0 [simp]: "offset ls 0 = 0"
  by (simp add: offset_def)

text \<open>The bytes between two line offsets are the lines between.\<close>

lemma drop_offset: "drop (offset ls a) (concat ls) = concat (drop a ls)"
proof -
  have "concat ls = concat (take a ls) @ concat (drop a ls)"
    by (metis append_take_drop_id concat_append)
  then show ?thesis by (simp add: offset_def)
qed

lemma take_offset: "take (offset ls a) (concat ls) = concat (take a ls)"
proof -
  have "concat ls = concat (take a ls) @ concat (drop a ls)"
    by (metis append_take_drop_id concat_append)
  then show ?thesis by (simp add: offset_def)
qed

lemma slice_offset:
  assumes "a \<le> b"
  shows "take (offset ls b - offset ls a) (drop (offset ls a) (concat ls)) = concat (take (b - a) (drop a ls))"
proof -
  have "take b ls = take a ls @ take (b - a) (drop a ls)"
    using assms by (metis le_add_diff_inverse take_add)
  then have "offset ls b = offset ls a + offset (drop a ls) (b - a)"
    by (simp add: offset_def)
  then show ?thesis by (simp add: drop_offset take_offset)
qed

lemma length_slice:
  assumes "a \<le> b"
  shows "length (concat (take (b - a) (drop a ls))) = offset ls b - offset ls a"
proof -
  have "take b ls = take a ls @ take (b - a) (drop a ls)"
    using assms by (metis le_add_diff_inverse take_add)
  then show ?thesis by (simp add: offset_def)
qed

lemma length_drop_split:
  assumes "a \<le> b"
  shows "length (concat (drop a ls)) = length (concat (take (b - a) (drop a ls))) + length (concat (drop b ls))"
proof -
  have "drop a ls = take (b - a) (drop a ls) @ drop b ls"
    using assms append_take_drop_id[of "b - a" "drop a ls"] by (simp add: drop_drop)
  then show ?thesis by (metis concat_append length_append)
qed

lemma boundary_offset:
  assumes "utf8_valid s"
  shows "is_char_boundary s (offset (text_lines s) k)"
proof (cases "k = 0 \<or> length (text_lines s) \<le> k \<or> s = []")
  case True
  then show ?thesis
  proof (elim disjE)
    assume "s = []"
    then show ?thesis by (cases k) (simp_all add: is_char_boundary_def text_lines_def offset_def)
  qed (simp_all add: is_char_boundary_def offset_all)
next
  case False
  let ?L = "lines_of s"
  have L: "text_lines s = ?L" using False by (simp add: text_lines_def)
  obtain j where j: "k = Suc j" using False by (cases k) auto
  then obtain l where l: "?L ! j = l @ [newline]"
    using lines_of_ends[of j s] False L by auto
  have "take k ?L = take j ?L @ [l @ [newline]]"
    using l j False L by (simp add: take_Suc_conv_app_nth)
  then have pre: "concat (take k ?L) = concat (take j ?L) @ l @ [newline]" by simp
  then obtain i where i: "offset ?L k = Suc i" "concat (take k ?L) ! i = newline" "i < length (concat (take k ?L))"
    by (auto simp: offset_def nth_append)
  have "take (offset ?L k) s = concat (take k ?L)"
    using take_offset[of ?L k] by simp
  then have "s ! i = newline" "i < length s"
    using i by (metis lessI nth_take, metis length_take min_less_iff_conj)
  then show ?thesis
    using boundary_after_ascii[OF assms, of i] i(1) L by (simp add: byte_def)
qed

section \<open>Validation\<close>

definition pending_of :: "string list \<Rightarrow> exact_text_edit \<Rightarrow> pending_edit" where
  "pending_of ls e =
     \<lparr>pending_start_line = edit_start_line e, pending_end_line = edit_end_line e,
      start_byte = offset ls (edit_start_line e - 1), end_byte = offset ls (edit_end_line e),
      pending_new_text = new_text e\<rparr>"

lemma pending_of_sel [simp]:
  "pending_start_line (pending_of ls e) = edit_start_line e"
  "pending_end_line (pending_of ls e) = edit_end_line e"
  "start_byte (pending_of ls e) = offset ls (edit_start_line e - 1)"
  "end_byte (pending_of ls e) = offset ls (edit_end_line e)"
  "pending_new_text (pending_of ls e) = new_text e"
  by (simp_all add: pending_of_def)

definition text_ok :: "string \<Rightarrow> bool" where
  "text_ok c = (utf8_valid c \<and> length c \<le> usize_max)"

lemma slice_get_line:
  assumes "text_ok c" "k < length (text_lines c)"
  shows "slice_get (index_lines c) k =
    Some \<lparr>content_start = offset (text_lines c) k, content_end = offset (text_lines c) (Suc k)\<rparr>"
  using assms by (simp add: text_ok_def slice_get_def index_lines_spans nth_spans)

lemma str_get_lines:
  assumes "text_ok c" "a \<le> b"
  shows "str_get c (offset (text_lines c) a) (offset (text_lines c) b)
    = Some (concat (take (b - a) (drop a (text_lines c))))"
  using assms slice_offset[of a b "text_lines c"] offset_mono[of a b "text_lines c"]
  by (simp add: str_get_def boundary_offset text_ok_def)

lemma validate_edit_cases:
  assumes c: "text_ok c"
  shows "validate_edit path c (index_lines c) i e =
     (let n = sat_add i 1; a = edit_start_line e; b = edit_end_line e; ls = text_lines c;
          actual = concat (take (Suc b - a) (drop (a - 1) ls))
      in if \<not> (1 \<le> a \<and> a \<le> b \<and> b \<le> length ls) then Inl (Fs (InvalidLineRange path n a b))
         else if actual \<noteq> old_text e then Inl (Fs (OldTextMismatch path n (old_text e) actual))
         else Inr (pending_of ls e))"
proof -
  let ?ls = "text_lines c" and ?a = "edit_start_line e" and ?b = "edit_end_line e"
  have len: "length (index_lines c) = length ?ls"
    using c by (simp add: index_lines_spans text_ok_def)
  show ?thesis
  proof (cases "1 \<le> ?a \<and> ?a \<le> ?b \<and> ?b \<le> length ?ls")
    case True
    then have g: "slice_get (index_lines c) (?a - 1) = Some \<lparr>content_start = offset ?ls (?a - 1), content_end = offset ?ls ?a\<rparr>"
        "slice_get (index_lines c) (?b - 1) = Some \<lparr>content_start = offset ?ls (?b - 1), content_end = offset ?ls ?b\<rparr>"
      using slice_get_line[OF c, of "?a - 1"] slice_get_line[OF c, of "?b - 1"] by auto
    have "str_get c (offset ?ls (?a - 1)) (offset ?ls ?b) = Some (concat (take (?b - (?a - 1)) (drop (?a - 1) ?ls)))"
      using True by (intro str_get_lines[OF c]) auto
    moreover have "?b - (?a - 1) = Suc ?b - ?a" using True by auto
    ultimately show ?thesis
      using True g len by (simp add: validate_edit_def pending_of_def ensure_def Let_def del: One_nat_def)
  next
    case False
    then have "?a = 0 \<or> ?b < ?a \<or> length (index_lines c) < ?b" using len by auto
    with False show ?thesis
      by (auto simp: validate_edit_def Let_def ensure_def)
  qed
qed

lemma validate_edit_ok:
  assumes c: "text_ok c"
  shows "validate_edit path c (index_lines c) i e = Inr p
     \<longleftrightarrow> edit_fits (text_lines c) e \<and> p = pending_of (text_lines c) e"
  unfolding validate_edit_cases[OF c] Let_def edit_fits_def by auto

text \<open>What is wrong with an edit that does not fit: its range, or else the text of its lines.\<close>

definition lines_of_edit :: "string list \<Rightarrow> exact_text_edit \<Rightarrow> string" where
  "lines_of_edit ls e = concat (take (Suc (edit_end_line e) - edit_start_line e) (drop (edit_start_line e - 1) ls))"

definition names_lines :: "string list \<Rightarrow> exact_text_edit \<Rightarrow> bool" where
  "names_lines ls e =
     (1 \<le> edit_start_line e \<and> edit_start_line e \<le> edit_end_line e \<and> edit_end_line e \<le> length ls)"

lemma edit_fits_iff: "edit_fits ls e \<longleftrightarrow> names_lines ls e \<and> lines_of_edit ls e = old_text e"
  by (simp add: edit_fits_def names_lines_def lines_of_edit_def)

lemma validate_edit_error:
  assumes c: "text_ok c"
  shows "validate_edit path c (index_lines c) i e = Inl f \<Longrightarrow>
     \<not> edit_fits (text_lines c) e
     \<and> f = Fs (if names_lines (text_lines c) e
               then OldTextMismatch path (sat_add i 1) (old_text e) (lines_of_edit (text_lines c) e)
               else InvalidLineRange path (sat_add i 1) (edit_start_line e) (edit_end_line e))"
  unfolding validate_edit_cases[OF c] Let_def edit_fits_iff by (auto simp: names_lines_def lines_of_edit_def split: if_splits)

lemma validate_all_ok:
  assumes c: "text_ok c"
  shows "validate_all path c (index_lines c) i es = Inr ps
     \<longleftrightarrow> list_all (edit_fits (text_lines c)) es \<and> ps = map (pending_of (text_lines c)) es"
  by (induction es arbitrary: i ps) (auto simp: result_simps validate_edit_ok[OF c])

text \<open>Validation reports the first edit that does not fit.\<close>

lemma validate_all_error:
  assumes c: "text_ok c" and "validate_all path c (index_lines c) i es = Inl f"
  shows "\<exists>k < length es. (\<forall>j < k. edit_fits (text_lines c) (es ! j))
     \<and> validate_edit path c (index_lines c) (i + k) (es ! k) = Inl f"
  using assms(2)
proof (induction es arbitrary: i)
  case (Cons e es)
  show ?case
  proof (cases "validate_edit path c (index_lines c) i e")
    case (Inl g)
    then show ?thesis using Cons.prems by (intro exI[of _ 0]) simp
  next
    case (Inr p)
    then have fit: "edit_fits (text_lines c) e" by (simp add: validate_edit_ok[OF c])
    have "validate_all path c (index_lines c) (Suc i) es = Inl f"
      using Cons.prems Inr by (auto simp: result_simps)
    from Cons.IH[OF this] obtain k where "k < length es" "\<forall>j < k. edit_fits (text_lines c) (es ! j)"
      "validate_edit path c (index_lines c) (Suc i + k) (es ! k) = Inl f" by blast
    then show ?thesis
      using fit by (intro exI[of _ "Suc k"]) (auto simp: nth_Cons split: nat.splits)
  qed
qed simp

section \<open>Sorting and overlap\<close>

abbreviation edit_key :: "exact_text_edit \<Rightarrow> nat \<times> nat" where
  "edit_key e \<equiv> (edit_start_line e, edit_end_line e)"

definition edit_before :: "exact_text_edit \<Rightarrow> exact_text_edit \<Rightarrow> bool" where
  "edit_before a b = (edit_end_line a < edit_start_line b)"

lemma insort_key_map: "insort_key f (g x) (map g xs) = map g (insort_key (\<lambda>y. f (g y)) x xs)"
  by (induction xs) auto

lemma sort_key_map: "sort_key f (map g xs) = map g (sort_key (\<lambda>y. f (g y)) xs)"
  by (induction xs) (simp_all add: insort_key_map)

lemma check_overlaps_ok:
  assumes "\<forall>e \<in> set es. edit_start_line e \<le> edit_end_line e"
  shows "check_overlaps path (map (pending_of ls) es) = Inr () \<longleftrightarrow> sorted_wrt edit_before es"
  using assms
proof (induction es rule: induct_list012)
  case (3 x y zs)
  have "sorted_wrt edit_before (x # y # zs) \<longleftrightarrow> edit_before x y \<and> sorted_wrt edit_before (y # zs)"
    using "3.prems" by (auto simp: edit_before_def)
  moreover have "edit_before x y \<longleftrightarrow> \<not> edit_start_line y \<le> edit_end_line x"
    by (auto simp: edit_before_def)
  ultimately show ?case
    using "3.IH"(2) "3.prems" by simp
qed auto

lemma check_overlaps_error:
  "check_overlaps path (map (pending_of ls) es) = Inl f \<Longrightarrow>
     \<exists>i. Suc i < length es \<and> (\<forall>j < i. edit_before (es ! j) (es ! Suc j)) \<and> \<not> edit_before (es ! i) (es ! Suc i)
     \<and> f = Fs (OverlappingEdits path (edit_start_line (es ! i)) (edit_end_line (es ! i))
                 (edit_start_line (es ! Suc i)) (edit_end_line (es ! Suc i)))"
proof (induction es rule: induct_list012)
  case (3 x y zs)
  show ?case
  proof (cases "edit_before x y")
    case True
    then have "check_overlaps path (map (pending_of ls) (y # zs)) = Inl f"
      using "3.prems" by (simp add: edit_before_def)
    from "3.IH"(2)[OF this] obtain i where i: "Suc i < length (y # zs)"
      "\<forall>j < i. edit_before ((y # zs) ! j) ((y # zs) ! Suc j)" "\<not> edit_before ((y # zs) ! i) ((y # zs) ! Suc i)"
      "f = Fs (OverlappingEdits path (edit_start_line ((y # zs) ! i)) (edit_end_line ((y # zs) ! i))
                 (edit_start_line ((y # zs) ! Suc i)) (edit_end_line ((y # zs) ! Suc i)))" by blast
    then have "\<forall>j < Suc i. edit_before ((x # y # zs) ! j) ((x # y # zs) ! Suc j)"
      using True by (auto simp: nth_Cons less_Suc_eq_0_disj)
    then show ?thesis using i by (intro exI[of _ "Suc i"]) simp
  next
    case False
    then show ?thesis using "3.prems" by (intro exI[of _ 0]) (auto simp: edit_before_def split: if_splits)
  qed
qed auto

text \<open>After sorting, \<open>windows(2)\<close> finds an overlap exactly when two of the edits overlap.\<close>

lemma sorted_before_iff:
  assumes "\<forall>e \<in> set es. edit_start_line e \<le> edit_end_line e" "sorted (map edit_key es)"
  shows "sorted_wrt edit_before es \<longleftrightarrow> distinct es \<and> pairwise disjoint_edits (set es)"
  using assms
proof (induction es)
  case (Cons e es)
  have "(\<forall>x \<in> set es. edit_before e x) \<longleftrightarrow> e \<notin> set es \<and> (\<forall>x \<in> set es. disjoint_edits e x)"
  proof -
    have le: "edit_start_line e \<le> edit_start_line x \<and> edit_start_line x \<le> edit_end_line x"
      if "x \<in> set es" for x
      using Cons.prems that by (auto simp: less_eq_prod_def)
    have "edit_before e x \<longleftrightarrow> x \<noteq> e \<and> disjoint_edits e x" if "x \<in> set es" for x
      using le[OF that] Cons.prems(1) by (auto simp: edit_before_def disjoint_edits_def)
    then show ?thesis by blast
  qed
  moreover have "disjoint_edits x e \<longleftrightarrow> disjoint_edits e x" for x
    by (auto simp: disjoint_edits_def)
  ultimately show ?case
    using Cons by (auto simp: pairwise_insert)
qed auto

section \<open>Splicing\<close>

text \<open>What the splicing loop builds from line \<open>m\<close> on, for edits in line order.\<close>

fun spliced :: "string list \<Rightarrow> nat \<Rightarrow> exact_text_edit list \<Rightarrow> string" where
  "spliced ls m [] = concat (drop m ls)"
| "spliced ls m (e # es) =
     concat (take (edit_start_line e - 1 - m) (drop m ls)) @ new_text e @ spliced ls (edit_end_line e) es"

definition in_order :: "string list \<Rightarrow> nat \<Rightarrow> exact_text_edit list \<Rightarrow> bool" where
  "in_order ls m es =
     (sorted_wrt edit_before es
      \<and> list_all (\<lambda>e. m < edit_start_line e \<and> edit_start_line e \<le> edit_end_line e
                    \<and> edit_end_line e \<le> length ls) es)"

lemma in_order_Cons:
  "in_order ls m (e # es) \<Longrightarrow>
     m < edit_start_line e \<and> edit_start_line e \<le> edit_end_line e \<and> edit_end_line e \<le> length ls
     \<and> in_order ls (edit_end_line e) es"
  by (auto simp: in_order_def edit_before_def list_all_iff)

lemma boundary_drop:
  "is_char_boundary s (a + i) \<Longrightarrow> a + i \<le> length s \<Longrightarrow> is_char_boundary (drop a s) i"
  by (auto simp: is_char_boundary_def)

lemma split_at_offset:
  assumes "text_ok c" "a \<le> b" "b \<le> length (text_lines c)"
  shows "split_at (drop (offset (text_lines c) a) c) (offset (text_lines c) b - offset (text_lines c) a)
    = Inr (concat (take (b - a) (drop a (text_lines c))), drop (offset (text_lines c) b) c)"
proof -
  let ?ls = "text_lines c"
  have ab: "offset ?ls a \<le> offset ?ls b" using assms(2) by (rule offset_mono)
  have "offset ?ls b \<le> length c"
    using offset_mono[OF assms(3), of ?ls] by (simp add: offset_all)
  then have "is_char_boundary (drop (offset ?ls a) c) (offset ?ls b - offset ?ls a)"
    using ab boundary_offset[of c b] assms(1) by (intro boundary_drop) (auto simp: text_ok_def)
  then show ?thesis
    using ab slice_offset[OF assms(2), of ?ls] by (simp add: split_at_def)
qed

lemma splice_step_pending:
  assumes "text_ok c" "m < edit_start_line e" "edit_start_line e \<le> edit_end_line e"
    "edit_end_line e \<le> length (text_lines c)"
  shows "splice_step (buf, drop (offset (text_lines c) m) c, offset (text_lines c) m)
      (pending_of (text_lines c) e)
    = Inr (buf @ concat (take (edit_start_line e - 1 - m) (drop m (text_lines c))) @ new_text e,
           drop (offset (text_lines c) (edit_end_line e)) c, offset (text_lines c) (edit_end_line e))"
proof -
  let ?ls = "text_lines c" and ?a = "edit_start_line e - 1" and ?b = "edit_end_line e"
  have le: "m \<le> ?a" "?a \<le> ?b" "?a \<le> length ?ls" using assms by auto
  have off: "offset ?ls m \<le> offset ?ls ?a" "offset ?ls ?a \<le> offset ?ls ?b"
    using le by (auto intro: offset_mono)
  note split_at_offset[OF assms(1) le(1) le(3)] split_at_offset[OF assms(1) le(2) assms(4)]
  then show ?thesis
    using off by (simp add: splice_step_def checked_sub_def)
qed

lemma splice_loop:
  assumes "text_ok c" "in_order (text_lines c) m es"
  shows "\<exists>buf' rem k. foldR splice_step (buf, drop (offset (text_lines c) m) c, offset (text_lines c) m)
      (map (pending_of (text_lines c)) es) = Inr (buf', rem, k)
    \<and> buf' @ rem = buf @ spliced (text_lines c) m es"
  using assms(2)
proof (induction es arbitrary: m buf)
  case Nil
  then show ?case using drop_offset[of "text_lines c" m] by simp
next
  case (Cons e es)
  note e = in_order_Cons[OF Cons.prems]
  let ?buf = "buf @ concat (take (edit_start_line e - 1 - m) (drop m (text_lines c))) @ new_text e"
  obtain buf' rem k where
    "foldR splice_step (?buf, drop (offset (text_lines c) (edit_end_line e)) c, offset (text_lines c) (edit_end_line e))
      (map (pending_of (text_lines c)) es) = Inr (buf', rem, k)"
    "buf' @ rem = ?buf @ spliced (text_lines c) (edit_end_line e) es"
    using Cons.IH[of "edit_end_line e" ?buf] e by blast
  then show ?case
    using splice_step_pending[OF assms(1), of m e buf] e by simp
qed

text \<open>The capacity computed up front: it does not underflow, and it is the length of the result.\<close>

definition new_len :: "exact_text_edit list \<Rightarrow> nat" where
  "new_len es = sum_list (map (\<lambda>e. length (new_text e)) es)"

lemma output_len_loop:
  assumes "in_order ls m es" "n + new_len es \<le> usize_max"
    "length (concat (drop m ls)) \<le> n"
  shows "foldR output_len_step n (map (pending_of ls) es)
    = Inr (n - length (concat (drop m ls)) + length (spliced ls m es))"
  using assms
proof (induction es arbitrary: m n)
  case Nil
  then show ?case by simp
next
  case (Cons e es)
  note e = in_order_Cons[OF Cons.prems(1)]
  let ?a = "edit_start_line e - 1" and ?b = "edit_end_line e"
  define r where r: "r = offset ls ?b - offset ls ?a"
  have parts: "length (concat (drop m ls)) = length (concat (take (?a - m) (drop m ls)))
      + r + length (concat (drop ?b ls))"
  proof -
    have "m \<le> ?a" "?a \<le> ?b" using e by auto
    then show ?thesis
      using length_drop_split[of m ?a ls] length_drop_split[of ?a ?b ls] length_slice[of ?a ?b ls]
      by (simp add: r)
  qed
  let ?n = "n - r + length (new_text e)"
  have "offset ls ?a \<le> offset ls ?b" using e by (intro offset_mono) auto
  moreover have "r \<le> n" "?n \<le> usize_max"
    using Cons.prems(2,3) parts by (simp_all add: new_len_def)
  ultimately have "output_len_step n (pending_of ls e) = Inr ?n"
    by (simp add: output_len_step_def checked_sub_def checked_add_def del: One_nat_def flip: r)
  moreover have "foldR output_len_step ?n (map (pending_of ls) es)
      = Inr (?n - length (concat (drop ?b ls)) + length (spliced ls ?b es))"
    using Cons.IH[of ?b ?n] e Cons.prems(2,3) parts by (auto simp: new_len_def)
  ultimately show ?case
    using parts Cons.prems(3) by simp
qed

section \<open>The reference, line by line\<close>

lemma find_starts_None: "find (\<lambda>e. edit_start_line e = n) es = None \<longleftrightarrow> (\<forall>e \<in> set es. edit_start_line e \<noteq> n)"
  by (auto simp: find_None_iff)

lemma replaced_line_outside:
  assumes "\<forall>e \<in> set es. n < edit_start_line e"
  shows "replaced_line ls es n = ls ! (n - 1)"
proof -
  have "find (\<lambda>e. edit_start_line e = n) es = None" using assms by (auto simp: find_starts_None)
  then show ?thesis using assms by (auto simp: replaced_line_def)
qed

lemma replaced_line_inside:
  assumes "\<forall>x \<in> set es. edit_end_line e < edit_start_line x" "edit_start_line e < n" "n \<le> edit_end_line e"
  shows "replaced_line ls (e # es) n = []"
proof -
  have "find (\<lambda>e. edit_start_line e = n) (e # es) = None" using assms by (auto simp: find_starts_None)
  then show ?thesis using assms(2,3) by (auto simp: replaced_line_def)
qed

lemma replaced_line_beyond:
  assumes "edit_start_line e \<le> edit_end_line e" "edit_end_line e < n"
  shows "replaced_line ls (e # es) n = replaced_line ls es n"
  using assms by (auto simp: replaced_line_def split: option.splits)

lemma map_nth_slice:
  assumes "a \<le> b" "b \<le> length ls"
  shows "map (\<lambda>n. ls ! (n - 1)) [Suc a..<Suc b] = take (b - a) (drop a ls)"
  using assms by (intro nth_equalityI) (auto simp del: upt_Suc)

lemma spliced_lines:
  assumes "in_order ls m es" "m \<le> length ls"
  shows "spliced ls m es = concat (map (replaced_line ls es) [Suc m..<Suc (length ls)])"
  using assms
proof (induction es arbitrary: m)
  case Nil
  have "map (replaced_line ls []) [Suc m..<Suc (length ls)] = map (\<lambda>n. ls ! (n - 1)) [Suc m..<Suc (length ls)]"
    by (simp add: replaced_line_outside)
  also have "\<dots> = drop m ls" using map_nth_slice[of m "length ls" ls] Nil.prems(2) by simp
  finally show ?case by (simp only: spliced.simps)
next
  case (Cons e es)
  note e = in_order_Cons[OF Cons.prems(1)]
  let ?a = "edit_start_line e" and ?b = "edit_end_line e" and ?r = "replaced_line ls (e # es)"
  have after: "\<forall>x \<in> set es. ?b < edit_start_line x"
    using Cons.prems(1) by (auto simp: in_order_def edit_before_def)
  have split: "[Suc m..<Suc (length ls)] = [Suc m..<?a] @ [?a] @ [Suc ?a..<Suc ?b] @ [Suc ?b..<Suc (length ls)]"
  proof -
    have "[Suc m..<Suc (length ls)] = [Suc m..<?a] @ [?a..<Suc (length ls)]"
      using e upt_add_eq_append[of "Suc m" ?a "Suc (length ls) - ?a"] by simp
    moreover have "[?a..<Suc (length ls)] = ?a # [Suc ?a..<Suc (length ls)]"
      using e by (intro upt_conv_Cons) auto
    moreover have "[Suc ?a..<Suc (length ls)] = [Suc ?a..<Suc ?b] @ [Suc ?b..<Suc (length ls)]"
      using e upt_add_eq_append[of "Suc ?a" "Suc ?b" "length ls - ?b"] by simp
    ultimately show ?thesis by simp
  qed
  have before: "map ?r [Suc m..<?a] = take (?a - 1 - m) (drop m ls)"
  proof -
    have "\<forall>x \<in> set (e # es). ?a \<le> edit_start_line x" using e after by fastforce
    then have "map ?r [Suc m..<?a] = map (\<lambda>n. ls ! (n - 1)) [Suc m..<?a]"
      by (intro map_cong replaced_line_outside) auto
    also have "\<dots> = take (?a - 1 - m) (drop m ls)"
      using map_nth_slice[of m "?a - 1" ls] e by auto
    finally show ?thesis .
  qed
  have inside: "concat (map ?r [Suc ?a..<Suc ?b]) = []"
    using after by (auto simp: replaced_line_inside simp del: upt_Suc)
  have beyond: "map ?r [Suc ?b..<Suc (length ls)] = map (replaced_line ls es) [Suc ?b..<Suc (length ls)]"
    using e by (auto simp: replaced_line_beyond simp del: upt_Suc)
  have "?r ?a = new_text e" by (simp add: replaced_line_def)
  moreover have "spliced ls ?b es = concat (map (replaced_line ls es) [Suc ?b..<Suc (length ls)])"
    using Cons.IH[of ?b] e by blast
  ultimately have "spliced ls m (e # es) = concat (map ?r [Suc m..<?a]) @ ?r ?a
      @ concat (map ?r [Suc ?a..<Suc ?b]) @ concat (map ?r [Suc ?b..<Suc (length ls)])"
    unfolding before inside beyond by simp
  then show ?case
    unfolding split by (simp only: map_append concat_append list.map concat.simps append_Nil2)
qed

text \<open>The reference does not depend on the order of disjoint edits.\<close>

lemma replaced_line_perm:
  assumes "set xs = set ys" "distinct xs" "distinct ys" "pairwise disjoint_edits (set xs)"
    "\<forall>e \<in> set xs. edit_start_line e \<le> edit_end_line e"
  shows "replaced_line ls xs n = replaced_line ls ys n"
proof -
  have uniq: "a = b" if "a \<in> set xs" "b \<in> set xs" "edit_start_line a = edit_start_line b" for a b
  proof (rule ccontr)
    assume "a \<noteq> b"
    then have "disjoint_edits a b" using that assms(4) by (auto simp: pairwise_def)
    then show False using that assms(5) by (auto simp: disjoint_edits_def)
  qed
  have some: "find (\<lambda>e. edit_start_line e = n) zs = Some e" if "set zs = set xs" "e \<in> set xs" "edit_start_line e = n" for zs e
  proof (cases "find (\<lambda>e. edit_start_line e = n) zs")
    case None
    then show ?thesis using that by (auto simp: find_starts_None)
  next
    case (Some e')
    then have "e' \<in> set xs" "edit_start_line e' = n"
      using that(1) by (auto simp: find_Some_iff)
    then show ?thesis using Some uniq that by blast
  qed
  have "find (\<lambda>e. edit_start_line e = n) xs = find (\<lambda>e. edit_start_line e = n) ys"
  proof (cases "\<exists>e \<in> set xs. edit_start_line e = n")
    case True
    then show ?thesis using some[of xs] some[of ys] assms(1) by force
  next
    case False
    then show ?thesis using assms(1) by (metis find_starts_None)
  qed
  then show ?thesis by (simp only: replaced_line_def assms(1))
qed

lemma replaced_lines_perm:
  assumes "set xs = set ys" "distinct xs" "distinct ys" "pairwise disjoint_edits (set xs)"
    "\<forall>e \<in> set xs. edit_start_line e \<le> edit_end_line e"
  shows "replaced_lines ls xs = replaced_lines ls ys"
proof -
  have "replaced_line ls xs = replaced_line ls ys"
    by (rule ext) (rule replaced_line_perm[OF assms])
  then show ?thesis by (simp only: replaced_lines_def)
qed

lemma length_spliced_le:
  "in_order ls m es \<Longrightarrow> length (spliced ls m es) \<le> length (concat (drop m ls)) + new_len es"
proof (induction es arbitrary: m)
  case Nil
  then show ?case by (simp add: new_len_def)
next
  case (Cons e es)
  note e = in_order_Cons[OF Cons.prems]
  have "m \<le> edit_start_line e - 1" "edit_start_line e - 1 \<le> edit_end_line e" using e by auto
  then show ?case
    using Cons.IH[of "edit_end_line e"] e length_drop_split[of m "edit_start_line e - 1" ls]
      length_drop_split[of "edit_start_line e - 1" "edit_end_line e" ls]
    by (simp add: new_len_def)
qed

section \<open>The whole operation\<close>

abbreviation line_sorted :: "exact_text_edit list \<Rightarrow> exact_text_edit list" where
  "line_sorted es \<equiv> sort_key edit_key es"

lemma apply_valid_edits:
  assumes c: "text_ok c" and len: "length c + new_len es \<le> isize_max"
    and fits: "list_all (edit_fits (text_lines c)) es"
  shows "apply_exact_edits path c es =
    (if distinct es \<and> pairwise disjoint_edits (set es) then Inr (replaced_lines (text_lines c) es)
     else bindR (check_overlaps path (map (pending_of (text_lines c)) (line_sorted es))) (\<lambda>_. Inl Panic))"
proof (cases "es = []")
  case True
  have "spliced (text_lines c) 0 [] = replaced_lines (text_lines c) []"
    unfolding replaced_lines_def One_nat_def by (rule spliced_lines) (simp_all add: in_order_def)
  then show ?thesis using True by (simp add: apply_exact_edits_def)
next
  case False
  let ?ls = "text_lines c" and ?s = "line_sorted es"
  have ok: "validate_all path c (index_lines c) 0 es = Inr (map (pending_of ?ls) es)"
    using fits by (simp add: validate_all_ok[OF c])
  have sorted: "sort_key (\<lambda>e. (pending_start_line e, pending_end_line e)) (map (pending_of ?ls) es)
      = map (pending_of ?ls) ?s"
    by (simp add: sort_key_map)
  have rng: "\<forall>e \<in> set ?s. edit_start_line e \<le> edit_end_line e"
    using fits by (auto simp: list_all_iff edit_fits_def)
  have ov: "check_overlaps path (map (pending_of ?ls) ?s) = Inr () \<longleftrightarrow> distinct es \<and> pairwise disjoint_edits (set es)"
    using check_overlaps_ok[OF rng] sorted_before_iff[OF rng] by simp
  show ?thesis
  proof (cases "distinct es \<and> pairwise disjoint_edits (set es)")
    case True
    have ord: "in_order ?ls 0 ?s"
      using True ov check_overlaps_ok[OF rng] fits by (auto simp: in_order_def list_all_iff edit_fits_def)
    have nl: "new_len ?s = new_len es"
    proof -
      have "mset (map (\<lambda>e. length (new_text e)) ?s) = mset (map (\<lambda>e. length (new_text e)) es)"
        by simp
      then show ?thesis unfolding new_len_def by (metis sum_mset_sum_list)
    qed
    have "foldR output_len_step (length c) (map (pending_of ?ls) ?s) = Inr (length (spliced ?ls 0 ?s))"
      using output_len_loop[OF ord, of "length c"] len nl by (simp add: isize_max_def usize_max_def)
    moreover have "length (spliced ?ls 0 ?s) \<le> isize_max"
      using length_spliced_le[OF ord] len nl by simp
    moreover obtain buf' rem k where
      "foldR splice_step ([], c, 0) (map (pending_of ?ls) ?s) = Inr (buf', rem, k)"
      "buf' @ rem = spliced ?ls 0 ?s"
      using splice_loop[OF c ord, of "[]"] by auto
    moreover have "spliced ?ls 0 ?s = replaced_lines ?ls es"
    proof -
      have "spliced ?ls 0 ?s = replaced_lines ?ls ?s"
        unfolding replaced_lines_def One_nat_def by (rule spliced_lines[OF ord]) simp
      also have "\<dots> = replaced_lines ?ls es"
        using True rng by (intro replaced_lines_perm) auto
      finally show ?thesis .
    qed
    moreover have "check_overlaps path (map (pending_of ?ls) ?s) = Inr ()" using True ov by simp
    ultimately show ?thesis
      using False True ok sorted by (simp add: apply_exact_edits_def Let_def)
  next
    case nodisj: False
    then obtain f where "check_overlaps path (map (pending_of ?ls) ?s) = Inl f"
      using ov by (cases "check_overlaps path (map (pending_of ?ls) ?s)") auto
    then show ?thesis
      using nodisj False ok sorted by (simp add: apply_exact_edits_def Let_def)
  qed
qed

lemma apply_unfit_edits:
  assumes c: "text_ok c" and unfit: "\<not> list_all (edit_fits (text_lines c)) es"
  shows "\<exists>f. apply_exact_edits path c es = Inl f \<and> validate_all path c (index_lines c) 0 es = Inl f"
proof -
  have "es \<noteq> []" using unfit by auto
  moreover obtain f where "validate_all path c (index_lines c) 0 es = Inl f"
    using unfit validate_all_ok[OF c, of path 0 es] by (cases "validate_all path c (index_lines c) 0 es") auto
  ultimately show ?thesis by (simp add: apply_exact_edits_def)
qed

lemma apply_exact_edits_ok:
  assumes "text_ok c" "length c + new_len es \<le> isize_max"
  shows "apply_exact_edits path c es = Inr out \<longleftrightarrow>
    list_all (edit_fits (text_lines c)) es \<and> distinct es \<and> pairwise disjoint_edits (set es)
    \<and> out = replaced_lines (text_lines c) es"
proof (cases "list_all (edit_fits (text_lines c)) es")
  case True
  then show ?thesis using apply_valid_edits[OF assms] by (auto simp: result_simps)
next
  case False
  then show ?thesis using apply_unfit_edits[OF assms(1), of es path] by auto
qed

section \<open>Properties\<close>

text \<open>C22. Applying exact edits to UTF-8 text succeeds exactly when every edit names lines of the
  original text that hold the text it expects and no two edits share a line; the result is the
  original with each edited range replaced by its new text and every other line untouched, byte
  for byte.\<close>

theorem apply_exact_edits_correct:
  assumes "utf8_valid c" "length c + new_len es \<le> isize_max"
  shows "apply_exact_edits path c es = Inr out \<longleftrightarrow>
    list_all (edit_fits (text_lines c)) es \<and> distinct es \<and> pairwise disjoint_edits (set es)
    \<and> out = replaced_lines (text_lines c) es"
proof (rule apply_exact_edits_ok[OF _ assms(2)])
  show "text_ok c" using assms by (simp add: text_ok_def isize_max_def usize_max_def)
qed

definition sample_text :: string where
  "sample_text = ''a'' @ [newline] @ ''b'' @ [newline]"

definition sample_edit :: exact_text_edit where
  "sample_edit = \<lparr>edit_start_line = 2, edit_end_line = 2, old_text = ''b'' @ [newline], new_text = ''z''\<rparr>"

lemma sample_text_ok: "utf8_valid sample_text" "length sample_text + new_len [sample_edit] \<le> isize_max"
  by (simp_all add: sample_text_def sample_edit_def utf8_valid.simps scalar_len_def byte_def
      new_len_def isize_max_def)

lemma sample_edit_fits: "text_lines sample_text = [''a'' @ [newline], ''b'' @ [newline]]"
    "edit_fits (text_lines sample_text) sample_edit"
  by (simp_all add: text_lines_def edit_fits_def sample_text_def sample_edit_def)

theorem apply_exact_edits_correct_witness:
  "apply_exact_edits ''f'' sample_text [sample_edit] = Inr (''a'' @ [newline] @ ''z'')"
proof -
  have "replaced_lines (text_lines sample_text) [sample_edit] = ''a'' @ [newline] @ ''z''"
    unfolding sample_edit_fits(1)
    by (simp add: replaced_lines_def replaced_line_def sample_edit_def upt_rec numeral_2_eq_2)
  then show ?thesis
    using sample_edit_fits(2)
      apply_exact_edits_correct[OF sample_text_ok, of "''f''" "''a'' @ [newline] @ ''z''"]
    by simp
qed

text \<open>C30. When it refuses, it never panics (no byte arithmetic underflows, no slice is out of range
  or off a character boundary) and the error tells the truth. Either an edit does not fit the text:
  then it reports the first that does not, by number, with its line range when that does not name
  lines of the text, and otherwise with the text its lines hold instead. Or all edits fit: then it
  reports, of the edits in line order, the first that starts before the one in front of it ends,
  together with that one. \<open>InvalidTextBoundary\<close> never occurs.\<close>

theorem apply_exact_edits_errors:
  assumes "utf8_valid c" "length c + new_len es \<le> isize_max"
    and "apply_exact_edits path c es = Inl f"
  shows "(\<exists>k < length es. (\<forall>j < k. edit_fits (text_lines c) (es ! j))
        \<and> \<not> edit_fits (text_lines c) (es ! k)
        \<and> f = Fs (if names_lines (text_lines c) (es ! k)
                  then OldTextMismatch path (sat_add k 1) (old_text (es ! k)) (lines_of_edit (text_lines c) (es ! k))
                  else InvalidLineRange path (sat_add k 1) (edit_start_line (es ! k)) (edit_end_line (es ! k))))
    \<or> list_all (edit_fits (text_lines c)) es
      \<and> (\<exists>i. let s = line_sorted es; a = s ! i; b = s ! Suc i in
           Suc i < length es \<and> (\<forall>j < i. edit_before (s ! j) (s ! Suc j))
           \<and> edit_start_line a \<le> edit_start_line b \<and> edit_start_line b \<le> edit_end_line a
           \<and> f = Fs (OverlappingEdits path (edit_start_line a) (edit_end_line a)
                        (edit_start_line b) (edit_end_line b)))"
proof -
  have c: "text_ok c" using assms by (simp add: text_ok_def isize_max_def usize_max_def)
  show ?thesis
  proof (cases "list_all (edit_fits (text_lines c)) es")
    case True
    have "check_overlaps path (map (pending_of (text_lines c)) (line_sorted es)) = Inl f"
    proof -
      have nodisj: "\<not> (distinct es \<and> pairwise disjoint_edits (set es))"
        using assms(3) apply_valid_edits[OF c assms(2) True, of path] by auto
      have "\<forall>e \<in> set (line_sorted es). edit_start_line e \<le> edit_end_line e"
        using True by (auto simp: list_all_iff edit_fits_def)
      from check_overlaps_ok[OF this] sorted_before_iff[OF this]
      have "check_overlaps path (map (pending_of (text_lines c)) (line_sorted es)) \<noteq> Inr ()"
        using nodisj by simp
      then show ?thesis
        using assms(3) nodisj unfolding apply_valid_edits[OF c assms(2) True]
        by (auto simp: result_simps)
    qed
    from check_overlaps_error[OF this] obtain i where i: "Suc i < length (line_sorted es)"
      "\<forall>j < i. edit_before (line_sorted es ! j) (line_sorted es ! Suc j)"
      "\<not> edit_before (line_sorted es ! i) (line_sorted es ! Suc i)"
      "f = Fs (OverlappingEdits path (edit_start_line (line_sorted es ! i)) (edit_end_line (line_sorted es ! i))
                 (edit_start_line (line_sorted es ! Suc i)) (edit_end_line (line_sorted es ! Suc i)))" by blast
    have "sorted (map edit_key (line_sorted es))" by simp
    from sorted_nth_mono[OF this, of i "Suc i"] i(1)
    have "edit_start_line (line_sorted es ! i) \<le> edit_start_line (line_sorted es ! Suc i)"
      by (auto simp: less_eq_prod_def)
    then show ?thesis using True i by (auto simp: Let_def edit_before_def not_less)
  next
    case False
    then have "validate_all path c (index_lines c) 0 es = Inl f"
      using apply_unfit_edits[OF c False, of path] assms(3) by auto
    then obtain k where k: "k < length es" "\<forall>j < k. edit_fits (text_lines c) (es ! j)"
      "validate_edit path c (index_lines c) k (es ! k) = Inl f"
      using validate_all_error[OF c, of path 0 es f] by auto
    from validate_edit_error[OF c k(3)] k(1,2) show ?thesis by (intro disjI1 exI[of _ k]) blast
  qed
qed

theorem apply_exact_edits_errors_witness:
  "apply_exact_edits ''f'' sample_text [sample_edit, sample_edit]
    = Inl (Fs (OverlappingEdits ''f'' 2 2 2 2))"
proof -
  have len: "length sample_text + new_len [sample_edit, sample_edit] \<le> isize_max"
    by (simp add: sample_text_def sample_edit_def new_len_def isize_max_def)
  have fits: "edit_fits (text_lines sample_text) sample_edit" by (rule sample_edit_fits)
  obtain f where f: "apply_exact_edits ''f'' sample_text [sample_edit, sample_edit] = Inl f"
    using apply_exact_edits_ok[OF _ len, of "''f''"] sample_text_ok
    by (cases "apply_exact_edits ''f'' sample_text [sample_edit, sample_edit]")
      (auto simp: text_ok_def isize_max_def usize_max_def)
  have all: "edit_fits (text_lines sample_text) ([sample_edit, sample_edit] ! k)" if "k < 2" for k
    using that fits by (cases k) auto
  have "f = Fs (OverlappingEdits ''f'' 2 2 2 2)"
    using apply_exact_edits_errors[OF sample_text_ok(1) len f] all
    by (auto simp: numeral_2_eq_2) (auto simp: sample_edit_def numeral_2_eq_2 Let_def)
  then show ?thesis using f by simp
qed

text \<open>The order in which edits are given does not matter: a permutation of an accepted list of
  edits is accepted and produces the same text, because every range refers to the original.\<close>

theorem apply_exact_edits_order_independent:
  assumes "utf8_valid c" "length c + new_len es \<le> isize_max"
    and "mset es' = mset es" and "apply_exact_edits path c es = Inr out"
  shows "apply_exact_edits path c es' = Inr out"
proof -
  have c: "text_ok c" using assms by (simp add: text_ok_def isize_max_def usize_max_def)
  have "mset (map (\<lambda>e. length (new_text e)) es') = mset (map (\<lambda>e. length (new_text e)) es)"
    using assms(3) by simp
  then have len: "length c + new_len es' \<le> isize_max"
    using assms(2) unfolding new_len_def by (metis sum_mset_sum_list)
  have st: "set es' = set es" "distinct es' = distinct es"
    using assms(3) by (metis mset_eq_setD, metis mset_eq_imp_distinct_iff)
  note ok = assms(4)[unfolded apply_exact_edits_ok[OF c assms(2)]]
  have "replaced_lines (text_lines c) es' = replaced_lines (text_lines c) es"
    using st ok by (intro replaced_lines_perm) (auto simp: list_all_iff edit_fits_def)
  then show ?thesis
    using ok st unfolding apply_exact_edits_ok[OF c len] by (simp add: list_all_iff)
qed

definition sample_edit_first :: exact_text_edit where
  "sample_edit_first = \<lparr>edit_start_line = 1, edit_end_line = 1, old_text = ''a'' @ [newline], new_text = []\<rparr>"

theorem apply_exact_edits_order_independent_witness:
  "apply_exact_edits ''f'' sample_text [sample_edit, sample_edit_first] = Inr ''z''
    \<and> apply_exact_edits ''f'' sample_text [sample_edit_first, sample_edit] = Inr ''z''"
proof -
  let ?es = "[sample_edit, sample_edit_first]"
  have len: "length sample_text + new_len ?es \<le> isize_max"
    by (simp add: sample_text_def sample_edit_def sample_edit_first_def new_len_def isize_max_def)
  have ok: "text_ok sample_text"
    using sample_text_ok by (simp add: text_ok_def isize_max_def usize_max_def)
  have "edit_fits (text_lines sample_text) sample_edit_first"
    unfolding sample_edit_fits(1) by (simp add: edit_fits_def sample_edit_first_def)
  moreover have "replaced_lines (text_lines sample_text) ?es = ''z''"
    unfolding sample_edit_fits(1)
    by (simp add: replaced_lines_def replaced_line_def sample_edit_def sample_edit_first_def
        upt_rec numeral_2_eq_2)
  ultimately have fwd: "apply_exact_edits ''f'' sample_text ?es = Inr ''z''"
    using sample_edit_fits(2) unfolding apply_exact_edits_ok[OF ok len]
    by (simp add: pairwise_insert disjoint_edits_def sample_edit_def sample_edit_first_def)
  have "mset [sample_edit_first, sample_edit] = mset ?es" by simp
  from apply_exact_edits_order_independent[OF sample_text_ok(1) len this fwd] fwd
  show ?thesis by simp
qed

end
