(* ===== verification/Cost.thy ===== *)
theory Cost
  imports Rust_Str
begin

text \<open>
  What a request costs (crates/kraai-types, cost.rs and the token usage of lib.rs): rates per
  million tokens in nano-dollars, the estimate of one request at 128 bits with every overflow
  checked, and the running summary of a session, whose sums are checked and whose counters
  saturate. Amounts are \<open>u64\<close> nano-dollars. \<open>Usd::from_dollars\<close>, which rounds a float, is not
  modelled.
\<close>

section \<open>Data\<close>

type_synonym usd = nat

definition u128_max :: nat where
  "u128_max = 340282366920938463463374607431768211455"

record token_rates =
  rate_input :: usd
  rate_output :: usd
  rate_cache_read :: "usd option"
  rate_cache_write :: "usd option"
  rate_reasoning :: "usd option"

record request_cost =
  cost_amount :: usd
  cost_source :: string
  cost_rates :: "token_rates option"
  priced_at :: nat
  cost_upstream :: "usd option"

record token_usage =
  total_tokens :: nat
  input_tokens :: nat
  output_tokens :: nat
  reasoning_tokens :: nat
  cache_read_tokens :: nat
  cache_write_tokens :: nat
  usage_cost :: "request_cost option"

record request_usage =
  usage_message_id :: string
  usage_provider_id :: string
  usage_model_id :: string
  started_at :: nat
  subscription :: bool
  unpriced_attempts :: nat
  request_tokens :: "token_usage option"

record cost_summary =
  sum_amount :: usd
  sum_upstream :: usd
  estimated :: bool
  unknown :: nat
  subscriptions :: nat
  reported :: nat
  overflow :: bool

definition cost_summary_default :: cost_summary where
  "cost_summary_default =
     \<lparr>sum_amount = 0, sum_upstream = 0, estimated = False, unknown = 0, subscriptions = 0,
      reported = 0, overflow = False\<rparr>"

section \<open>Operations\<close>

definition used_context_tokens :: "token_usage \<Rightarrow> nat" where
  "used_context_tokens u =
     sat_add (sat_add (sat_add (sat_add (input_tokens u) (output_tokens u))
       (reasoning_tokens u)) (cache_read_tokens u)) (cache_write_tokens u)"

definition usd_display :: "usd \<Rightarrow> string" where
  "usd_display v =
     (if 0 < v \<and> v < 100000 then ''<$0.0001''
      else let units = (v + 50000) div 100000
           in ''$'' @ nat_digits (units div 10000) @ ''.'' @ pad_zero 4 (nat_digits (units mod 10000)))"

definition cost_categories :: "token_rates \<Rightarrow> token_usage \<Rightarrow> (nat \<times> usd option) list" where
  "cost_categories self usage =
     [(input_tokens usage, Some (rate_input self)),
      (output_tokens usage, Some (rate_output self)),
      (reasoning_tokens usage,
        Some (case rate_reasoning self of None \<Rightarrow> rate_output self | Some r \<Rightarrow> r)),
      (cache_read_tokens usage, rate_cache_read self),
      (cache_write_tokens usage, rate_cache_write self)]"

fun cost_total :: "nat \<Rightarrow> (nat \<times> usd option) list \<Rightarrow> nat option" where
  "cost_total acc [] = Some acc"
| "cost_total acc ((tokens, rate) # rest) =
     (if tokens \<noteq> 0 then
        Option.bind rate (\<lambda>r.
        Option.bind (checked_mul u128_max tokens r) (\<lambda>product.
        Option.bind (checked_add u128_max acc product) (\<lambda>acc'. cost_total acc' rest)))
      else cost_total acc rest)"

definition estimate :: "token_rates \<Rightarrow> token_usage \<Rightarrow> usd option" where
  "estimate self usage =
     Option.bind (cost_total 0 (cost_categories self usage)) (\<lambda>acc.
     Option.bind (checked_add u128_max acc 500000) (\<lambda>rounded.
     let amount = rounded div 1000000 in if amount \<le> u64_max then Some amount else None))"

definition request_cost_of :: "request_usage \<Rightarrow> request_cost option" where
  "request_cost_of request = Option.bind (request_tokens request) usage_cost"

definition summary_add :: "cost_summary \<Rightarrow> request_usage \<Rightarrow> cost_summary" where
  "summary_add self request =
     (let self = (if subscription request
                  then self\<lparr>subscriptions := sat_add (subscriptions self) 1\<rparr> else self);
          self = self\<lparr>unknown := sat_add (unknown self) (unpriced_attempts request)\<rparr>
      in case request_cost_of request of
           None \<Rightarrow> self\<lparr>unknown := sat_add (unknown self) 1\<rparr>
         | Some cost \<Rightarrow>
             let self = self\<lparr>reported := sat_add (reported self) 1\<rparr>;
                 self = self\<lparr>estimated := estimated self \<or> subscription request \<or> cost_rates cost \<noteq> None\<rparr>;
                 self = (case checked_add u64_max (sum_amount self) (cost_amount cost) of
                           Some amount \<Rightarrow> self\<lparr>sum_amount := amount\<rparr>
                         | None \<Rightarrow> self\<lparr>overflow := True\<rparr>)
             in case cost_upstream cost of
                  None \<Rightarrow> self
                | Some up \<Rightarrow>
                    (case checked_add u64_max (sum_upstream self) up of
                       Some amount \<Rightarrow> self\<lparr>sum_upstream := amount\<rparr>
                     | None \<Rightarrow> self\<lparr>overflow := True\<rparr>))"

definition summary_display :: "cost_summary \<Rightarrow> string" where
  "summary_display self =
     (if overflow self then ''cost overflow''
      else let show_amount = (reported self \<noteq> 0 \<or> unknown self = 0)
           in (if show_amount
               then (if estimated self then ''~'' else []) @ usd_display (sum_amount self) else [])
            @ (if unknown self \<noteq> 0
               then (if show_amount then '' + '' else []) @ ''$unknown'' else [])
            @ (if sum_upstream self \<noteq> 0
               then '' + ~'' @ usd_display (sum_upstream self) @ '' upstream'' else []))"

section \<open>The estimate\<close>

text \<open>Tokens of every category times their rate, per million tokens.\<close>

definition exact_total :: "(nat \<times> usd option) list \<Rightarrow> nat" where
  "exact_total cs = (\<Sum>(tokens, rate) \<leftarrow> cs. tokens * (case rate of None \<Rightarrow> 0 | Some r \<Rightarrow> r))"

definition all_priced :: "(nat \<times> usd option) list \<Rightarrow> bool" where
  "all_priced cs = list_all (\<lambda>(tokens, rate). tokens = 0 \<or> rate \<noteq> None) cs"

lemma exact_total_simps [simp]:
  "exact_total [] = 0"
  "exact_total ((tokens, rate) # cs) = tokens * (case rate of None \<Rightarrow> 0 | Some r \<Rightarrow> r) + exact_total cs"
  by (simp_all add: exact_total_def)

lemma all_priced_simps [simp]:
  "all_priced []"
  "all_priced ((tokens, rate) # cs) \<longleftrightarrow> (tokens = 0 \<or> rate \<noteq> None) \<and> all_priced cs"
  by (simp_all add: all_priced_def)

lemma cost_total_iff:
  assumes "a \<le> u128_max"
  shows "cost_total a cs = Some t \<longleftrightarrow>
    all_priced cs \<and> t = a + exact_total cs \<and> a + exact_total cs \<le> u128_max"
  using assms
proof (induction cs arbitrary: a)
  case (Cons c cs)
  obtain tokens rate where c: "c = (tokens, rate)" by (cases c)
  show ?case
  proof (cases "tokens = 0 \<or> rate = None")
    case True
    then show ?thesis using Cons c by auto
  next
    case False
    then obtain r where r: "rate = Some r" "tokens \<noteq> 0" by auto
    show ?thesis
    proof (cases "a + tokens * r \<le> u128_max")
      case True
      then have "cost_total a (c # cs) = cost_total (a + tokens * r) cs"
        using r c by (simp add: checked_mul_def checked_add_def)
      then show ?thesis using Cons.IH[OF True] r c by (simp add: ac_simps)
    next
      case False
      then have "cost_total a (c # cs) = None"
        using r c by (simp add: checked_mul_def checked_add_def)
      then show ?thesis using False r c by simp
    qed
  qed
qed auto

lemma u64_below_u128: "v div 1000000 \<le> u64_max \<Longrightarrow> v \<le> u128_max"
proof -
  assume "v div 1000000 \<le> u64_max"
  then have "v div 1000000 < 18446744073709551616" by (simp add: u64_max_def)
  then have "v < 18446744073709551616 * 1000000"
    by (simp only: div_less_iff_less_mult zero_less_numeral)
  then show ?thesis by (simp add: u128_max_def)
qed

section \<open>The summary\<close>

definition priced :: "request_usage list \<Rightarrow> request_cost list" where
  "priced rs = List.map_filter request_cost_of rs"

definition total_amount :: "request_usage list \<Rightarrow> nat" where
  "total_amount rs = sum_list (map cost_amount (priced rs))"

definition total_upstream :: "request_usage list \<Rightarrow> nat" where
  "total_upstream rs = sum_list (List.map_filter cost_upstream (priced rs))"

lemma priced_snoc: "priced (rs @ [r]) = priced rs @ (case request_cost_of r of None \<Rightarrow> [] | Some c \<Rightarrow> [c])"
  by (simp add: priced_def map_filter_def split: option.split)

lemma total_amount_snoc:
  "total_amount (rs @ [r]) = total_amount rs + (case request_cost_of r of None \<Rightarrow> 0 | Some c \<Rightarrow> cost_amount c)"
  by (simp add: total_amount_def priced_snoc split: option.split)

lemma total_upstream_snoc:
  "total_upstream (rs @ [r]) = total_upstream rs
    + (case request_cost_of r of None \<Rightarrow> 0
       | Some c \<Rightarrow> (case cost_upstream c of None \<Rightarrow> 0 | Some u \<Rightarrow> u))"
  by (simp add: total_upstream_def priced_snoc map_filter_def split: option.split)

text \<open>The invariant of the running sums: exact until a sum leaves the range, and then flagged.\<close>

definition sums_ok :: "cost_summary \<Rightarrow> nat \<Rightarrow> nat \<Rightarrow> bool" where
  "sums_ok s a u =
     ((overflow s \<longleftrightarrow> u64_max < a \<or> u64_max < u)
      \<and> (a \<le> u64_max \<longrightarrow> sum_amount s = a) \<and> (u \<le> u64_max \<longrightarrow> sum_upstream s = u))"

lemma summary_add_sums:
  assumes "sums_ok s a u"
  shows "sums_ok (summary_add s r)
    (a + (case request_cost_of r of None \<Rightarrow> 0 | Some c \<Rightarrow> cost_amount c))
    (u + (case request_cost_of r of None \<Rightarrow> 0 | Some c \<Rightarrow> (case cost_upstream c of None \<Rightarrow> 0 | Some v \<Rightarrow> v)))"
proof (cases "request_cost_of r")
  case None
  then show ?thesis using assms by (simp add: sums_ok_def summary_add_def Let_def)
next
  case (Some c)
  then show ?thesis
    using assms
    by (cases "cost_upstream c") (auto simp: sums_ok_def summary_add_def Let_def checked_add_def)
qed

definition summarize_requests :: "request_usage list \<Rightarrow> cost_summary" where
  "summarize_requests rs = foldl summary_add cost_summary_default rs"

lemma summarize_requests_snoc: "summarize_requests (rs @ [r]) = summary_add (summarize_requests rs) r"
  by (simp add: summarize_requests_def)

lemma summarize_requests_sums: "sums_ok (summarize_requests rs) (total_amount rs) (total_upstream rs)"
proof (induction rs rule: rev_induct)
  case Nil
  then show ?case
    by (simp add: sums_ok_def summarize_requests_def cost_summary_default_def total_amount_def
        total_upstream_def priced_def map_filter_def)
next
  case (snoc r rs)
  then show ?case
    using summary_add_sums[OF snoc, of r]
    by (simp add: summarize_requests_snoc total_amount_snoc total_upstream_snoc)
qed

lemma sat_add_min: "sat_add (min usize_max a) b = min usize_max (a + b)"
  by (auto simp: sat_add_def min_def)

lemma summary_add_counts:
  "reported (summary_add s r) = (if request_cost_of r = None then reported s else sat_add (reported s) 1)"
  "unknown (summary_add s r) = (if request_cost_of r = None
     then sat_add (sat_add (unknown s) (unpriced_attempts r)) 1
     else sat_add (unknown s) (unpriced_attempts r))"
  "subscriptions (summary_add s r) = (if subscription r then sat_add (subscriptions s) 1 else subscriptions s)"
  "estimated (summary_add s r) = (estimated s \<or> (case request_cost_of r of None \<Rightarrow> False
     | Some c \<Rightarrow> subscription r \<or> cost_rates c \<noteq> None))"
  by (auto simp: summary_add_def Let_def split: option.split)

lemma summarize_requests_counts:
  "reported (summarize_requests rs) = min usize_max (length (priced rs))"
  "subscriptions (summarize_requests rs) = min usize_max (length (filter subscription rs))"
  "unknown (summarize_requests rs) = min usize_max
     (sum_list (map unpriced_attempts rs) + length (filter (\<lambda>r. request_cost_of r = None) rs))"
  by (induction rs rule: rev_induct)
    (simp_all add: summarize_requests_snoc summary_add_counts sat_add_min priced_snoc
      summarize_requests_def cost_summary_default_def priced_def map_filter_def ac_simps split: option.split)

lemma summarize_estimated:
  "estimated (summarize_requests rs) \<longleftrightarrow>
     (\<exists>r c. r \<in> set rs \<and> request_cost_of r = Some c \<and> (subscription r \<or> cost_rates c \<noteq> None))"
proof (induction rs rule: rev_induct)
  case Nil
  then show ?case by (simp add: summarize_requests_def cost_summary_default_def)
next
  case (snoc r rs)
  then show ?case
    by (cases "request_cost_of r") (auto simp: summarize_requests_snoc summary_add_counts)
qed

section \<open>Properties\<close>

text \<open>The estimate of a request is the exact price of its tokens, rounded to the nearest
  nano-dollar: it exists exactly when every category that has tokens has a rate and the rounded
  price fits 64 bits. No intermediate overflow can turn a representable price into none, and none
  can wrap.\<close>

theorem estimate_exact:
  "estimate rates u = Some c \<longleftrightarrow>
     all_priced (cost_categories rates u)
     \<and> c = (exact_total (cost_categories rates u) + 500000) div 1000000 \<and> c \<le> u64_max"
proof -
  let ?cs = "cost_categories rates u"
  have iff: "cost_total 0 ?cs = Some t \<longleftrightarrow> all_priced ?cs \<and> t = exact_total ?cs \<and> exact_total ?cs \<le> u128_max" for t
    using cost_total_iff[of 0 ?cs t] by simp
  have fits: "exact_total ?cs + 500000 \<le> u128_max" if "(exact_total ?cs + 500000) div 1000000 \<le> u64_max"
    using that by (rule u64_below_u128)
  show ?thesis
  proof (cases "cost_total 0 ?cs")
    case None
    then have "\<not> (all_priced ?cs \<and> exact_total ?cs \<le> u128_max)" using iff by fastforce
    then show ?thesis using None fits by (auto simp: estimate_def)
  next
    case (Some t)
    then show ?thesis
      using iff[of t] fits by (auto simp: estimate_def checked_add_def Let_def)
  qed
qed

text \<open>The summary of a session's requests is their sum: unless it reports an overflow, the
  amount and the upstream amount are exact, and it reports an overflow exactly when one of the
  true sums leaves 64 bits, whatever the order of the requests. The counters are exact up to
  saturation, and the summary is marked estimated exactly when a priced request was.\<close>

theorem cost_summary_exact:
  "(overflow (summarize_requests rs) \<longleftrightarrow> u64_max < total_amount rs \<or> u64_max < total_upstream rs)
   \<and> (overflow (summarize_requests rs)
      \<or> sum_amount (summarize_requests rs) = total_amount rs \<and> sum_upstream (summarize_requests rs) = total_upstream rs)
   \<and> reported (summarize_requests rs) = min usize_max (length (priced rs))
   \<and> subscriptions (summarize_requests rs) = min usize_max (length (filter subscription rs))
   \<and> unknown (summarize_requests rs) = min usize_max
       (sum_list (map unpriced_attempts rs) + length (filter (\<lambda>r. request_cost_of r = None) rs))
   \<and> (estimated (summarize_requests rs) \<longleftrightarrow>
       (\<exists>r c. r \<in> set rs \<and> request_cost_of r = Some c \<and> (subscription r \<or> (\<exists>rates. cost_rates c = Some rates))))"
  using summarize_requests_sums[of rs] summarize_requests_counts[of rs] summarize_estimated[of rs]
  by (auto simp: sums_ok_def)

end
