(* ===== verification/Execution_Types.thy ===== *)
theory Execution_Types
  imports Permissions
begin

text \<open>
  The values the script host, the sandbox and the commands exchange
  (crates/kraai-execution-types): identifiers that may become file names, script outcomes and
  lifecycle phases, image attachments and their limits, context-state deltas, and the requests
  commands make of MCP servers. Validation errors are the source's messages.
\<close>

section \<open>Identifiers\<close>

definition validate_id :: "string \<Rightarrow> (string, unit) result" where
  "validate_id value = ensure (value \<noteq> []) ''id cannot be empty''"

definition message_id_byte :: "char \<Rightarrow> bool" where
  "message_id_byte b = (is_ascii_alphanumeric b \<or> b = CHR ''-'' \<or> b = CHR ''_'')"

definition validate_message_id :: "string \<Rightarrow> (string, unit) result" where
  "validate_message_id value =
     bindR (validate_id value) (\<lambda>_.
     ensure (list_all message_id_byte value)
       ''id may contain only ASCII letters, digits, hyphens, and underscores'')"

text \<open>\<open>try_new\<close> of an id type generated by \<open>define_id!\<close> with the given validator.\<close>

definition id_try_new :: "(string \<Rightarrow> (string, unit) result) \<Rightarrow> string \<Rightarrow> (string, string) result" where
  "id_try_new validator s = bindR (validator s) (\<lambda>_. Inr s)"

section \<open>Domain errors\<close>

datatype domain_error_kind = InvalidArgument | NotFound | Conflict

record domain_error =
  error_kind :: domain_error_kind
  error_message :: string

definition domain_error_new :: "domain_error_kind \<Rightarrow> string \<Rightarrow> domain_error" where
  "domain_error_new kind message = \<lparr>error_kind = kind, error_message = message\<rparr>"

definition invalid_argument :: "string \<Rightarrow> domain_error" where
  "invalid_argument = domain_error_new InvalidArgument"

definition not_found :: "string \<Rightarrow> domain_error" where
  "not_found = domain_error_new NotFound"

definition conflict :: "string \<Rightarrow> domain_error" where
  "conflict = domain_error_new Conflict"

section \<open>Scripts\<close>

datatype script_execution_status =
  Completed | StatusDenied | InvalidScript | TimedOut | Cancelled
| SandboxUnavailable | FailedToStart | HostUnavailable | RuntimeError

record script_execution_outcome =
  outcome_status :: script_execution_status
  outcome_exit_code :: "int option"

definition succeeded :: "script_execution_outcome \<Rightarrow> bool" where
  "succeeded self = (outcome_status self = Completed \<and> outcome_exit_code self = Some 0)"

fun status_as_str :: "script_execution_status \<Rightarrow> string" where
  "status_as_str Completed = ''completed''"
| "status_as_str StatusDenied = ''denied''"
| "status_as_str InvalidScript = ''invalid-script''"
| "status_as_str TimedOut = ''timed-out''"
| "status_as_str Cancelled = ''cancelled''"
| "status_as_str SandboxUnavailable = ''sandbox-unavailable''"
| "status_as_str FailedToStart = ''failed-to-start''"
| "status_as_str HostUnavailable = ''host-unavailable''"
| "status_as_str RuntimeError = ''runtime-error''"

datatype script_execution_phase = Prepared | AwaitingApproval | Running | Finished

datatype script_output_stream = Stdout | Stderr

section \<open>Images\<close>

definition max_image_bytes :: nat where
  "max_image_bytes = 10 * 1024 * 1024"

definition max_image_pixels :: nat where
  "max_image_pixels = 16000000"

definition max_image_attachments :: nat where
  "max_image_attachments = 8"

definition max_request_images :: nat where
  "max_request_images = 32"

definition max_request_image_bytes :: nat where
  "max_request_image_bytes = 32 * 1024 * 1024"

record image_attachment =
  image_id :: string
  mime_type :: string
  width :: nat
  height :: nat
  byte_length :: nat

definition image_id_byte :: "char \<Rightarrow> bool" where
  "image_id_byte b = (is_ascii_digit b \<or> 97 \<le> byte b \<and> byte b \<le> 102)"

definition validate_image_id :: "string \<Rightarrow> (string, unit) result" where
  "validate_image_id ident =
     ensure (length ident = 64 \<and> list_all image_id_byte ident)
       ''Image id must be a lowercase SHA-256 digest''"

text \<open>The product of two 32-bit sides is taken at 64 bits, where it cannot overflow.\<close>

definition image_validate :: "image_attachment \<Rightarrow> (string, unit) result" where
  "image_validate self =
     bindR (validate_image_id (image_id self)) (\<lambda>_.
     bindR (ensure (mime_type self = ''image/png'' \<or> mime_type self = ''image/jpeg'')
              ''Only PNG and JPEG images are supported'') (\<lambda>_.
     bindR (ensure (\<not> (width self = 0 \<or> height self = 0
                       \<or> max_image_pixels < width self * height self))
              (''Image must contain 1 to '' @ nat_digits max_image_pixels @ '' pixels'')) (\<lambda>_.
     ensure (\<not> (byte_length self = 0 \<or> max_image_bytes < byte_length self))
       (''Image must contain 1 to '' @ nat_digits max_image_bytes @ '' bytes''))))"

section \<open>State effects\<close>

datatype json =
  JNull | JBool bool | JNumber int | JString string | JArray "json list"
| JObject "(string \<times> json) list"

definition json_get :: "json \<Rightarrow> string \<Rightarrow> json option" where
  "json_get value key = (case value of JObject members \<Rightarrow> map_of members key | _ \<Rightarrow> None)"

definition json_as_str :: "json \<Rightarrow> string option" where
  "json_as_str value = (case value of JString s \<Rightarrow> Some s | _ \<Rightarrow> None)"

record context_state_delta =
  delta_namespace :: string
  delta_operation :: string
  delta_payload :: json

datatype opened_files_operation = OpenFile | CloseFile

definition opened_files_namespace :: string where
  "opened_files_namespace = ''opened_files''"

fun operation_as_str :: "opened_files_operation \<Rightarrow> string" where
  "operation_as_str OpenFile = ''open''"
| "operation_as_str CloseFile = ''close''"

definition operation_parse :: "string \<Rightarrow> opened_files_operation option" where
  "operation_parse op =
     (if op = ''open'' then Some OpenFile else if op = ''close'' then Some CloseFile else None)"

definition into_delta :: "opened_files_operation \<Rightarrow> string \<Rightarrow> context_state_delta" where
  "into_delta self p =
     \<lparr>delta_namespace = opened_files_namespace, delta_operation = operation_as_str self,
      delta_payload = JObject [(''path'', JString p)]\<rparr>"

definition opened_file_path :: "context_state_delta \<Rightarrow> string option" where
  "opened_file_path self =
     (if delta_namespace self = opened_files_namespace
      then Option.bind (json_get (delta_payload self) ''path'') json_as_str else None)"

section \<open>MCP requests\<close>

datatype mcp_request =
  Servers
| Tools string
| Describe string string
| Search string nat
| Call string string "(string \<times> json) list"

definition nonempty :: "string \<Rightarrow> string \<Rightarrow> (string, unit) result" where
  "nonempty value name = ensure (\<not> trim_is_empty value) (name @ '' must not be empty'')"

fun mcp_validate :: "mcp_request \<Rightarrow> (string, unit) result" where
  "mcp_validate Servers = Inr ()"
| "mcp_validate (Tools server) = nonempty server ''server''"
| "mcp_validate (Describe server tool) =
     bindR (nonempty server ''server'') (\<lambda>_. nonempty tool ''tool'')"
| "mcp_validate (Call server tool arguments) =
     bindR (nonempty server ''server'') (\<lambda>_. nonempty tool ''tool'')"
| "mcp_validate (Search query limit) =
     bindR (nonempty query ''query'') (\<lambda>_.
     ensure (1 \<le> limit \<and> limit \<le> 20) ''search limit must be between 1 and 20'')"

section \<open>Facts\<close>

lemma validate_message_id_iff:
  "validate_message_id s = Inr () \<longleftrightarrow> s \<noteq> [] \<and> list_all message_id_byte s"
  by (auto simp: validate_message_id_def validate_id_def result_simps)

lemma message_id_byte_not_path:
  "message_id_byte c \<Longrightarrow> c \<noteq> CHR ''/'' \<and> c \<noteq> CHR 0x5C \<and> c \<noteq> CHR ''.'' \<and> c \<noteq> CHR '':'' \<and> byte c < 128"
  by (auto simp: message_id_byte_def is_ascii_alphanumeric_def is_ascii_digit_def byte_def)

lemma image_validate_iff:
  "image_validate i = Inr () \<longleftrightarrow>
     length (image_id i) = 64 \<and> list_all image_id_byte (image_id i)
     \<and> mime_type i \<in> {''image/png'', ''image/jpeg''}
     \<and> 0 < width i \<and> 0 < height i \<and> width i * height i \<le> max_image_pixels
     \<and> 0 < byte_length i \<and> byte_length i \<le> max_image_bytes"
  by (auto simp: image_validate_def validate_image_id_def result_simps)

text \<open>An accepted message, session or execution id is non-empty and cannot carry path
  syntax: it has no slash, backslash, dot or colon and no byte outside ASCII, so joining it to a
  directory names an entry of that directory.\<close>

theorem accepted_ids_hold_no_path_syntax:
  assumes "id_try_new validate_message_id s = Inr t"
  shows "t = s \<and> s \<noteq> []
    \<and> set s \<inter> {CHR ''/'', CHR 0x5C, CHR ''.'', CHR '':''} = {} \<and> (\<forall>i < length s. byte (s ! i) < 128)"
proof -
  have s: "t = s" "s \<noteq> []" "list_all message_id_byte s"
    using assms validate_message_id_iff[of s]
    by (auto simp: id_try_new_def result_simps)
  then show ?thesis
    using message_id_byte_not_path by (fastforce simp: list_all_iff)
qed

theorem accepted_ids_hold_no_path_syntax_witness:
  "id_try_new validate_message_id ''01J_id-7'' = Inr ''01J_id-7''
    \<and> set ''01J_id-7'' \<inter> {CHR ''/'', CHR 0x5C, CHR ''.'', CHR '':''} = {}"
proof -
  have "id_try_new validate_message_id ''01J_id-7'' = Inr ''01J_id-7''"
    by (simp add: id_try_new_def validate_message_id_def validate_id_def message_id_byte_def
        is_ascii_alphanumeric_def is_ascii_digit_def byte_def)
  with accepted_ids_hold_no_path_syntax[OF this] show ?thesis by simp
qed

text \<open>Opening or closing a file survives the wire format: the delta built for an operation and
  a path yields the same path and parses back to the same operation.\<close>

theorem opened_files_delta_roundtrip:
  "opened_file_path (into_delta op p) = Some p
   \<and> operation_parse (delta_operation (into_delta op p)) = Some op"
  by (cases op)
    (auto simp: into_delta_def opened_file_path_def json_get_def json_as_str_def operation_parse_def)

end
