(* ===== verification/Model_Options.thy ===== *)
theory Model_Options
  imports Execution_Types
begin

text \<open>
  Model options (crates/kraai-types, model_options.rs and model_options/validation.rs): the options
  a model declares, some active only when another option has a given value, the values a user
  selects, their validation, the reconciliation of stale selections, and the command line's
  assignments. A \<open>BTreeMap\<close> is the ordered map of the prelude; the loops that run until nothing
  changes are proved to end.
\<close>

section \<open>Data\<close>

datatype model_option_value = ChoiceValue string | BooleanValue bool | IntegerValue int

type_synonym model_option_values = "(string, model_option_value) btree"

record model_request_patch =
  patch_body :: "(string \<times> json) list"
  patch_headers :: "(string \<times> string) list"

record model_option_choice =
  choice_id :: string
  choice_label :: string
  choice_patch :: model_request_patch

datatype model_option_kind =
  ChoiceKind "model_option_choice list"
| BooleanKind model_request_patch model_request_patch
| IntegerKind "int option" "int option"

record model_option_condition =
  condition_option :: string
  condition_value :: model_option_value

datatype model_option_binding = BodyBinding string | HeaderBinding string

record model_option_definition =
  option_id :: string
  option_label :: string
  option_description :: "string option"
  option_required :: bool
  active_when :: "model_option_condition option"
  option_binding :: "model_option_binding option"
  option_kind :: model_option_kind

record model_option_error =
  error_option :: string
  option_error_message :: string

record model_selection =
  selection_provider_id :: string
  selection_model_id :: string
  selection_options :: model_option_values

section \<open>Values\<close>

definition is_active :: "model_option_definition \<Rightarrow> model_option_values \<Rightarrow> bool" where
  "is_active self vs =
     (case active_when self of
        None \<Rightarrow> True
      | Some c \<Rightarrow> bt_get vs (condition_option c) = Some (condition_value c))"

definition parse_value :: "model_option_definition \<Rightarrow> string \<Rightarrow> (string, model_option_value) result" where
  "parse_value self v =
     (case option_kind self of
        ChoiceKind _ \<Rightarrow> Inr (ChoiceValue v)
      | BooleanKind _ _ \<Rightarrow>
          if v = ''true'' then Inr (BooleanValue True)
          else if v = ''false'' then Inr (BooleanValue False)
          else Inl (option_label self @ '' must be true or false: '' @ parse_bool_error)
      | IntegerKind _ _ \<Rightarrow>
          (case parse_i64 v of
             Some n \<Rightarrow> Inr (IntegerValue n)
           | None \<Rightarrow> Inl (option_label self @ '' must be an integer: '' @ parse_i64_error v)))"

definition value_error :: "model_option_definition \<Rightarrow> model_option_value \<Rightarrow> string option" where
  "value_error def v =
     (case (option_kind def, v) of
        (ChoiceKind choices, ChoiceValue s) \<Rightarrow>
          let listed = list_ex (\<lambda>c. choice_id c = s) choices
          in if s = [] \<or> \<not> listed \<and> option_binding def = None
             then Some (''Unsupported choice '' @ [CHR 0x27] @ s @ [CHR 0x27] @ '' for '' @ option_label def)
             else None
      | (BooleanKind _ _, BooleanValue _) \<Rightarrow> None
      | (IntegerKind lo hi, IntegerValue n) \<Rightarrow>
          if (case lo of None \<Rightarrow> False | Some m \<Rightarrow> n < m) \<or> (case hi of None \<Rightarrow> False | Some m \<Rightarrow> m < n)
          then Some (option_label def @ '' is outside its supported bounds'') else None
      | _ \<Rightarrow> Some (''Wrong value type for '' @ option_label def))"

definition option_index :: "model_option_definition list \<Rightarrow> (string, model_option_definition) btree" where
  "option_index defs = bt_of_list (map (\<lambda>d. (option_id d, d)) defs)"

definition keeps_value ::
  "(string, model_option_definition) btree \<Rightarrow> model_option_values \<Rightarrow> string \<Rightarrow> model_option_value \<Rightarrow> bool" where
  "keeps_value by_id selected k v =
     (case bt_get by_id k of
        None \<Rightarrow> False
      | Some d \<Rightarrow> value_error d v = None \<and> is_active d selected)"

function reconcile_loop ::
  "(string, model_option_definition) btree \<Rightarrow> model_option_values \<Rightarrow> model_option_values" where
  "reconcile_loop by_id vs =
     (let kept = bt_retain (keeps_value by_id vs) vs
      in if length kept = length vs then kept else reconcile_loop by_id kept)"
  by pat_completeness auto
termination
proof (relation "measure (\<lambda>(_, vs). length vs)", goal_cases)
  case (2 by_id vs x)
  then show ?case using bt_retain_length[of "keeps_value by_id vs" vs] by simp
qed simp

declare reconcile_loop.simps [simp del]

definition reconcile_model_option_values ::
  "model_option_definition list \<Rightarrow> model_option_values \<Rightarrow> model_option_values" where
  "reconcile_model_option_values defs vs = reconcile_loop (option_index defs) vs"

section \<open>Validation\<close>

definition push_error :: "model_option_error list \<Rightarrow> string \<Rightarrow> string \<Rightarrow> model_option_error list" where
  "push_error errors opt msg = errors @ [\<lparr>error_option = opt, option_error_message = msg\<rparr>]"

text \<open>The walk over a pointer's bytes: a tilde takes the byte after it, which has to be 0 or 1.\<close>

fun pointer_bytes :: "string \<Rightarrow> bool" where
  "pointer_bytes [] = True"
| "pointer_bytes (b # bs) =
     (if b = CHR ''~'' then
        (case bs of
           [] \<Rightarrow> False
         | e # rest \<Rightarrow> if e = CHR ''0'' \<or> e = CHR ''1'' then pointer_bytes rest else False)
      else pointer_bytes bs)"

definition valid_pointer :: "string \<Rightarrow> bool" where
  "valid_pointer p = (p \<noteq> [] \<and> hd p = CHR ''/'' \<and> pointer_bytes p)"

definition header_character :: "char \<Rightarrow> bool" where
  "header_character b = (is_ascii_alphanumeric b \<or>
     b \<in> set (''!#$%&'' @ [CHR 0x27] @ ''*+-.^_'' @ [CHR 0x60] @ ''|~''))"

fun choices_invalid :: "string list \<Rightarrow> model_option_choice list \<Rightarrow> bool" where
  "choices_invalid ids [] = False"
| "choices_invalid ids (c # cs) =
     (if trim_is_empty (choice_id c) \<or> choice_id c \<in> set ids then True
      else choices_invalid (choice_id c # ids) cs)"

definition validate_definition ::
  "model_option_definition \<Rightarrow> model_option_error list \<Rightarrow> model_option_error list" where
  "validate_definition def errors =
     (let errors = (case option_kind def of
          ChoiceKind choices \<Rightarrow>
            if choices = [] \<or> choices_invalid [] choices
            then push_error errors (option_id def) ''Choices must have nonempty, unique IDs'' else errors
        | IntegerKind lo hi \<Rightarrow>
            let errors = (case (lo, hi) of
                 (Some l, Some h) \<Rightarrow> if h < l then push_error errors (option_id def) ''Minimum exceeds maximum'' else errors
               | _ \<Rightarrow> errors)
            in if option_binding def = None
               then push_error errors (option_id def) ''Integer option requires a request binding'' else errors
        | BooleanKind _ _ \<Rightarrow> errors);
          errors = (case option_binding def of
          Some (BodyBinding p) \<Rightarrow>
            if \<not> valid_pointer p
            then push_error errors (option_id def) ''Body binding requires a nonempty JSON pointer'' else errors
        | _ \<Rightarrow> errors)
      in case option_binding def of
          Some (HeaderBinding h) \<Rightarrow>
            if h = [] \<or> \<not> list_all header_character h
            then push_error errors (option_id def) ''Header binding name is invalid'' else errors
        | _ \<Rightarrow> errors)"

text \<open>The first loop: index the definitions by id. An empty id is reported and not indexed, since
  the condition stops before the insertion; a duplicate replaces the earlier definition.\<close>

fun index_definitions ::
  "model_option_error list \<times> (string, model_option_definition) btree \<Rightarrow> model_option_definition list
     \<Rightarrow> model_option_error list \<times> (string, model_option_definition) btree" where
  "index_definitions st [] = st"
| "index_definitions (errors, by_id) (d # ds) =
     (let blank = trim_is_empty (option_id d);
          bad = (blank \<or> bt_get by_id (option_id d) \<noteq> None);
          by_id = (if blank then by_id else bt_insert (option_id d) d by_id);
          errors = (if bad then push_error errors (option_id d) ''Option ID is empty or duplicated'' else errors)
      in index_definitions (validate_definition d errors, by_id) ds)"

text \<open>The walk along the conditions of one definition, and the message it ends with, if any.\<close>

function condition_walk ::
  "(string, model_option_definition) btree \<Rightarrow> string set \<Rightarrow> model_option_definition \<Rightarrow> string option" where
  "condition_walk by_id visited current =
     (case active_when current of
        None \<Rightarrow> None
      | Some c \<Rightarrow>
          if option_id current \<in> visited then Some ''Option conditions contain a cycle''
          else (case bt_get by_id (condition_option c) of
                  None \<Rightarrow> Some ''Option condition references an unknown option''
                | Some parent \<Rightarrow>
                    (case value_error parent (condition_value c) of
                       Some msg \<Rightarrow> Some (''Invalid condition: '' @ msg)
                     | None \<Rightarrow> condition_walk by_id (insert (option_id current) visited) parent)))"
  by pat_completeness auto
termination
proof (relation "measure (\<lambda>(by_id, visited, current).
    card (insert (option_id current) (option_id ` snd ` set by_id) - visited))", goal_cases)
  case (2 by_id visited current c parent)
  let ?ids = "option_id ` snd ` set by_id"
  have "option_id parent \<in> ?ids" using 2(3) by (force dest: map_of_SomeD)
  then have "insert (option_id parent) ?ids - insert (option_id current) visited
      \<subset> insert (option_id current) ?ids - visited"
    using 2(2) by auto
  then show ?case by (simp add: psubset_card_mono)
qed simp

declare condition_walk.simps [simp del]

definition condition_errors ::
  "(string, model_option_definition) btree \<Rightarrow> model_option_error list \<Rightarrow> model_option_definition
     \<Rightarrow> model_option_error list" where
  "condition_errors by_id errors d =
     (case condition_walk by_id {} d of None \<Rightarrow> errors | Some msg \<Rightarrow> push_error errors (option_id d) msg)"

definition value_errors ::
  "(string, model_option_definition) btree \<Rightarrow> model_option_values \<Rightarrow> model_option_error list
     \<Rightarrow> string \<times> model_option_value \<Rightarrow> model_option_error list" where
  "value_errors by_id vs errors kv = (case kv of (k, v) \<Rightarrow>
     (case bt_get by_id k of
        None \<Rightarrow> push_error errors k ''Unknown model option''
      | Some d \<Rightarrow>
          let errors = (case value_error d v of Some msg \<Rightarrow> push_error errors k msg | None \<Rightarrow> errors)
          in if \<not> is_active d vs then push_error errors k ''Option is inactive for the selected settings''
             else errors))"

definition required_errors ::
  "model_option_values \<Rightarrow> model_option_error list \<Rightarrow> model_option_definition \<Rightarrow> model_option_error list" where
  "required_errors vs errors d =
     (if option_required d \<and> is_active d vs \<and> bt_get vs (option_id d) = None
      then push_error errors (option_id d) (''Choose '' @ option_label d @ '' before generating'')
      else errors)"

definition validate_model_option_values ::
  "model_option_definition list \<Rightarrow> model_option_values \<Rightarrow> bool
     \<Rightarrow> (model_option_error list, unit) result" where
  "validate_model_option_values defs vs require_all =
     (let (errors, by_id) = index_definitions ([], []) defs;
          errors = foldl (condition_errors by_id) errors defs;
          errors = foldl (value_errors by_id vs) errors vs;
          errors = (if require_all then foldl (required_errors vs) errors defs else errors)
      in if errors = [] then Inr () else Inl errors)"

definition validate_model_options ::
  "model_option_definition list \<Rightarrow> model_option_values \<Rightarrow> (model_option_error list, unit) result" where
  "validate_model_options defs vs = validate_model_option_values defs vs True"

section \<open>Assignments\<close>

definition split_once_eq :: "string \<Rightarrow> (string \<times> string) option" where
  "split_once_eq s =
     (if CHR ''='' \<in> set s
      then Some (takeWhile (\<lambda>c. c \<noteq> CHR ''='') s, tl (dropWhile (\<lambda>c. c \<noteq> CHR ''='') s)) else None)"

definition assign_option ::
  "model_option_definition list \<Rightarrow> string list \<times> model_option_values \<Rightarrow> string
     \<Rightarrow> (string, string list \<times> model_option_values) result" where
  "assign_option defs st input = (case st of (assigned, existing) \<Rightarrow>
     bindR (ok_or (split_once_eq input) (''Model option must use id=value: '' @ input)) (\<lambda>(k, v).
     bindR (ensure (k \<notin> set assigned) (''Model option specified more than once: '' @ k)) (\<lambda>_.
     bindR (ok_or (find (\<lambda>d. option_id d = k) defs) (''Unknown model option: '' @ k)) (\<lambda>d.
     if v = [] then
       bindR (ensure (\<not> option_required d) (option_label d @ '' is required and cannot be cleared'')) (\<lambda>_.
       Inr (k # assigned, bt_remove k existing))
     else bindR (parse_value d v) (\<lambda>parsed. Inr (k # assigned, bt_insert k parsed existing))))))"

function retain_active_loop ::
  "model_option_definition list \<Rightarrow> string list \<Rightarrow> model_option_values \<Rightarrow> model_option_values" where
  "retain_active_loop defs assigned existing =
     (let kept = bt_retain (\<lambda>k _. k \<in> set assigned
                    \<or> list_ex (\<lambda>d. option_id d = k \<and> is_active d existing) defs) existing
      in if length kept = length existing then kept else retain_active_loop defs assigned kept)"
  by pat_completeness auto
termination
proof (relation "measure (\<lambda>(_, _, vs). length vs)", goal_cases)
  case (2 defs assigned existing x)
  then show ?case
    using bt_retain_length[of "\<lambda>k _. k \<in> set assigned
        \<or> list_ex (\<lambda>d. option_id d = k \<and> is_active d existing) defs" existing] by simp
qed simp

declare retain_active_loop.simps [simp del]

fun join :: "string \<Rightarrow> string list \<Rightarrow> string" where
  "join sep [] = []"
| "join sep [x] = x"
| "join sep (x # xs) = x @ sep @ join sep xs"

definition parse_model_option_assignments ::
  "model_option_definition list \<Rightarrow> string list \<Rightarrow> model_option_values
     \<Rightarrow> (string, model_option_values) result" where
  "parse_model_option_assignments defs inputs existing =
     bindR (foldR (assign_option defs) ([], existing) inputs) (\<lambda>(assigned, existing).
     let existing = retain_active_loop defs assigned existing
     in case validate_model_option_values defs existing False of
          Inl errors \<Rightarrow>
            Inl (join ''; '' (map (\<lambda>e. error_option e @ '': '' @ option_error_message e) errors))
        | Inr _ \<Rightarrow> Inr existing)"

section \<open>Reconciliation\<close>

text \<open>A selection is consistent when each of its values is valid and active within it.\<close>

definition consistent ::
  "(string, model_option_definition) btree \<Rightarrow> model_option_values \<Rightarrow> bool" where
  "consistent by_id vs = list_all (\<lambda>(k, v). keeps_value by_id vs k v) vs"

lemma bt_retain_id: "bt_retain p m = m \<longleftrightarrow> list_all (\<lambda>(k, v). p k v) m"
  by (simp add: bt_retain_def filter_id_conv list_all_iff)

lemma set_bt_retain: "set (bt_retain p m) = {(k, v) \<in> set m. p k v}"
  by (auto simp: bt_retain_def)

lemma reconcile_loop_step:
  "reconcile_loop by_id vs =
     (if consistent by_id vs then vs else reconcile_loop by_id (bt_retain (keeps_value by_id vs) vs))"
proof -
  have "length (bt_retain (keeps_value by_id vs) vs) = length vs \<longleftrightarrow> consistent by_id vs"
    using bt_retain_all bt_retain_id by (metis consistent_def)
  then show ?thesis
    using bt_retain_id[of "keeps_value by_id vs" vs]
    by (simp add: reconcile_loop.simps[of by_id vs] Let_def consistent_def)
qed

lemma reconcile_loop_induct [case_names stop step]:
  assumes "\<And>vs. consistent by_id vs \<Longrightarrow> P vs"
    and "\<And>vs. \<not> consistent by_id vs \<Longrightarrow> P (bt_retain (keeps_value by_id vs) vs) \<Longrightarrow> P vs"
  shows "P vs"
proof (induction vs rule: length_induct)
  case (1 vs)
  show ?case
  proof (cases "consistent by_id vs")
    case False
    then have "length (bt_retain (keeps_value by_id vs) vs) < length vs"
      using bt_retain_all bt_retain_id bt_retain_length
      by (metis consistent_def le_neq_implies_less)
    then show ?thesis using 1 False assms(2) by blast
  qed (rule assms(1))
qed

lemma reconcile_loop_consistent: "consistent by_id (reconcile_loop by_id vs)"
proof (induction vs rule: reconcile_loop_induct[where by_id = by_id])
  case (stop vs)
  then show ?case by (subst reconcile_loop_step) simp
next
  case (step vs)
  then show ?case by (subst reconcile_loop_step) simp
qed

lemma reconcile_loop_subset: "set (reconcile_loop by_id vs) \<subseteq> set vs"
proof (induction vs rule: reconcile_loop_induct[where by_id = by_id])
  case (stop vs)
  then show ?case by (subst reconcile_loop_step) simp
next
  case (step vs)
  then show ?case by (subst reconcile_loop_step) (auto simp: set_bt_retain)
qed

lemma reconcile_loop_wf: "bt_wf vs \<Longrightarrow> bt_wf (reconcile_loop by_id vs)"
proof (induction vs rule: reconcile_loop_induct[where by_id = by_id])
  case (stop vs)
  then show ?case by (subst reconcile_loop_step) simp
next
  case (step vs)
  then show ?case by (subst reconcile_loop_step) simp
qed

lemma keeps_value_mono:
  assumes "bt_wf S" "bt_wf vs" "set S \<subseteq> set vs" "keeps_value by_id S k v"
  shows "keeps_value by_id vs k v"
proof -
  have "bt_get S a = Some b \<Longrightarrow> bt_get vs a = Some b" for a b
    using assms(3) bt_get_mem[OF assms(1), of a b] bt_get_mem[OF assms(2), of a b] by auto
  then show ?thesis
    using assms(4) by (auto simp: keeps_value_def is_active_def split: option.splits)
qed

lemma reconcile_loop_greatest:
  assumes "bt_wf S" "bt_wf vs" "set S \<subseteq> set vs" "consistent by_id S"
  shows "set S \<subseteq> set (reconcile_loop by_id vs)"
  using assms(2,3)
proof (induction vs rule: reconcile_loop_induct[where by_id = by_id])
  case (stop vs)
  then show ?case by (subst reconcile_loop_step) simp
next
  case (step vs)
  have "set S \<subseteq> set (bt_retain (keeps_value by_id vs) vs)"
  proof
    fix kv assume kv: "kv \<in> set S"
    obtain k v where k: "kv = (k, v)" by (cases kv)
    have "keeps_value by_id S k v" using assms(4) kv k by (auto simp: consistent_def list_all_iff)
    then have "keeps_value by_id vs k v"
      using keeps_value_mono[OF assms(1) step.prems] by blast
    then show "kv \<in> set (bt_retain (keeps_value by_id vs) vs)"
      using kv k step.prems(2) by (auto simp: set_bt_retain)
  qed
  then show ?case using step by (subst reconcile_loop_step) simp
qed

section \<open>When validation accepts\<close>

lemma push_error_nonempty [simp]: "push_error errors k m \<noteq> []"
  by (simp add: push_error_def)

lemma foldl_no_errors:
  assumes "\<And>e x. f e x = [] \<longleftrightarrow> e = [] \<and> ok x"
  shows "foldl f e xs = [] \<longleftrightarrow> e = [] \<and> list_all ok xs"
  by (induction xs arbitrary: e) (auto simp: assms)

lemma validate_definition_no_error: "validate_definition d errors = [] \<Longrightarrow> errors = []"
  by (auto simp: validate_definition_def Let_def
      split: model_option_kind.splits model_option_binding.splits option.splits if_splits)

lemma index_definitions_no_error:
  assumes "index_definitions (errors, m) ds = ([], by_id)"
  shows "errors = [] \<and> by_id = fold (\<lambda>(k, v) m. bt_insert k v m) (map (\<lambda>d. (option_id d, d)) ds) m"
  using assms
proof (induction "(errors, m)" ds arbitrary: errors m rule: index_definitions.induct)
  case (2 errors m d ds)
  let ?blank = "trim_is_empty (option_id d)"
  let ?errors = "if ?blank \<or> bt_get m (option_id d) \<noteq> None
     then push_error errors (option_id d) ''Option ID is empty or duplicated'' else errors"
  let ?m = "if ?blank then m else bt_insert (option_id d) d m"
  have rec: "index_definitions (validate_definition d ?errors, ?m) ds = ([], by_id)"
    using "2.prems" by (simp only: index_definitions.simps Let_def)
  have "validate_definition d ?errors = [] \<and> by_id = fold (\<lambda>(k, v) m. bt_insert k v m) (map (\<lambda>d. (option_id d, d)) ds) ?m"
    by (rule "2.hyps"[OF refl refl refl refl rec])
  moreover from this have "?errors = []" using validate_definition_no_error by blast
  then have "errors = []" "\<not> ?blank" by (auto split: if_splits)
  ultimately show ?case by simp
qed auto

lemma index_definitions_index:
  "index_definitions ([], []) ds = ([], by_id) \<Longrightarrow> by_id = option_index ds"
  using index_definitions_no_error by (auto simp: option_index_def bt_of_list_def)

definition missing_required :: "model_option_values \<Rightarrow> model_option_definition \<Rightarrow> bool" where
  "missing_required vs d = (option_required d \<and> is_active d vs \<and> bt_get vs (option_id d) = None)"

text \<open>The definitions themselves are in order: nothing of the first two loops is reported.\<close>

definition definitions_ok :: "model_option_definition list \<Rightarrow> bool" where
  "definitions_ok defs =
     (fst (index_definitions ([], []) defs) = []
      \<and> list_all (\<lambda>d. condition_walk (option_index defs) {} d = None) defs)"

lemma validate_iff:
  "validate_model_option_values defs vs all = Inr () \<longleftrightarrow>
     definitions_ok defs \<and> consistent (option_index defs) vs
     \<and> (\<not> all \<or> list_all (\<lambda>d. \<not> missing_required vs d) defs)"
proof -
  obtain errors by_id where idx: "index_definitions ([], []) defs = (errors, by_id)"
    by fastforce
  have c: "foldl (condition_errors by_id) e ds = [] \<longleftrightarrow> e = [] \<and> list_all (\<lambda>d. condition_walk by_id {} d = None) ds" for e ds
    by (rule foldl_no_errors) (auto simp: condition_errors_def split: option.splits)
  have v: "foldl (value_errors by_id vs) e kvs = [] \<longleftrightarrow> e = [] \<and> list_all (\<lambda>(k, v). keeps_value by_id vs k v) kvs" for e kvs
    by (rule foldl_no_errors)
      (auto simp: value_errors_def keeps_value_def Let_def split: option.splits if_splits)
  have r: "foldl (required_errors vs) e ds = [] \<longleftrightarrow> e = [] \<and> list_all (\<lambda>d. \<not> missing_required vs d) ds" for e ds
    by (rule foldl_no_errors) (auto simp: required_errors_def missing_required_def)
  show ?thesis
  proof (cases "errors = []")
    case True
    then have eq: "option_index defs = by_id" using idx index_definitions_index by simp
    show ?thesis
      by (auto simp: validate_model_option_values_def Let_def idx True eq c v r definitions_ok_def consistent_def)
  next
    case False
    then show ?thesis
      using idx by (auto simp: validate_model_option_values_def Let_def c v r definitions_ok_def)
  qed
qed

section \<open>JSON pointers\<close>

lemma pointer_bytes_iff:
  "pointer_bytes p \<longleftrightarrow> (\<forall>i < length p. p ! i = CHR ''~'' \<longrightarrow>
     Suc i < length p \<and> (p ! Suc i = CHR ''0'' \<or> p ! Suc i = CHR ''1''))"
proof (induction p rule: pointer_bytes.induct)
  case (2 b bs)
  show ?case
  proof (cases "b = CHR ''~''")
    case True
    show ?thesis
    proof (cases bs)
      case Nil
      then show ?thesis using True by auto
    next
      case (Cons e rest)
      then show ?thesis using True "2.IH"(1)[of e rest] by (auto simp: All_less_Suc2 nth_Cons')
    qed
  next
    case False
    then show ?thesis using "2.IH"(2) by (auto simp: All_less_Suc2)
  qed
qed simp

section \<open>Assignments from the command line\<close>

text \<open>What an input asks for: the option is cleared, or holds the parsed value.\<close>

definition input_holds :: "model_option_definition list \<Rightarrow> model_option_values \<Rightarrow> string \<Rightarrow> bool" where
  "input_holds defs vs input =
     (case split_once_eq input of
        None \<Rightarrow> False
      | Some (k, v) \<Rightarrow>
          (if v = [] then bt_get vs k = None
           else \<exists>d p. find (\<lambda>d. option_id d = k) defs = Some d \<and> parse_value d v = Inr p
                  \<and> bt_get vs k = Some p))"

definition input_key :: "string \<Rightarrow> string" where
  "input_key input = (case split_once_eq input of None \<Rightarrow> [] | Some (k, _) \<Rightarrow> k)"

lemma assign_option_ok:
  assumes "assign_option defs (assigned, ex) input = Inr (assigned', ex')"
  shows "input_holds defs ex' input \<and> assigned' = input_key input # assigned
    \<and> input_key input \<notin> set assigned \<and> (\<forall>k. k = input_key input \<or> bt_get ex' k = bt_get ex k)
    \<and> (bt_wf ex \<longrightarrow> bt_wf ex')"
proof -
  obtain k v d where kv: "split_once_eq input = Some (k, v)" "k \<notin> set assigned"
      "find (\<lambda>d. option_id d = k) defs = Some d"
    using assms by (auto simp: assign_option_def result_simps split: prod.splits)
  show ?thesis
  proof (cases "v = []")
    case True
    then show ?thesis
      using assms kv
      by (auto simp: assign_option_def result_simps input_holds_def input_key_def split: if_splits)
  next
    case False
    then show ?thesis
      using assms kv
      by (auto simp: assign_option_def result_simps input_holds_def input_key_def split: if_splits)
  qed
qed

lemma assign_all_ok:
  assumes "foldR (assign_option defs) ([], ex) inputs = Inr (assigned, ex')" "bt_wf ex"
  shows "list_all (input_holds defs ex') inputs \<and> set assigned = input_key ` set inputs \<and> bt_wf ex'"
  using assms(1)
proof (induction inputs arbitrary: assigned ex' rule: rev_induct)
  case Nil
  then show ?case using assms(2) by simp
next
  case (snoc input inputs)
  then obtain as e where mid: "foldR (assign_option defs) ([], ex) inputs = Inr (as, e)"
      "assign_option defs (as, e) input = Inr (assigned, ex')"
    by (auto simp: foldR_append result_simps)
  note IH = snoc.IH[OF mid(1)] and step = assign_option_ok[OF mid(2)]
  have "input_holds defs ex' i" if "i \<in> set inputs" for i
  proof -
    have "input_key i \<noteq> input_key input" using that IH step by (metis imageI)
    then have "bt_get ex' (input_key i) = bt_get e (input_key i)" using step by auto
    moreover have "input_holds defs e i" using that IH by (auto simp: list_all_iff)
    ultimately show ?thesis
      by (auto simp: input_holds_def input_key_def split: option.splits prod.splits if_splits)
  qed
  then show ?case using IH step by (auto simp: list_all_iff)
qed

lemma retain_active_get:
  assumes "bt_wf vs"
  shows "bt_wf (retain_active_loop defs assigned vs)
    \<and> (\<forall>k \<in> set assigned. bt_get (retain_active_loop defs assigned vs) k = bt_get vs k)"
  using assms
proof (induction defs assigned vs rule: retain_active_loop.induct)
  case (1 defs as ex)
  let ?kept = "bt_retain (\<lambda>k _. k \<in> set as \<or> list_ex (\<lambda>d. option_id d = k \<and> is_active d ex) defs) ex"
  have kept: "bt_wf ?kept" "\<forall>k \<in> set as. bt_get ?kept k = bt_get ex k"
    using "1.prems" by (auto simp: bt_get_retain split: option.splits)
  show ?case
  proof (cases "length ?kept = length ex")
    case True
    then have "retain_active_loop defs as ex = ?kept"
      by (subst retain_active_loop.simps) (simp add: Let_def)
    then show ?thesis using kept by simp
  next
    case False
    then have "retain_active_loop defs as ex = retain_active_loop defs as ?kept"
      by (subst retain_active_loop.simps) (simp add: Let_def)
    then show ?thesis using "1.IH"[OF refl False kept(1)] kept by auto
  qed
qed

section \<open>Properties\<close>

text \<open>Reconciling a selection with a model's options keeps as much of it as possible: the
  result is a part of the selection in which every value has a definition, is valid and is active
  given the rest; every other part of the selection with that property is contained in it, so the
  repeated pruning removes nothing it need not; and reconciling again changes nothing.\<close>

theorem reconcile_greatest:
  assumes "bt_wf vs"
  shows "bt_wf (reconcile_model_option_values defs vs)
    \<and> set (reconcile_model_option_values defs vs) \<subseteq> set vs
    \<and> consistent (option_index defs) (reconcile_model_option_values defs vs)
    \<and> (\<forall>S. bt_wf S \<and> set S \<subseteq> set vs \<and> consistent (option_index defs) S
         \<longrightarrow> set S \<subseteq> set (reconcile_model_option_values defs vs))
    \<and> reconcile_model_option_values defs (reconcile_model_option_values defs vs)
        = reconcile_model_option_values defs vs"
proof -
  let ?r = "reconcile_model_option_values defs vs"
  have c: "consistent (option_index defs) ?r"
    unfolding reconcile_model_option_values_def by (rule reconcile_loop_consistent)
  have "reconcile_model_option_values defs ?r = ?r"
    using c unfolding reconcile_model_option_values_def by (subst reconcile_loop_step) simp
  then show ?thesis
    using c assms reconcile_loop_wf reconcile_loop_subset reconcile_loop_greatest
    unfolding reconcile_model_option_values_def by blast
qed

definition sample_option :: "string \<Rightarrow> model_option_condition option \<Rightarrow> bool \<Rightarrow> model_option_definition" where
  "sample_option k cond req =
     \<lparr>option_id = k, option_label = k, option_description = None, option_required = req,
      active_when = cond, option_binding = None,
      option_kind = BooleanKind \<lparr>patch_body = [], patch_headers = []\<rparr> \<lparr>patch_body = [], patch_headers = []\<rparr>\<rparr>"

definition sample_options :: "model_option_definition list" where
  "sample_options =
     [sample_option ''a'' None True,
      sample_option ''b'' (Some \<lparr>condition_option = ''a'', condition_value = BooleanValue True\<rparr>) False]"

lemma sample_index: "option_index sample_options
    = [(''a'', sample_options ! 0), (''b'', sample_options ! 1)]"
  by (simp add: option_index_def bt_of_list_def sample_options_def sample_option_def)

theorem reconcile_greatest_witness:
  "set (reconcile_model_option_values sample_options [(''a'', BooleanValue True), (''b'', BooleanValue False)])
    = {(''a'', BooleanValue True), (''b'', BooleanValue False)}"
proof -
  let ?vs = "[(''a'', BooleanValue True), (''b'', BooleanValue False)]"
  have wf: "bt_wf ?vs" by (simp add: bt_wf_def)
  have "consistent (option_index sample_options) ?vs"
    unfolding sample_index
    by (simp add: consistent_def keeps_value_def value_error_def is_active_def sample_options_def sample_option_def)
  then have "set ?vs \<subseteq> set (reconcile_model_option_values sample_options ?vs)"
    using reconcile_greatest[OF wf, of sample_options] wf by blast
  moreover have "set (reconcile_model_option_values sample_options ?vs) \<subseteq> set ?vs"
    using reconcile_greatest[OF wf, of sample_options] by blast
  ultimately show ?thesis by auto
qed

text \<open>After reconciliation the only thing validation can still ask for is a missing choice: for
  a model whose option definitions are in order, a reconciled selection passes the check that
  ignores required options, and it passes the full check exactly when no required, active option
  is missing.\<close>

theorem reconciled_values_validate:
  assumes "validate_model_option_values defs [] False = Inr ()"
  shows "validate_model_option_values defs (reconcile_model_option_values defs vs) False = Inr ()
    \<and> (validate_model_options defs (reconcile_model_option_values defs vs) = Inr () \<longleftrightarrow>
       list_all (\<lambda>d. \<not> missing_required (reconcile_model_option_values defs vs) d) defs)"
  using assms reconcile_loop_consistent[of "option_index defs" vs]
  by (simp add: validate_iff validate_model_options_def reconcile_model_option_values_def)

theorem reconciled_values_validate_witness:
  "validate_model_options sample_options
     (reconcile_model_option_values sample_options [(''b'', BooleanValue True)]) \<noteq> Inr ()"
proof -
  have trim: "\<not> trim_is_empty ''a''" "\<not> trim_is_empty ''b''"
    by (simp_all add: trim_is_empty_def trim_start.simps space_len_def byte_def)
  have ok: "validate_model_option_values sample_options [] False = Inr ()"
    unfolding validate_iff definitions_ok_def sample_index
    using trim
    by (simp add: sample_options_def sample_option_def validate_definition_def Let_def consistent_def
        condition_walk.simps value_error_def)
  have r: "reconcile_model_option_values sample_options [(''b'', BooleanValue True)] = []"
    unfolding reconcile_model_option_values_def sample_index
    by (subst reconcile_loop_step, subst reconcile_loop_step)
      (simp add: consistent_def keeps_value_def value_error_def is_active_def bt_retain_def
        sample_options_def sample_option_def)
  have "missing_required [] (sample_options ! 0)"
    by (simp add: missing_required_def sample_options_def sample_option_def is_active_def)
  then have "\<not> list_all (\<lambda>d. \<not> missing_required [] d) sample_options"
    by (auto simp: sample_options_def)
  then show ?thesis using reconciled_values_validate[OF ok, of "[(''b'', BooleanValue True)]"] r by simp
qed

text \<open>Assignments from the command line, when accepted, take effect exactly as written and
  give a valid selection: every option named with a value holds that value parsed for its kind,
  every option named with an empty value is absent, no option is named twice, and the result
  passes validation.\<close>

theorem assignments_take_effect:
  assumes "parse_model_option_assignments defs inputs existing = Inr vs" "bt_wf existing"
  shows "list_all (input_holds defs vs) inputs
    \<and> validate_model_option_values defs vs False = Inr () \<and> bt_wf vs"
proof -
  obtain assigned ex where fold: "foldR (assign_option defs) ([], existing) inputs = Inr (assigned, ex)"
      and rest: "(case validate_model_option_values defs (retain_active_loop defs assigned ex) False of
          Inl errors \<Rightarrow> Inl (join ''; '' (map (\<lambda>e. error_option e @ '': '' @ option_error_message e) errors))
        | Inr _ \<Rightarrow> Inr (retain_active_loop defs assigned ex)) = Inr vs"
    using assms(1)
    by (auto simp: parse_model_option_assignments_def bindR_eq_Inr Let_def)
  have vs: "vs = retain_active_loop defs assigned ex"
      and ok: "validate_model_option_values defs vs False = Inr ()"
    using rest by (cases "validate_model_option_values defs (retain_active_loop defs assigned ex) False"; simp)+
  note A = assign_all_ok[OF fold assms(2)]
  have keep: "bt_wf vs \<and> (\<forall>k \<in> set assigned. bt_get vs k = bt_get ex k)"
    unfolding vs using A by (intro retain_active_get) auto
  have "input_holds defs vs i" if "i \<in> set inputs" for i
  proof -
    have "bt_get vs (input_key i) = bt_get ex (input_key i)" using keep A that by auto
    moreover have "input_holds defs ex i" using A that by (auto simp: list_all_iff)
    ultimately show ?thesis
      by (auto simp: input_holds_def input_key_def split: option.splits prod.splits if_splits)
  qed
  then show ?thesis using ok keep by (simp add: list_all_iff)
qed

theorem assignments_take_effect_witness:
  "input_holds sample_options [(''a'', BooleanValue True)] ''a=true''"
proof -
  have trim: "\<not> trim_is_empty ''a''" "\<not> trim_is_empty ''b''"
    by (simp_all add: trim_is_empty_def trim_start.simps space_len_def byte_def)
  have "validate_model_option_values sample_options [(''a'', BooleanValue True)] False = Inr ()"
    unfolding validate_iff definitions_ok_def sample_index
    using trim
    by (simp add: sample_options_def sample_option_def validate_definition_def Let_def consistent_def
        condition_walk.simps value_error_def keeps_value_def is_active_def)
  then have "parse_model_option_assignments sample_options [''a=true''] [] = Inr [(''a'', BooleanValue True)]"
    by (simp add: parse_model_option_assignments_def assign_option_def split_once_eq_def
        sample_options_def sample_option_def parse_value_def retain_active_loop.simps bt_retain_def)
  from assignments_take_effect[OF this] show ?thesis by simp
qed

text \<open>A body binding is accepted exactly when it is a JSON pointer: it starts with a slash and
  every tilde in it begins one of the two escapes.\<close>

theorem valid_pointer_iff:
  "valid_pointer p \<longleftrightarrow> (\<exists>q. p = CHR ''/'' # q)
     \<and> {i. i < length p \<and> p ! i = CHR ''~''}
       \<subseteq> {i. Suc i < length p \<and> (p ! Suc i = CHR ''0'' \<or> p ! Suc i = CHR ''1'')}"
  by (cases p) (auto simp: valid_pointer_def pointer_bytes_iff)

end
