(* ===== verification/Http_Retry.thy ===== *)
theory Http_Retry
  imports Rust_Str
begin

text \<open>
  Retrying an HTTP request, from crates/llm-providers/kraai-provider-core http_retry.rs and the
  request context it reads (request_context.rs). Durations and instants are nanoseconds. What the
  code learns from outside in one attempt is a record: the readings of the clocks, what other
  requests did to the shared cooldown, the observer's verdict, the server's reply and the random
  percentage. The last instant the clock can represent, floating-point jitter and the HTTP date parser
  are parameters: adding a duration past that instant panics, and so does a jittered duration too long
  for a \<open>Duration\<close>, for which the jitter is \<open>None\<close>.
\<close>

section \<open>Durations\<close>

definition nanos :: "nat \<Rightarrow> nat" where
  "nanos secs = secs * 1000000000"

definition duration_max :: nat where
  "duration_max = nanos u64_max + 999999999"

record http_retry_policy =
  policy_max_attempts :: nat
  initial_backoff :: nat
  max_delay :: nat
  max_elapsed :: nat

definition DEFAULT_HTTP_RETRY_POLICY :: http_retry_policy where
  "DEFAULT_HTTP_RETRY_POLICY =
     \<lparr>policy_max_attempts = 10, initial_backoff = nanos 1, max_delay = nanos 15,
      max_elapsed = nanos 300\<rparr>"

definition backoff_for_retry :: "http_retry_policy \<Rightarrow> nat \<Rightarrow> nat" where
  "backoff_for_retry policy retry_number =
     (let exponent = sat_sub retry_number 1;
          multiplier = (if 31 \<le> exponent then u32_max else 2 ^ exponent)
      in min (case checked_mul duration_max (initial_backoff policy) multiplier of
                None \<Rightarrow> duration_max | Some d \<Rightarrow> d)
           (max_delay policy))"

definition jittered_backoff_for_retry ::
  "(nat \<Rightarrow> nat \<Rightarrow> nat option) \<Rightarrow> nat \<Rightarrow> http_retry_policy \<Rightarrow> nat \<Rightarrow> nat option" where
  "jittered_backoff_for_retry jitter percent policy retry_number =
     map_option (\<lambda>d. min d (max_delay policy)) (jitter (backoff_for_retry policy retry_number) percent)"

section \<open>The shared cooldown\<close>

definition cooldown_remaining :: "nat option \<Rightarrow> nat \<Rightarrow> nat" where
  "cooldown_remaining until now = (case until of None \<Rightarrow> 0 | Some u \<Rightarrow> sat_sub u now)"

definition cooldown_defer_to :: "nat \<Rightarrow> nat option \<Rightarrow> nat option" where
  "cooldown_defer_to u until =
     (if (case until of None \<Rightarrow> True | Some current \<Rightarrow> current < u) then Some u else until)"

text \<open>\<open>None\<close>: the addition of the delay to the present instant overflows and panics.\<close>

definition cooldown_defer :: "nat \<Rightarrow> nat option \<Rightarrow> nat \<Rightarrow> nat \<Rightarrow> nat option option" where
  "cooldown_defer latest until now delay =
     map_option (\<lambda>u. cooldown_defer_to u until) (checked_add latest now delay)"

section \<open>The request context\<close>

text \<open>The observer is present or not, and so is the cooldown; the image resolver is not used here.\<close>

record provider_request_context =
  has_retry_observer :: bool
  prompt_cache_key :: "string option"
  context_max_attempts :: "nat option"
  has_cooldown :: bool

definition request_context_new :: "bool \<Rightarrow> provider_request_context" where
  "request_context_new retry_observer =
     \<lparr>has_retry_observer = retry_observer, prompt_cache_key = None, context_max_attempts = None,
      has_cooldown = False\<rparr>"

definition with_prompt_cache_key :: "string \<Rightarrow> provider_request_context" where
  "with_prompt_cache_key key = (request_context_new False)\<lparr>prompt_cache_key := Some key\<rparr>"

definition with_retry_observer_and_prompt_cache_key :: "string \<Rightarrow> provider_request_context" where
  "with_retry_observer_and_prompt_cache_key key =
     (request_context_new True)\<lparr>prompt_cache_key := Some key\<rparr>"

definition with_max_attempts :: "provider_request_context \<Rightarrow> nat \<Rightarrow> provider_request_context" where
  "with_max_attempts ctx n = ctx\<lparr>context_max_attempts := Some (max n 1)\<rparr>"

definition request_context_ok :: "provider_request_context \<Rightarrow> bool" where
  "request_context_ok ctx = (context_max_attempts ctx \<noteq> Some 0)"

section \<open>Replies\<close>

text \<open>A response as far as the code reads it: the status and the raw \<open>Retry-After\<close> header.\<close>

record http_response =
  response_status :: nat
  retry_after_header :: "string option"

text \<open>What \<open>reqwest::Error\<close> answers.\<close>

record http_error =
  err_timeout :: bool
  err_connect :: bool
  err_request :: bool
  err_status :: "nat option"
  err_body :: bool
  err_decode :: bool
  err_builder :: bool
  err_redirect :: bool
  err_text :: string

definition is_server_error :: "nat \<Rightarrow> bool" where
  "is_server_error s = (500 \<le> s \<and> s \<le> 599)"

definition is_retryable_status :: "nat \<Rightarrow> bool" where
  "is_retryable_status s = (s = 408 \<or> s = 409 \<or> s = 429 \<or> is_server_error s)"

definition is_retryable_error :: "http_error \<Rightarrow> bool" where
  "is_retryable_error e =
     (err_timeout e \<or> err_connect e
      \<or> err_request e \<and> err_status e = None \<and> \<not> err_body e \<and> \<not> err_decode e
        \<and> \<not> err_builder e \<and> \<not> err_redirect e)"

text \<open>\<open>HeaderValue::to_str\<close> accepts visible ASCII and tabs only, where \<open>trim\<close> works byte by byte.\<close>

definition header_to_str :: "string \<Rightarrow> string option" where
  "header_to_str h = (if list_all (\<lambda>c. 32 \<le> byte c \<and> byte c < 127 \<or> byte c = 9) h then Some h else None)"

definition ascii_trim :: "string \<Rightarrow> string" where
  "ascii_trim s = rev (trim_start (rev (trim_start s)))"

definition parse_retry_after ::
  "(string \<Rightarrow> nat option) \<Rightarrow> nat \<Rightarrow> http_response \<Rightarrow> nat option" where
  "parse_retry_after http_date now response =
     Option.bind (retry_after_header response) (\<lambda>header.
     Option.bind (header_to_str header) (\<lambda>str.
       let raw = ascii_trim str in
       if raw = [] then None
       else (case parse_u64 raw of
               Some seconds \<Rightarrow> Some (nanos seconds)
             | None \<Rightarrow> map_option (\<lambda>retry_at. sat_sub retry_at now) (http_date raw))))"

section \<open>One attempt\<close>

datatype http_reply = Reply http_response | Failure http_error

record attempt_env =
  others_deferred :: "nat list"
  cooldown_read_at :: nat
  cooldown_checked_at :: nat
  observer_verdict :: "(string, unit) result"
  reply :: http_reply
  system_now :: nat
  deferred_at :: nat
  replied_at :: nat
  jitter_percent :: nat

datatype retry_outcome =
    GotResponse http_response
  | TransportFailed http_error
  | RateLimited string nat
  | ObserverFailed string
  | Panicked
  | Unreachable

text \<open>What the outside sees, with the time since the start where a delay is chosen.\<close>

datatype retry_event =
    CooldownSleep nat nat
  | BeforeAttempt nat
  | RequestSent
  | RetryScheduled string nat nat string
  | RetrySleep nat nat

record retry_state =
  cooldown_until :: "nat option"
  unpriced_prior_attempts :: nat
  retry_trace :: "retry_event list"

text \<open>One call: its arguments, its start and the functions outside the repository it uses.\<close>

record retry_call =
  call_operation :: string
  call_policy :: http_retry_policy
  call_context :: provider_request_context
  call_started :: nat
  latest_instant :: nat
  apply_jitter :: "nat \<Rightarrow> nat \<Rightarrow> nat option"
  parse_http_date :: "string \<Rightarrow> nat option"
  status_text :: "nat \<Rightarrow> string"

definition emit :: "retry_event \<Rightarrow> retry_state \<Rightarrow> retry_state" where
  "emit e st = st\<lparr>retry_trace := retry_trace st @ [e]\<rparr>"

definition retry_fits_budget :: "http_retry_policy \<Rightarrow> nat \<Rightarrow> nat \<Rightarrow> bool" where
  "retry_fits_budget policy elapsed delay =
     (case checked_add duration_max elapsed delay of None \<Rightarrow> False | Some t \<Rightarrow> t \<le> max_elapsed policy)"

definition notify_retry ::
  "provider_request_context \<Rightarrow> string \<Rightarrow> nat \<Rightarrow> nat \<Rightarrow> string \<Rightarrow> retry_state \<Rightarrow> retry_state" where
  "notify_retry ctx operation retry_number delay reason st =
     (if has_retry_observer ctx then emit (RetryScheduled operation retry_number delay reason) st
      else st)"

text \<open>Waiting for the cooldown and asking the observer; \<open>Inl\<close> returns from the request.\<close>

definition begin_attempt ::
  "retry_call \<Rightarrow> attempt_env \<Rightarrow> retry_state \<Rightarrow> (retry_outcome \<times> retry_state, retry_state) result" where
  "begin_attempt call env st0 =
     (let ctx = call_context call;
          st = st0\<lparr>cooldown_until := fold cooldown_defer_to (others_deferred env) (cooldown_until st0)\<rparr>;
          remaining = cooldown_remaining (cooldown_until st) (cooldown_read_at env);
          elapsed = cooldown_checked_at env - call_started call;
          st' = (if has_cooldown ctx then emit (CooldownSleep elapsed remaining) st else st)
      in if has_cooldown ctx \<and> \<not> retry_fits_budget (call_policy call) elapsed remaining
         then Inl (RateLimited (call_operation call @ '' is paused by an earlier rate limit'') remaining, st)
         else if has_retry_observer ctx then
           (let st'' = emit (BeforeAttempt (unpriced_prior_attempts st')) st' in
            case observer_verdict env of
              Inl e \<Rightarrow> Inl (ObserverFailed e, st'')
            | Inr _ \<Rightarrow> Inr (emit RequestSent st''))
         else Inr (emit RequestSent st'))"

text \<open>A retry is announced and the delay slept through.\<close>

definition schedule_retry ::
  "retry_call \<Rightarrow> nat \<Rightarrow> nat \<Rightarrow> nat \<Rightarrow> string \<Rightarrow> bool \<Rightarrow> retry_state \<Rightarrow> retry_state" where
  "schedule_retry call retry_number elapsed delay reason unpriced st =
     emit (RetrySleep elapsed delay)
       (notify_retry (call_context call) (call_operation call) retry_number delay reason
         (if unpriced then st\<lparr>unpriced_prior_attempts := unpriced_prior_attempts st + 1\<rparr> else st))"

definition note_cooldown ::
  "retry_call \<Rightarrow> attempt_env \<Rightarrow> http_response \<Rightarrow> nat option \<Rightarrow> retry_state \<Rightarrow> retry_state option" where
  "note_cooldown call env response retry_after st =
     (case retry_after of
        Some after \<Rightarrow>
          if has_cooldown (call_context call)
            \<and> (response_status response = 429 \<or> response_status response = 503)
          then map_option (\<lambda>until. st\<lparr>cooldown_until := until\<rparr>)
                 (cooldown_defer (latest_instant call) (cooldown_until st) (deferred_at env) after)
          else Some st
      | None \<Rightarrow> Some st)"

definition handle_response ::
  "retry_call \<Rightarrow> nat \<Rightarrow> nat \<Rightarrow> attempt_env \<Rightarrow> http_response \<Rightarrow> retry_state
    \<Rightarrow> (retry_outcome \<times> retry_state, retry_state) result" where
  "handle_response call max_attempts attempt_number env response st0 =
     (let retry_after = parse_retry_after (parse_http_date call) (system_now env) response;
          status = response_status response
      in case note_cooldown call env response retry_after st0 of
        None \<Rightarrow> Inl (Panicked, st0)
      | Some st \<Rightarrow>
         if \<not> is_retryable_status status \<or> max_attempts \<le> attempt_number
         then Inl (GotResponse response, st)
         else
           (case jittered_backoff_for_retry (apply_jitter call) (jitter_percent env)
                   (call_policy call) attempt_number of
              None \<Rightarrow> Inl (Panicked, st)
            | Some backoff \<Rightarrow>
               (let delay = (case retry_after of None \<Rightarrow> backoff | Some after \<Rightarrow> max after backoff);
                    elapsed = replied_at env - call_started call
                in if \<not> retry_fits_budget (call_policy call) elapsed delay
                   then Inl (GotResponse response, st)
                   else Inr (schedule_retry call attempt_number elapsed delay
                          (''HTTP '' @ status_text call status) (is_server_error status \<or> status = 408) st))))"

definition handle_error ::
  "retry_call \<Rightarrow> nat \<Rightarrow> nat \<Rightarrow> attempt_env \<Rightarrow> http_error \<Rightarrow> retry_state
    \<Rightarrow> (retry_outcome \<times> retry_state, retry_state) result" where
  "handle_error call max_attempts attempt_number env error st =
     (if \<not> is_retryable_error error \<or> max_attempts \<le> attempt_number
      then Inl (TransportFailed error, st)
      else
        (case jittered_backoff_for_retry (apply_jitter call) (jitter_percent env)
                (call_policy call) attempt_number of
           None \<Rightarrow> Inl (Panicked, st)
         | Some delay \<Rightarrow>
            (let elapsed = replied_at env - call_started call
             in if \<not> retry_fits_budget (call_policy call) elapsed delay
                then Inl (TransportFailed error, st)
                else Inr (schedule_retry call attempt_number elapsed delay
                       (err_text error) (\<not> err_connect error) st))))"

definition run_attempt ::
  "retry_call \<Rightarrow> nat \<Rightarrow> nat \<Rightarrow> attempt_env \<Rightarrow> retry_state
    \<Rightarrow> (retry_outcome \<times> retry_state, retry_state) result" where
  "run_attempt call max_attempts attempt_number env st =
     bindR (begin_attempt call env st) (\<lambda>st'.
       case reply env of
         Reply response \<Rightarrow> handle_response call max_attempts attempt_number env response st'
       | Failure error \<Rightarrow> handle_error call max_attempts attempt_number env error st')"

section \<open>The loop\<close>

fun retry_loop ::
  "retry_call \<Rightarrow> nat \<Rightarrow> (nat \<Rightarrow> attempt_env) \<Rightarrow> retry_state \<Rightarrow> nat list \<Rightarrow> retry_outcome \<times> retry_state" where
  "retry_loop call max_attempts env st [] = (Unreachable, st)"
| "retry_loop call max_attempts env st (attempt_number # rest) =
     (case run_attempt call max_attempts attempt_number (env attempt_number) st of
        Inl ret \<Rightarrow> ret
      | Inr st' \<Rightarrow> retry_loop call max_attempts env st' rest)"

definition allowed_attempts :: "http_retry_policy \<Rightarrow> provider_request_context \<Rightarrow> nat" where
  "allowed_attempts policy ctx =
     min (max (policy_max_attempts policy) 1)
       (case context_max_attempts ctx of None \<Rightarrow> u32_max | Some n \<Rightarrow> n)"

definition send_with_retry ::
  "retry_call \<Rightarrow> (nat \<Rightarrow> attempt_env) \<Rightarrow> nat option \<Rightarrow> retry_outcome \<times> retry_state" where
  "send_with_retry call env until =
     (let max_attempts = allowed_attempts (call_policy call) (call_context call)
      in retry_loop call max_attempts env
           \<lparr>cooldown_until = until, unpriced_prior_attempts = 0, retry_trace = []\<rparr>
           [1..<Suc max_attempts])"

section \<open>What a call does\<close>

definition sends :: "retry_event list \<Rightarrow> nat" where
  "sends tr = length (filter (\<lambda>e. e = RequestSent) tr)"

definition within_budget :: "http_retry_policy \<Rightarrow> retry_event \<Rightarrow> bool" where
  "within_budget policy e = (case e of
     CooldownSleep t d \<Rightarrow> t + d \<le> max_elapsed policy
   | RetrySleep t d \<Rightarrow> t + d \<le> max_elapsed policy
   | _ \<Rightarrow> True)"

definition before_counts :: "retry_event list \<Rightarrow> nat list" where
  "before_counts tr = List.map_filter (\<lambda>e. case e of BeforeAttempt n \<Rightarrow> Some n | _ \<Rightarrow> None) tr"

definition retryable_reply :: "http_reply \<Rightarrow> bool" where
  "retryable_reply r = (case r of
     Reply response \<Rightarrow> is_retryable_status (response_status response)
   | Failure error \<Rightarrow> is_retryable_error error)"

text \<open>An attempt the server may have worked on, and billed, without a priced answer.\<close>

definition maybe_billed :: "http_reply \<Rightarrow> bool" where
  "maybe_billed r = (case r of
     Reply response \<Rightarrow> is_server_error (response_status response) \<or> response_status response = 408
   | Failure error \<Rightarrow> \<not> err_connect error)"

definition cooldown_le :: "nat option \<Rightarrow> nat option \<Rightarrow> bool" where
  "cooldown_le a b = (case a of None \<Rightarrow> True | Some u \<Rightarrow> (case b of None \<Rightarrow> False | Some v \<Rightarrow> u \<le> v))"

definition outcome_reply :: "retry_outcome \<Rightarrow> http_reply option" where
  "outcome_reply out = (case out of
     GotResponse r \<Rightarrow> Some (Reply r) | TransportFailed e \<Rightarrow> Some (Failure e) | _ \<Rightarrow> None)"

text \<open>Whether the request ended before the attempt was sent.\<close>

definition ended_early :: "retry_outcome \<Rightarrow> bool" where
  "ended_early out = (case out of RateLimited _ _ \<Rightarrow> True | ObserverFailed _ \<Rightarrow> True | _ \<Rightarrow> False)"

text \<open>The delay before the next attempt, were there one.\<close>

definition next_delay :: "retry_call \<Rightarrow> nat \<Rightarrow> attempt_env \<Rightarrow> nat option" where
  "next_delay call n env =
     map_option (\<lambda>backoff. case reply env of
           Reply response \<Rightarrow>
             (case parse_retry_after (parse_http_date call) (system_now env) response of
                None \<Rightarrow> backoff | Some after \<Rightarrow> max after backoff)
         | Failure _ \<Rightarrow> backoff)
       (jittered_backoff_for_retry (apply_jitter call) (jitter_percent env) (call_policy call) n)"

text \<open>The pause before another attempt would end after the budget.\<close>

definition over_budget :: "retry_call \<Rightarrow> nat \<Rightarrow> attempt_env \<Rightarrow> bool" where
  "over_budget call n env = (case next_delay call n env of
     None \<Rightarrow> False
   | Some d \<Rightarrow> \<not> retry_fits_budget (call_policy call) (replied_at env - call_started call) d)"

text \<open>A rate limit whose \<open>Retry-After\<close> no instant can hold.\<close>

definition unholdable_pause :: "retry_call \<Rightarrow> attempt_env \<Rightarrow> bool" where
  "unholdable_pause call env =
     (has_cooldown (call_context call)
      \<and> (case reply env of
           Reply response \<Rightarrow>
             (response_status response = 429 \<or> response_status response = 503)
             \<and> (case parse_retry_after (parse_http_date call) (system_now env) response of
                  None \<Rightarrow> False | Some after \<Rightarrow> latest_instant call < deferred_at env + after)
         | Failure _ \<Rightarrow> False))"

lemma sends_simps [simp]:
  "sends [] = 0" "sends (e # es) = (if e = RequestSent then Suc (sends es) else sends es)"
  "sends (xs @ ys) = sends xs + sends ys"
  by (simp_all add: sends_def)

lemma before_counts_simps [simp]:
  "before_counts [] = []"
  "before_counts (e # es) = (case e of BeforeAttempt n \<Rightarrow> n # before_counts es | _ \<Rightarrow> before_counts es)"
  "before_counts (xs @ ys) = before_counts xs @ before_counts ys"
  by (simp_all add: before_counts_def List.map_filter_def split: retry_event.split)

lemma cooldown_le_refl [simp]: "cooldown_le a a"
  by (simp add: cooldown_le_def split: option.split)

lemma cooldown_le_trans: "cooldown_le a b \<Longrightarrow> cooldown_le b c \<Longrightarrow> cooldown_le a c"
  by (auto simp: cooldown_le_def split: option.splits)

lemma cooldown_le_defer: "cooldown_le a (cooldown_defer_to u a)" "cooldown_le (Some u) (cooldown_defer_to u a)"
  by (auto simp: cooldown_le_def cooldown_defer_to_def split: option.splits if_splits)

lemma cooldown_le_fold:
  "cooldown_le a (fold cooldown_defer_to us a)"
  "u \<in> set us \<Longrightarrow> cooldown_le (Some u) (fold cooldown_defer_to us a)"
proof (induction us arbitrary: a)
  case (Cons v us)
  case 1
  show ?case
    using cooldown_le_trans[OF cooldown_le_defer(1) Cons.IH(1)] by simp
  case 2
  show ?case
  proof (cases "u = v")
    case True
    then show ?thesis using cooldown_le_trans[OF cooldown_le_defer(2) Cons.IH(1)] by simp
  next
    case False
    then show ?thesis using 2 Cons.IH(2) by simp
  qed
qed simp_all

lemma fits_budget_iff:
  "retry_fits_budget policy t d \<longleftrightarrow> t + d \<le> max_elapsed policy \<and> t + d \<le> duration_max"
  by (auto simp: retry_fits_budget_def checked_add_def)

lemma backoff_le: "backoff_for_retry policy n \<le> max_delay policy"
  by (simp add: backoff_for_retry_def Let_def)

lemma jittered_backoff_le: "jittered_backoff_for_retry jitter percent policy n = Some d \<Longrightarrow> d \<le> max_delay policy"
  by (auto simp: jittered_backoff_for_retry_def)

text \<open>The part of the trace one attempt adds.\<close>

definition grows :: "(retry_event list \<Rightarrow> bool) \<Rightarrow> retry_state \<Rightarrow> retry_state \<Rightarrow> bool" where
  "grows P st st' = (\<exists>xs. retry_trace st' = retry_trace st @ xs \<and> P xs)"

lemma begin_attempt_Inr:
  assumes "begin_attempt call env st = Inr st'"
  shows "grows (\<lambda>xs. sends xs = 1 \<and> list_all (within_budget (call_policy call)) xs \<and>
      before_counts xs =
        (if has_retry_observer (call_context call) then [unpriced_prior_attempts st] else [])) st st'
    \<and> unpriced_prior_attempts st' = unpriced_prior_attempts st
    \<and> cooldown_until st' = fold cooldown_defer_to (others_deferred env) (cooldown_until st)"
  using assms
  by (auto simp: begin_attempt_def Let_def grows_def emit_def within_budget_def fits_budget_iff
      split: if_splits sum.splits)

lemma begin_attempt_Inl:
  assumes "begin_attempt call env st = Inl (out, st')"
  shows "grows (\<lambda>xs. sends xs = 0 \<and> list_all (within_budget (call_policy call)) xs \<and>
      (before_counts xs = [] \<or>
        has_retry_observer (call_context call) \<and> before_counts xs = [unpriced_prior_attempts st])) st st'
    \<and> cooldown_until st' = fold cooldown_defer_to (others_deferred env) (cooldown_until st)
    \<and> outcome_reply out = None \<and> ended_early out"
  using assms
  by (auto simp: begin_attempt_def Let_def grows_def emit_def within_budget_def fits_budget_iff
      outcome_reply_def ended_early_def split: if_splits sum.splits)

lemma note_cooldown_facts:
  assumes "note_cooldown call env r a st = Some st'"
  shows "retry_trace st' = retry_trace st" "unpriced_prior_attempts st' = unpriced_prior_attempts st"
    "cooldown_le (cooldown_until st) (cooldown_until st')"
  using assms
  by (auto simp: note_cooldown_def cooldown_defer_def cooldown_le_defer split: option.splits if_splits)

lemma note_cooldown_panics:
  "note_cooldown call env r a st = None \<longleftrightarrow>
     has_cooldown (call_context call) \<and> (response_status r = 429 \<or> response_status r = 503)
     \<and> (\<exists>after. a = Some after \<and> latest_instant call < deferred_at env + after)"
  by (auto simp: note_cooldown_def cooldown_defer_def checked_add_def split: option.split)

lemma schedule_retry_facts:
  "cooldown_until (schedule_retry call n t d why billed st) = cooldown_until st"
  "unpriced_prior_attempts (schedule_retry call n t d why billed st) =
     unpriced_prior_attempts st + (if billed then 1 else 0)"
  "\<exists>xs. retry_trace (schedule_retry call n t d why billed st) = retry_trace st @ xs @ [RetrySleep t d]
     \<and> sends xs = 0 \<and> before_counts xs = [] \<and> list_all (within_budget policy) xs"
  by (auto simp: schedule_retry_def notify_retry_def emit_def within_budget_def)

abbreviation handle_reply ::
  "retry_call \<Rightarrow> nat \<Rightarrow> nat \<Rightarrow> attempt_env \<Rightarrow> retry_state \<Rightarrow> (retry_outcome \<times> retry_state, retry_state) result" where
  "handle_reply call m n env st \<equiv>
     (case reply env of
        Reply response \<Rightarrow> handle_response call m n env response st
      | Failure error \<Rightarrow> handle_error call m n env error st)"

definition ends_in_sleep :: "http_retry_policy \<Rightarrow> nat \<Rightarrow> nat \<Rightarrow> retry_event list \<Rightarrow> bool" where
  "ends_in_sleep policy t d xs =
     ((\<exists>ys. xs = ys @ [RetrySleep t d]) \<and> sends xs = 0 \<and> before_counts xs = []
      \<and> list_all (within_budget policy) xs)"

lemma handle_reply_Inr:
  assumes "handle_reply call m n env st = Inr st'"
  shows "retryable_reply (reply env) \<and> n < m
    \<and> (\<exists>t d. next_delay call n env = Some d \<and> grows (ends_in_sleep (call_policy call) t d) st st')
    \<and> unpriced_prior_attempts st' =
        unpriced_prior_attempts st + (if maybe_billed (reply env) then 1 else 0)
    \<and> cooldown_le (cooldown_until st) (cooldown_until st')"
proof -
  have ex: "grows (ends_in_sleep (call_policy call) t d) s
       (schedule_retry call n t d why billed s)"
    if "retry_fits_budget (call_policy call) t d" for t d why billed s
    using schedule_retry_facts(3)[of call n t d why billed s "call_policy call"] that
    by (auto simp: grows_def ends_in_sleep_def within_budget_def fits_budget_iff)
  show ?thesis
  proof (cases "reply env")
    case (Reply response)
    let ?a = "parse_retry_after (parse_http_date call) (system_now env) response"
    let ?t = "replied_at env - call_started call"
    obtain s d where s: "note_cooldown call env response ?a st = Some s"
      and d: "next_delay call n env = Some d" "st' = schedule_retry call n ?t d
        (''HTTP '' @ status_text call (response_status response)) (maybe_billed (reply env)) s"
      and f: "retry_fits_budget (call_policy call) ?t d"
      and r: "retryable_reply (reply env)" "n < m"
      using assms Reply
      by (auto simp: handle_response_def next_delay_def Let_def retryable_reply_def maybe_billed_def
          split: if_splits option.splits)
    have "grows (ends_in_sleep (call_policy call) ?t d) s st'"
      unfolding d by (rule ex[OF f])
    then have "grows (ends_in_sleep (call_policy call) ?t d) st st'"
      by (simp add: grows_def note_cooldown_facts[OF s])
    then show ?thesis
      using r d(1) note_cooldown_facts[OF s] unfolding d(2) by (auto simp: schedule_retry_facts)
  next
    case (Failure error)
    let ?t = "replied_at env - call_started call"
    obtain d where d: "next_delay call n env = Some d"
        "st' = schedule_retry call n ?t d (err_text error) (maybe_billed (reply env)) st"
      and f: "retry_fits_budget (call_policy call) ?t d"
      and r: "retryable_reply (reply env)" "n < m"
      using assms Failure
      by (auto simp: handle_error_def next_delay_def Let_def retryable_reply_def maybe_billed_def
          split: if_splits option.splits)
    have "grows (ends_in_sleep (call_policy call) ?t d) st st'"
      unfolding d by (rule ex[OF f])
    then show ?thesis
      using r d(1) unfolding d(2) by (auto simp: schedule_retry_facts)
  qed
qed

text \<open>How an attempt that was sent can end the request.\<close>

definition final_outcome :: "retry_call \<Rightarrow> nat \<Rightarrow> nat \<Rightarrow> attempt_env \<Rightarrow> retry_outcome \<Rightarrow> bool" where
  "final_outcome call m n env out =
     (if out = Panicked
      then unholdable_pause call env \<or> retryable_reply (reply env) \<and> n < m \<and> next_delay call n env = None
      else outcome_reply out = Some (reply env)
        \<and> (\<not> retryable_reply (reply env) \<or> m \<le> n \<or> over_budget call n env))"

lemma handle_reply_Inl:
  assumes "handle_reply call m n env st = Inl (out, st')"
  shows "final_outcome call m n env out \<and> \<not> ended_early out \<and> out \<noteq> Unreachable \<and> retry_trace st' = retry_trace st
    \<and> cooldown_le (cooldown_until st) (cooldown_until st')"
proof (cases "reply env")
  case (Failure error)
  then show ?thesis
    using assms
    by (auto simp: handle_error_def Let_def outcome_reply_def ended_early_def final_outcome_def retryable_reply_def
        over_budget_def next_delay_def split: if_splits option.splits)
next
  case (Reply response)
  let ?a = "parse_retry_after (parse_http_date call) (system_now env) response"
  show ?thesis
  proof (cases "note_cooldown call env response ?a st")
    case None
    then show ?thesis
      using assms Reply note_cooldown_panics[of call env response ?a st]
      by (auto simp: handle_response_def Let_def final_outcome_def ended_early_def unholdable_pause_def)
  next
    case (Some s)
    then show ?thesis
      using assms Reply note_cooldown_facts[OF Some]
      by (auto simp: handle_response_def Let_def outcome_reply_def ended_early_def final_outcome_def
          retryable_reply_def over_budget_def next_delay_def split: if_splits option.splits)
  qed
qed

section \<open>The whole call\<close>

definition billed_between :: "(nat \<Rightarrow> attempt_env) \<Rightarrow> nat \<Rightarrow> nat \<Rightarrow> nat" where
  "billed_between env n k = length (filter (\<lambda>j. maybe_billed (reply (env j))) [n..<k])"

text \<open>An attempt as a whole, in the two ways it can end.\<close>

lemma run_attempt_Inr:
  assumes "run_attempt call m n env st = Inr st'"
  shows "retryable_reply (reply env) \<and> n < m
    \<and> grows (\<lambda>xs. sends xs = 1 \<and> list_all (within_budget (call_policy call)) xs \<and>
        before_counts xs =
          (if has_retry_observer (call_context call) then [unpriced_prior_attempts st] else [])) st st'
    \<and> unpriced_prior_attempts st' =
        unpriced_prior_attempts st + (if maybe_billed (reply env) then 1 else 0)
    \<and> cooldown_le (cooldown_until st) (cooldown_until st')"
proof -
  obtain st1 where b: "begin_attempt call env st = Inr st1" and h: "handle_reply call m n env st1 = Inr st'"
    using assms by (auto simp: run_attempt_def result_simps)
  note B = begin_attempt_Inr[OF b] and H = handle_reply_Inr[OF h]
  have "cooldown_le (cooldown_until st) (cooldown_until st')"
    using B H cooldown_le_fold(1)[of "cooldown_until st"] by (metis cooldown_le_trans)
  then show ?thesis
    using B H by (auto simp: grows_def ends_in_sleep_def)
qed

lemma run_attempt_Inl:
  assumes "run_attempt call m n env st = Inl (out, st')"
  shows "out \<noteq> Unreachable
    \<and> grows (\<lambda>xs. sends xs = (if ended_early out then 0 else 1)
        \<and> list_all (within_budget (call_policy call)) xs
        \<and> (before_counts xs = [] \<or> before_counts xs = [unpriced_prior_attempts st])) st st'
    \<and> cooldown_le (cooldown_until st) (cooldown_until st')
    \<and> (ended_early out \<or> final_outcome call m n env out)"
proof (cases "begin_attempt call env st")
  case (Inl ret)
  then have b: "begin_attempt call env st = Inl (out, st')"
    using assms by (simp add: run_attempt_def)
  show ?thesis
    using begin_attempt_Inl[OF b] cooldown_le_fold(1)[of "cooldown_until st"]
    by (auto simp: grows_def ended_early_def)
next
  case (Inr st1)
  then have h: "handle_reply call m n env st1 = Inl (out, st')"
    using assms by (simp add: run_attempt_def)
  note B = begin_attempt_Inr[OF Inr] and H = handle_reply_Inl[OF h]
  have "cooldown_le (cooldown_until st) (cooldown_until st')"
    using B H cooldown_le_fold(1)[of "cooldown_until st"] by (metis cooldown_le_trans)
  then show ?thesis
    using B H by (auto simp: grows_def)
qed

text \<open>What the call has done when it returns at attempt \<open>k\<close>, started at attempt \<open>n\<close>.\<close>

definition call_report ::
  "retry_call \<Rightarrow> nat \<Rightarrow> (nat \<Rightarrow> attempt_env) \<Rightarrow> nat \<Rightarrow> retry_state \<Rightarrow> nat \<Rightarrow> retry_outcome \<Rightarrow> retry_state \<Rightarrow> bool" where
  "call_report call m env n st k out st' =
     (n \<le> k \<and> k \<le> m \<and> out \<noteq> Unreachable
      \<and> (\<forall>j. n \<le> j \<and> j < k \<longrightarrow> retryable_reply (reply (env j)))
      \<and> grows (\<lambda>xs. sends xs = (if ended_early out then k - n else Suc k - n)
          \<and> list_all (within_budget (call_policy call)) xs
          \<and> (has_retry_observer (call_context call) \<longrightarrow>
              (\<exists>e. (e = k \<or> e = Suc k) \<and> before_counts xs =
                 map (\<lambda>j. unpriced_prior_attempts st + billed_between env n j) [n..<e]))) st st'
      \<and> cooldown_le (cooldown_until st) (cooldown_until st')
      \<and> (ended_early out \<or> final_outcome call m k (env k) out))"

lemma billed_between_step:
  "n < j \<Longrightarrow> billed_between env n j = (if maybe_billed (reply (env n)) then 1 else 0) + billed_between env (Suc n) j"
  by (simp add: billed_between_def upt_conv_Cons)

lemma call_report_now:
  assumes "run_attempt call m n (env n) st = Inl (out, st')" "n \<le> m"
  shows "call_report call m env n st n out st'"
proof -
  have "\<exists>e. (e = n \<or> e = Suc n) \<and>
      bs = map (\<lambda>j. unpriced_prior_attempts st + billed_between env n j) [n..<e]"
    if "bs = [] \<or> bs = [unpriced_prior_attempts st]" for bs
    using that by (elim disjE; intro exI[of _ "if bs = [] then n else Suc n"])
      (auto simp: billed_between_def)
  note counts = this and A = run_attempt_Inl[OF assms(1)]
  obtain xs where xs: "retry_trace st' = retry_trace st @ xs"
      "sends xs = (if ended_early out then 0 else 1)"
      "list_all (within_budget (call_policy call)) xs"
      "before_counts xs = [] \<or> before_counts xs = [unpriced_prior_attempts st]"
    using A by (auto simp: grows_def)
  have "grows (\<lambda>xs. sends xs = (if ended_early out then n - n else Suc n - n)
          \<and> list_all (within_budget (call_policy call)) xs
          \<and> (has_retry_observer (call_context call) \<longrightarrow>
              (\<exists>e. (e = n \<or> e = Suc n) \<and> before_counts xs =
                 map (\<lambda>j. unpriced_prior_attempts st + billed_between env n j) [n..<e]))) st st'"
    unfolding grows_def using xs(1,2,3) counts[OF xs(4)] by (intro exI[of _ xs]) simp
  then show ?thesis
    using A assms(2) unfolding call_report_def by (auto simp only: order_refl)
qed

lemma call_report_later:
  assumes "call_report call m env (Suc n) st1 k out st'"
    and "run_attempt call m n (env n) st = Inr st1"
  shows "call_report call m env n st k out st'"
proof -
  note A = run_attempt_Inr[OF assms(2)]
  obtain xs where xs: "retry_trace st1 = retry_trace st @ xs" "sends xs = 1"
      "list_all (within_budget (call_policy call)) xs"
      "has_retry_observer (call_context call) \<Longrightarrow> before_counts xs = [unpriced_prior_attempts st]"
    using A by (auto simp: grows_def)
  obtain ys where ys: "retry_trace st' = retry_trace st1 @ ys"
      "sends ys = (if ended_early out then k - Suc n else Suc k - Suc n)"
      "list_all (within_budget (call_policy call)) ys"
      "has_retry_observer (call_context call) \<Longrightarrow>
        \<exists>e. (e = k \<or> e = Suc k) \<and> before_counts ys =
          map (\<lambda>j. unpriced_prior_attempts st1 + billed_between env (Suc n) j) [Suc n..<e]"
    using assms(1) by (auto simp: call_report_def grows_def)
  have k: "Suc n \<le> k" using assms(1) by (simp add: call_report_def)
  have counts: "\<exists>e. (e = k \<or> e = Suc k) \<and> before_counts (xs @ ys) =
      map (\<lambda>j. unpriced_prior_attempts st + billed_between env n j) [n..<e]"
    if obs: "has_retry_observer (call_context call)"
  proof -
    obtain e where e: "e = k \<or> e = Suc k" "before_counts ys =
        map (\<lambda>j. unpriced_prior_attempts st1 + billed_between env (Suc n) j) [Suc n..<e]"
      using ys(4)[OF obs] by blast
    have "map (\<lambda>j. unpriced_prior_attempts st1 + billed_between env (Suc n) j) [Suc n..<e] =
        map (\<lambda>j. unpriced_prior_attempts st + billed_between env n j) [Suc n..<e]"
      using A by (auto simp: billed_between_step)
    moreover have "[n..<e] = n # [Suc n..<e]" using e(1) k by (auto intro: upt_conv_Cons)
    moreover have "billed_between env n n = 0" by (simp add: billed_between_def)
    ultimately have "before_counts (xs @ ys) =
        map (\<lambda>j. unpriced_prior_attempts st + billed_between env n j) [n..<e]"
      using e(2) xs(4)[OF obs] by simp
    then show ?thesis using e(1) by blast
  qed
  have "grows (\<lambda>xs. sends xs = (if ended_early out then k - n else Suc k - n)
          \<and> list_all (within_budget (call_policy call)) xs
          \<and> (has_retry_observer (call_context call) \<longrightarrow>
              (\<exists>e. (e = k \<or> e = Suc k) \<and> before_counts xs =
                 map (\<lambda>j. unpriced_prior_attempts st + billed_between env n j) [n..<e]))) st st'"
    unfolding grows_def using xs ys counts k by (intro exI[of _ "xs @ ys"]) auto
  moreover have "retryable_reply (reply (env j))" if "n \<le> j" "j < k" for j
    using that A assms(1) by (cases "j = n") (auto simp: call_report_def)
  moreover have "cooldown_le (cooldown_until st) (cooldown_until st')"
    using A assms(1) by (auto simp: call_report_def intro: cooldown_le_trans)
  ultimately show ?thesis
    using assms(1) k unfolding call_report_def by auto
qed

lemma retry_loop_report:
  assumes "n \<le> m" and "retry_loop call m env st [n..<Suc m] = (out, st')"
  shows "\<exists>k. call_report call m env n st k out st'"
  using assms
proof (induction "m - n" arbitrary: n st)
  case (0 n st)
  then have "n = m" by simp
  show ?case
  proof (cases "run_attempt call m n (env n) st")
    case (Inl ret)
    with 0 \<open>n = m\<close> have "run_attempt call m n (env n) st = Inl (out, st')" by simp
    then show ?thesis using call_report_now \<open>n = m\<close> by blast
  next
    case (Inr st1)
    then show ?thesis using run_attempt_Inr[OF Inr] \<open>n = m\<close> by simp
  qed
next
  case (Suc d n st)
  have upt: "[n..<Suc m] = n # [Suc n..<Suc m]" using Suc.prems(1) by (simp add: upt_conv_Cons)
  show ?case
  proof (cases "run_attempt call m n (env n) st")
    case (Inl ret)
    with Suc.prems upt have "run_attempt call m n (env n) st = Inl (out, st')" by simp
    then show ?thesis using call_report_now Suc.prems(1) by blast
  next
    case (Inr st1)
    have "retry_loop call m env st1 [Suc n..<Suc m] = (out, st')"
      using Suc.prems(2) Inr unfolding upt by simp
    moreover have "d = m - Suc n" "Suc n \<le> m" using Suc.hyps(2) Suc.prems(1) by auto
    ultimately show ?thesis using Suc.hyps(1) call_report_later Inr by blast
  qed
qed

lemma send_report:
  assumes "request_context_ok (call_context call)" and "send_with_retry call env until = (out, st)"
  shows "\<exists>k. call_report call (allowed_attempts (call_policy call) (call_context call)) env 1
    \<lparr>cooldown_until = until, unpriced_prior_attempts = 0, retry_trace = []\<rparr> k out st"
proof (rule retry_loop_report)
  show "1 \<le> allowed_attempts (call_policy call) (call_context call)"
    using assms(1)
    by (auto simp: allowed_attempts_def request_context_ok_def u32_max_def split: option.split)
  show "retry_loop call (allowed_attempts (call_policy call) (call_context call)) env
      \<lparr>cooldown_until = until, unpriced_prior_attempts = 0, retry_trace = []\<rparr>
      [1..<Suc (allowed_attempts (call_policy call) (call_context call))] = (out, st)"
    using assms(2) by (simp only: send_with_retry_def Let_def)
qed

text \<open>Contexts built through the public constructors always allow an attempt.\<close>

lemma request_contexts_ok:
  "request_context_ok (request_context_new b)"
  "request_context_ok (with_prompt_cache_key key)"
  "request_context_ok (with_retry_observer_and_prompt_cache_key key)"
  "request_context_ok (with_max_attempts ctx n)"
  by (simp_all add: request_context_ok_def request_context_new_def with_prompt_cache_key_def
      with_retry_observer_and_prompt_cache_key_def with_max_attempts_def)

text \<open>C26. 
  A request that is retried always ends: the \<open>unreachable!\<close> is never reached, it sends at most as
  many requests as the policy and the context allow, no pause it starts ends after the time budget,
  and it never shortens the shared cooldown. It returns, unless it panics, and it panics only at its
  last attempt, for one of two reasons: the reply is a rate limit of a request that shares the cooldown
  whose \<open>Retry-After\<close> added to the present is past the last instant the clock has, or another attempt
  is due and the jitter of its backoff is too long for a duration.
\<close>

theorem retry_is_bounded:
  assumes "request_context_ok (call_context call)" and "send_with_retry call env until = (out, st)"
    and "k = sends (retry_trace st)"
  shows "out \<noteq> Unreachable
    \<and> k \<le> allowed_attempts (call_policy call) (call_context call)
    \<and> list_all (within_budget (call_policy call)) (retry_trace st)
    \<and> cooldown_le until (cooldown_until st)
    \<and> (out = Panicked \<longrightarrow> 1 \<le> k \<and> (unholdable_pause call (env k)
        \<or> retryable_reply (reply (env k)) \<and> k < allowed_attempts (call_policy call) (call_context call)
          \<and> next_delay call k (env k) = None))"
proof -
  obtain l where "call_report call (allowed_attempts (call_policy call) (call_context call)) env 1
    \<lparr>cooldown_until = until, unpriced_prior_attempts = 0, retry_trace = []\<rparr> l out st"
    using send_report[OF assms(1,2)] by blast
  then show ?thesis using assms(3)
    by (cases "ended_early out"; cases "out = Panicked")
      (auto simp: call_report_def grows_def final_outcome_def ended_early_def)
qed

text \<open>C27. 
  The reply a request returns is the one to its last attempt: every earlier reply was retryable, and
  this one is not, or the attempts are used up, or the pause before another would break the budget.
\<close>

theorem retry_returns_first_final_reply:
  assumes "request_context_ok (call_context call)" and "send_with_retry call env until = (out, st)"
    and "outcome_reply out = Some r" and "k = sends (retry_trace st)"
  shows "1 \<le> k \<and> r = reply (env k)
    \<and> list_all (\<lambda>j. retryable_reply (reply (env j))) [1..<k]
    \<and> (retryable_reply r \<longrightarrow> k = allowed_attempts (call_policy call) (call_context call)
        \<or> over_budget call k (env k))"
proof -
  obtain l where R: "call_report call (allowed_attempts (call_policy call) (call_context call)) env 1
    \<lparr>cooldown_until = until, unpriced_prior_attempts = 0, retry_trace = []\<rparr> l out st"
    using send_report[OF assms(1,2)] by blast
  have early: "\<not> ended_early out" "out \<noteq> Panicked"
    using assms(3) by (auto simp: outcome_reply_def ended_early_def split: retry_outcome.splits)
  then have "k = l" using R assms(4) by (auto simp: call_report_def grows_def)
  with R assms(3) early show ?thesis by (auto simp: call_report_def list_all_iff final_outcome_def)
qed

text \<open>
  A server can bring a request down with one header: when the reply to an attempt of a request that
  shares the cooldown is a rate limit whose \<open>Retry-After\<close> is past the last instant the clock has, the
  request panics, whatever the budget, the attempts left and the cooldown so far, and the other
  requests' cooldown is as it was.
\<close>

theorem unholdable_retry_after_panics:
  assumes "begin_attempt call env st = Inr st'" and "unholdable_pause call env"
  shows "run_attempt call m n env st = Inl (Panicked, st')
    \<and> cooldown_until st' = fold cooldown_defer_to (others_deferred env) (cooldown_until st)"
proof -
  obtain response where r: "reply env = Reply response"
      "note_cooldown call env response (parse_retry_after (parse_http_date call) (system_now env) response) st' = None"
    using assms(2)
    by (auto simp: unholdable_pause_def note_cooldown_panics split: http_reply.splits option.splits)
  then show ?thesis
    using assms(1) begin_attempt_Inr[OF assms(1)] by (simp add: run_attempt_def handle_response_def)
qed

text \<open>
  Before the k-th attempt the observer is told how many of the earlier ones the server may have
  billed: those it answered with a server error or a timeout, and those that failed after connecting.
\<close>

theorem observer_told_billed_attempts:
  assumes "request_context_ok (call_context call)" and "has_retry_observer (call_context call)"
    and "send_with_retry call env until = (out, st)"
  shows "before_counts (retry_trace st) =
    map (billed_between env 1) [1..<Suc (length (before_counts (retry_trace st)))]"
proof -
  obtain k where "call_report call (allowed_attempts (call_policy call) (call_context call)) env 1
    \<lparr>cooldown_until = until, unpriced_prior_attempts = 0, retry_trace = []\<rparr> k out st"
    using send_report[OF assms(1,3)] by blast
  then obtain e where k: "1 \<le> k" and e: "e = k \<or> e = Suc k"
    "before_counts (retry_trace st) = map (billed_between env 1) [1..<e]"
    using assms(2) by (auto simp: call_report_def grows_def)
  then have "Suc (length (before_counts (retry_trace st))) = e" by auto
  then show ?thesis using e(2) by simp
qed

text \<open>
  A request that shares the cooldown is not sent before a pause that any request's \<open>Retry-After\<close> put
  on the provider is over: it sleeps from the moment it reads the cooldown to its end.
\<close>

theorem cooldown_pauses_requests:
  assumes "has_cooldown (call_context call)" and "begin_attempt call env st = Inr st'"
    and "u \<in> set (others_deferred env) \<or> cooldown_until st = Some u"
  shows "\<exists>t d. CooldownSleep t d \<in> set (retry_trace st') \<and> u \<le> cooldown_read_at env + d"
proof -
  let ?c = "fold cooldown_defer_to (others_deferred env) (cooldown_until st)"
  have "cooldown_le (Some u) ?c"
    using assms(3) cooldown_le_fold(1)[of "Some u" "others_deferred env"] cooldown_le_fold(2) by auto
  then have "u \<le> cooldown_read_at env + cooldown_remaining ?c (cooldown_read_at env)"
    by (auto simp: cooldown_le_def cooldown_remaining_def split: option.splits)
  moreover have "CooldownSleep (cooldown_checked_at env - call_started call)
      (cooldown_remaining ?c (cooldown_read_at env)) \<in> set (retry_trace st')"
    using assms(1,2) by (auto simp: begin_attempt_def Let_def emit_def split: if_splits sum.splits)
  ultimately show ?thesis by blast
qed

section \<open>Witnesses\<close>

definition sample_call :: retry_call where
  "sample_call = \<lparr>call_operation = ''chat'', call_policy = DEFAULT_HTTP_RETRY_POLICY,
     call_context = (request_context_new True)\<lparr>has_cooldown := True\<rparr>, call_started = 5,
     latest_instant = nanos 9223372036854775807, apply_jitter = (\<lambda>d p. Some (d * p div 100)), parse_http_date = (\<lambda>_. None), status_text = (\<lambda>_. [])\<rparr>"

text \<open>A rate limited attempt, one the server failed, then success.\<close>

definition sample_env :: "nat \<Rightarrow> attempt_env" where
  "sample_env n = \<lparr>others_deferred = (if n = 1 then [7] else []), cooldown_read_at = 6,
     cooldown_checked_at = 6, observer_verdict = Inr (),
     reply = (if n = 1 then Reply \<lparr>response_status = 429, retry_after_header = Some ''2''\<rparr>
              else if n = 2 then Reply \<lparr>response_status = 500, retry_after_header = None\<rparr>
              else Reply \<lparr>response_status = 200, retry_after_header = None\<rparr>),
     system_now = 0, deferred_at = 8, replied_at = 9, jitter_percent = 100\<rparr>"

lemmas retry_eval = sample_call_def sample_env_def DEFAULT_HTTP_RETRY_POLICY_def
  request_context_new_def run_attempt_def begin_attempt_def handle_response_def
  schedule_retry_def notify_retry_def note_cooldown_def emit_def retry_fits_budget_def
  jittered_backoff_for_retry_def backoff_for_retry_def checked_mul_def checked_add_def
  duration_max_def nanos_def u64_max_def is_retryable_status_def is_server_error_def
  cooldown_remaining_def cooldown_defer_def cooldown_defer_to_def Let_def

lemma sample_retry_after:
  "parse_retry_after d now \<lparr>response_status = s, retry_after_header = None\<rparr> = None"
  "parse_retry_after d now \<lparr>response_status = s, retry_after_header = Some ''2''\<rparr> = Some (nanos 2)"
proof -
  have "ascii_trim ''2'' = ''2''" "parse_u64 ''2'' = Some 2" "header_to_str ''2'' = Some ''2''"
    by (simp_all add: ascii_trim_def parse_u64_def digits_value_def is_ascii_digit_def u64_max_def
        trim_start.simps space_len_def byte_def header_to_str_def)
  then show "parse_retry_after d now \<lparr>response_status = s, retry_after_header = None\<rparr> = None"
    "parse_retry_after d now \<lparr>response_status = s, retry_after_header = Some ''2''\<rparr> = Some (nanos 2)"
    by (simp_all add: parse_retry_after_def)
qed

lemma sample_first:
  "run_attempt sample_call 10 1 (sample_env 1)
      \<lparr>cooldown_until = None, unpriced_prior_attempts = 0, retry_trace = []\<rparr> =
    Inr \<lparr>cooldown_until = Some 2000000008, unpriced_prior_attempts = 0,
      retry_trace = [CooldownSleep 1 1, BeforeAttempt 0, RequestSent,
        RetryScheduled ''chat'' 1 2000000000 ''HTTP '', RetrySleep 4 2000000000]\<rparr>"
  by (simp add: retry_eval sample_retry_after)

lemma sample_second:
  "run_attempt sample_call 10 2 (sample_env 2)
      \<lparr>cooldown_until = Some 2000000008, unpriced_prior_attempts = 0, retry_trace = tr\<rparr> =
    Inr \<lparr>cooldown_until = Some 2000000008, unpriced_prior_attempts = 1,
      retry_trace = tr @ [CooldownSleep 1 2000000002, BeforeAttempt 0, RequestSent,
        RetryScheduled ''chat'' 2 2000000000 ''HTTP '', RetrySleep 4 2000000000]\<rparr>"
  by (simp add: retry_eval sample_retry_after)

lemma sample_third:
  "run_attempt sample_call 10 3 (sample_env 3)
      \<lparr>cooldown_until = Some 2000000008, unpriced_prior_attempts = 1, retry_trace = tr\<rparr> =
    Inl (GotResponse \<lparr>response_status = 200, retry_after_header = None\<rparr>,
      \<lparr>cooldown_until = Some 2000000008, unpriced_prior_attempts = 1,
       retry_trace = tr @ [CooldownSleep 1 2000000002, BeforeAttempt 1, RequestSent]\<rparr>)"
  by (simp add: retry_eval sample_retry_after)

lemma sample_attempts:
  "allowed_attempts (call_policy sample_call) (call_context sample_call) = 10"
  "[1..<11] = [1, 2, 3] @ [4..<11]"
  by (simp_all add: sample_call_def DEFAULT_HTTP_RETRY_POLICY_def request_context_new_def
      allowed_attempts_def u32_max_def upt_conv_Cons)

lemma sample_run:
  "send_with_retry sample_call sample_env None =
    (GotResponse \<lparr>response_status = 200, retry_after_header = None\<rparr>,
     \<lparr>cooldown_until = Some 2000000008, unpriced_prior_attempts = 1,
      retry_trace = [CooldownSleep 1 1, BeforeAttempt 0, RequestSent,
        RetryScheduled ''chat'' 1 2000000000 ''HTTP '', RetrySleep 4 2000000000,
        CooldownSleep 1 2000000002, BeforeAttempt 0, RequestSent,
        RetryScheduled ''chat'' 2 2000000000 ''HTTP '', RetrySleep 4 2000000000,
        CooldownSleep 1 2000000002, BeforeAttempt 1, RequestSent]\<rparr>)"
proof -
  have "[1..<Suc 10] = 1 # 2 # 3 # [4..<11]" using sample_attempts(2) by simp
  then show ?thesis
    by (simp only: send_with_retry_def Let_def sample_attempts(1) retry_loop.simps sample_first
        sample_second sample_third sum.case append_Cons append_Nil)
qed

lemma sample_context_ok: "request_context_ok (call_context sample_call)"
  by (simp add: sample_call_def request_context_new_def request_context_ok_def)

theorem retry_is_bounded_witness:
  "sends (retry_trace (snd (send_with_retry sample_call sample_env None))) \<le> 10"
  using retry_is_bounded[OF sample_context_ok sample_run]
  by (simp add: sample_run sample_attempts)

theorem retry_returns_first_final_reply_witness:
  "list_all (\<lambda>j. retryable_reply (reply (sample_env j))) [1..<3]"
  using retry_returns_first_final_reply[OF sample_context_ok sample_run, of _ 3]
  by (simp add: outcome_reply_def)

definition endless_env :: attempt_env where
  "endless_env = (sample_env 1)\<lparr>reply := Reply \<lparr>response_status = 429,
     retry_after_header = Some ''18446744073709551615''\<rparr>\<rparr>"

lemma endless_retry_after:
  "parse_retry_after d now \<lparr>response_status = s, retry_after_header = Some ''18446744073709551615''\<rparr>
     = Some (nanos 18446744073709551615)"
proof -
  let ?h = "''18446744073709551615''"
  have "ascii_trim ?h = ?h"
    by (simp add: ascii_trim_def trim_start.simps space_len_def byte_def)
  moreover have "parse_u64 ?h = Some 18446744073709551615"
    by (simp add: parse_u64_def digits_value_def is_ascii_digit_def u64_max_def byte_def)
  moreover have "header_to_str ?h = Some ?h"
    by (simp add: header_to_str_def byte_def)
  ultimately show ?thesis by (simp add: parse_retry_after_def)
qed

theorem unholdable_retry_after_panics_witness:
  "\<exists>st. run_attempt sample_call 10 1 endless_env
      \<lparr>cooldown_until = None, unpriced_prior_attempts = 0, retry_trace = []\<rparr> = Inl (Panicked, st)"
proof -
  have "unholdable_pause sample_call endless_env"
    by (simp add: unholdable_pause_def endless_env_def endless_retry_after)
      (simp add: sample_call_def sample_env_def request_context_new_def nanos_def)
  moreover obtain st where "begin_attempt sample_call endless_env
      \<lparr>cooldown_until = None, unpriced_prior_attempts = 0, retry_trace = []\<rparr> = Inr st"
    by (simp add: retry_eval endless_env_def)
  ultimately show ?thesis using unholdable_retry_after_panics by blast
qed

theorem observer_told_billed_attempts_witness:
  "before_counts (retry_trace (snd (send_with_retry sample_call sample_env None))) = [0, 0, 1]
    \<and> billed_between sample_env 1 3 = 1"
  using observer_told_billed_attempts[OF sample_context_ok _ sample_run]
  by (simp add: sample_run numeral_3_eq_3) (simp add: sample_call_def request_context_new_def)

theorem cooldown_pauses_requests_witness:
  "\<exists>st. begin_attempt sample_call (sample_env 1)
      \<lparr>cooldown_until = None, unpriced_prior_attempts = 0, retry_trace = []\<rparr> = Inr st
    \<and> (\<exists>t d. CooldownSleep t d \<in> set (retry_trace st) \<and> 7 \<le> cooldown_read_at (sample_env 1) + d)"
proof -
  obtain st where st: "begin_attempt sample_call (sample_env 1)
      \<lparr>cooldown_until = None, unpriced_prior_attempts = 0, retry_trace = []\<rparr> = Inr st"
    by (simp add: retry_eval)
  from cooldown_pauses_requests[OF _ st, of 7] st show ?thesis
    by (simp add: sample_call_def sample_env_def)
qed

end
