(* ===== verification/Conversation.thy ===== *)
theory Conversation
  imports Model_Options Cost
begin

text \<open>
  The conversation (crates/kraai-types, conversation.rs, token_estimate.rs, lib.rs and model.rs):
  message contents made of text and images, assistant items, the items a provider request carries,
  messages with their status and generation, and the token estimates that decide when a request
  may outgrow a context window; and the budget rules of the provider core (context_budget.rs).
  The serialisation of a JSON payload is third-party code and a parameter of the estimates.
\<close>

section \<open>Data\<close>

datatype content_part = TextPart string | ImagePart image_attachment

type_synonym message_content = "content_part list"

datatype assistant_phase = Commentary | FinalAnswer

record script_rewrite =
  original :: string
  changes :: "string list"

record script_call =
  call_id :: string
  call_name :: string
  call_input :: string
  arguments_error :: "string option"
  call_rewrite :: "script_rewrite option"

datatype assistant_item =
  Reasoning string json
| AssistantText assistant_phase string
| ScriptCallItem script_call

datatype conversation_item =
  FileContext string
| Compaction string json
| SystemItem string
| UserItem message_content
| AssistantItems "assistant_item list"
| ScriptResult string message_content script_execution_outcome

datatype chat_role = RoleSystem | RoleUser | RoleAssistant | RoleToolCallResult

datatype message_status = MessageComplete | Streaming string | MessageCancelled

record message_generation =
  generation_provider_id :: string
  generation_model_id :: string
  generation_options :: model_option_values
  generation_max_context :: "nat option"
  generation_usage :: "token_usage option"

record message =
  message_id :: string
  parent_id :: "string option"
  message_content :: conversation_item
  message_status :: message_status
  agent_profile_id :: "string option"
  generation :: "message_generation option"

section \<open>Contents\<close>

definition omitted_image :: "image_attachment \<Rightarrow> content_part" where
  "omitted_image img = TextPart (''[Image '' @ image_id img
     @ '' omitted from active context. Reopen with kraai-view-image --attachment '' @ image_id img @ '']'')"

definition content_of_text :: "string \<Rightarrow> message_content" where
  "content_of_text s = [TextPart s]"

fun part_image :: "content_part \<Rightarrow> image_attachment option" where
  "part_image (ImagePart i) = Some i"
| "part_image (TextPart s) = None"

fun part_text :: "content_part \<Rightarrow> string option" where
  "part_text (TextPart s) = Some s"
| "part_text (ImagePart i) = None"

definition content_images :: "message_content \<Rightarrow> image_attachment list" where
  "content_images self = List.map_filter part_image self"

definition has_images :: "message_content \<Rightarrow> bool" where
  "has_images self = (content_images self \<noteq> [])"

fun as_text :: "message_content \<Rightarrow> string option" where
  "as_text [TextPart s] = Some s"
| "as_text [] = Some []"
| "as_text _ = None"

text \<open>The multiplication sign is U+00D7, the bytes C3 97.\<close>

fun part_display :: "content_part \<Rightarrow> string" where
  "part_display (TextPart s) = s"
| "part_display (ImagePart i) =
     ''[Image '' @ image_id i @ '': '' @ nat_digits (width i) @ [CHR 0xC3, CHR 0x97] @ nat_digits (height i) @ '']''"

definition content_display :: "message_content \<Rightarrow> string" where
  "content_display self =
     (case as_text self of Some s \<Rightarrow> s | None \<Rightarrow> join [newline] (map part_display self))"

definition text_only :: "message_content \<Rightarrow> string" where
  "text_only self =
     (case as_text self of Some s \<Rightarrow> s | None \<Rightarrow> join [newline] (List.map_filter part_text self))"

fun without_image :: "content_part \<Rightarrow> content_part" where
  "without_image (TextPart s) = TextPart s"
| "without_image (ImagePart i) = omitted_image i"

definition without_images :: "message_content \<Rightarrow> message_content" where
  "without_images self = map without_image self"

section \<open>Items\<close>

fun item_role :: "conversation_item \<Rightarrow> chat_role" where
  "item_role (SystemItem _) = RoleSystem"
| "item_role (UserItem _) = RoleUser"
| "item_role (FileContext _) = RoleUser"
| "item_role (AssistantItems _) = RoleAssistant"
| "item_role (Compaction _ _) = RoleAssistant"
| "item_role (ScriptResult _ _ _) = RoleToolCallResult"

fun item_text :: "conversation_item \<Rightarrow> string option" where
  "item_text (SystemItem s) = Some s"
| "item_text (FileContext s) = Some s"
| "item_text (UserItem c) = as_text c"
| "item_text _ = None"

fun assistant_items :: "conversation_item \<Rightarrow> assistant_item list option" where
  "assistant_items (AssistantItems its) = Some its"
| "assistant_items _ = None"

fun render_step :: "string \<Rightarrow> assistant_item \<Rightarrow> string" where
  "render_step rendered (Reasoning _ _) = rendered"
| "render_step rendered (AssistantText _ t) =
     (if t = [] then rendered
      else if rendered = [] then t else rendered @ [newline, newline] @ t)"
| "render_step rendered (ScriptCallItem c) =
     (if rendered = [] then [] else rendered @ [newline, newline])
       @ ''<tool_call>'' @ [newline] @ call_input c @ [newline] @ ''</tool_call>''"

definition render_assistant_items :: "assistant_item list \<Rightarrow> string" where
  "render_assistant_items its = foldl render_step [] its"

fun item_display :: "conversation_item \<Rightarrow> string" where
  "item_display (Compaction _ _) = []"
| "item_display (SystemItem s) = s"
| "item_display (FileContext s) = s"
| "item_display (UserItem c) = content_display c"
| "item_display (AssistantItems its) = render_assistant_items its"
| "item_display (ScriptResult _ output _) = content_display output"

definition message_role :: "message \<Rightarrow> chat_role" where
  "message_role m = item_role (message_content m)"

definition message_display :: "message \<Rightarrow> string" where
  "message_display m = item_display (message_content m)"

section \<open>Token estimates\<close>

definition bytes_per_token :: nat where
  "bytes_per_token = 4"

definition image_tokens :: nat where
  "image_tokens = 1600"

definition item_overhead_tokens :: nat where
  "item_overhead_tokens = 4"

definition div_ceil :: "nat \<Rightarrow> nat \<Rightarrow> nat" where
  "div_ceil a b = a div b + (if a mod b = 0 then 0 else 1)"

definition estimate_text_tokens :: "string \<Rightarrow> nat" where
  "estimate_text_tokens s = div_ceil (length s) bytes_per_token"

definition estimate_json_tokens :: "(json \<Rightarrow> string option) \<Rightarrow> json \<Rightarrow> nat" where
  "estimate_json_tokens to_json v = (case to_json v of None \<Rightarrow> 0 | Some s \<Rightarrow> estimate_text_tokens s)"

fun part_tokens :: "content_part \<Rightarrow> nat" where
  "part_tokens (TextPart s) = estimate_text_tokens s"
| "part_tokens (ImagePart _) = image_tokens"

definition content_tokens :: "message_content \<Rightarrow> nat" where
  "content_tokens self = sum_list (map part_tokens self)"

fun assistant_tokens :: "(json \<Rightarrow> string option) \<Rightarrow> assistant_item \<Rightarrow> nat" where
  "assistant_tokens to_json (Reasoning _ p) = estimate_json_tokens to_json p"
| "assistant_tokens to_json (AssistantText _ t) = estimate_text_tokens t"
| "assistant_tokens to_json (ScriptCallItem c) =
     estimate_text_tokens (call_name c) + estimate_text_tokens (call_input c)"

fun item_tokens :: "(json \<Rightarrow> string option) \<Rightarrow> conversation_item \<Rightarrow> nat" where
  "item_tokens to_json (FileContext s) = item_overhead_tokens + estimate_text_tokens s"
| "item_tokens to_json (SystemItem s) = item_overhead_tokens + estimate_text_tokens s"
| "item_tokens to_json (Compaction _ p) = item_overhead_tokens + estimate_json_tokens to_json p"
| "item_tokens to_json (UserItem c) = item_overhead_tokens + content_tokens c"
| "item_tokens to_json (ScriptResult _ c _) = item_overhead_tokens + content_tokens c"
| "item_tokens to_json (AssistantItems its) =
     item_overhead_tokens + sum_list (map (assistant_tokens to_json) its)"

section \<open>Context budget\<close>

definition compaction_percent :: nat where
  "compaction_percent = 80"

definition compaction_point :: "nat \<Rightarrow> nat" where
  "compaction_point max_context = sat_mul max_context compaction_percent div 100"

text \<open>\<open>a.into_iter().chain(b).min()\<close> of two options.\<close>

fun option_min :: "nat option \<Rightarrow> nat option \<Rightarrow> nat option" where
  "option_min (Some a) (Some b) = Some (min a b)"
| "option_min (Some a) None = Some a"
| "option_min None b = b"

text \<open>The subtraction is checked: \<open>None\<close> of the outer option would be an underflow.\<close>

definition max_output :: "nat option \<Rightarrow> nat option \<Rightarrow> nat option \<Rightarrow> nat option option" where
  "max_output configured catalog max_context =
     (case configured of
        Some n \<Rightarrow> Some (Some n)
      | None \<Rightarrow>
          (case max_context of
             None \<Rightarrow> Some (option_min catalog None)
           | Some lim \<Rightarrow>
               Option.bind (checked_sub lim (compaction_point lim)) (\<lambda>reserve.
               Some (option_min catalog (Some reserve)))))"

record model_info =
  model_id :: string
  model_name :: string
  model_max_context :: "nat option"
  model_max_output :: "nat option"
  supports_images :: bool
  model_options :: "model_option_definition list"

definition output_limit :: "(json \<Rightarrow> string option) \<Rightarrow> model_info \<Rightarrow> conversation_item list \<Rightarrow> nat option" where
  "output_limit to_json self messages =
     (let remaining = map_option (\<lambda>lim. sat_sub lim (sum_list (map (item_tokens to_json) messages)))
            (model_max_context self)
      in case option_min (model_max_output self) remaining of
           None \<Rightarrow> None
         | Some n \<Rightarrow> if 0 < n then Some n else None)"

section \<open>Facts\<close>

lemma compaction_point_le: "compaction_point n \<le> n"
proof -
  have "sat_mul n 80 \<le> n * 80" by (simp add: sat_mul_def)
  then have "sat_mul n 80 div 100 \<le> n * 80 div 100" by (rule div_le_mono)
  also have "\<dots> \<le> n" by linarith
  finally show ?thesis by (simp add: compaction_point_def compaction_percent_def)
qed

lemma option_min_le: "option_min a b = Some n \<Longrightarrow> (\<forall>m. a = Some m \<longrightarrow> n \<le> m) \<and> (\<forall>m. b = Some m \<longrightarrow> n \<le> m)"
  by (cases a; cases b) auto

lemma without_images_none: "content_images (without_images c) = []"
proof -
  have "part_image (without_image p) = None" for p
    by (cases p) (simp_all add: omitted_image_def)
  then show ?thesis by (simp add: content_images_def without_images_def map_filter_def)
qed

section \<open>Properties\<close>

text \<open>The context budget never over-commits a window: without an explicit setting, the output
  reserved for a model and the point at which its context is compacted fit its window together,
  and the reservation never underflows.\<close>

theorem output_reserve_fits_window:
  "\<exists>m. max_output None catalog (Some w) = Some (Some m) \<and> m + compaction_point w \<le> w
     \<and> (case catalog of None \<Rightarrow> m + compaction_point w = w | Some c \<Rightarrow> m \<le> c)"
proof -
  have "checked_sub w (compaction_point w) = Some (w - compaction_point w)"
    using compaction_point_le[of w] by (simp add: checked_sub_def)
  then show ?thesis
    using compaction_point_le[of w]
    by (cases catalog) (auto simp: max_output_def min_def)
qed

text \<open>The output limit of a request is positive, respects the model's own limit, and together
  with the estimated tokens of the request's messages fits the context window.\<close>

theorem output_limit_fits:
  assumes "output_limit to_json m messages = Some n"
  shows "0 < n \<and> (\<forall>lim. model_max_output m = Some lim \<longrightarrow> n \<le> lim)
    \<and> (\<forall>w. model_max_context m = Some w \<longrightarrow> n + sum_list (map (item_tokens to_json) messages) \<le> w)"
  using assms option_min_le[of "model_max_output m"]
  by (fastforce simp: output_limit_def Let_def split: option.splits if_splits)

theorem output_limit_fits_witness:
  "\<exists>n. output_limit (\<lambda>_. None)
      \<lparr>model_id = [], model_name = [], model_max_context = Some 10, model_max_output = Some 9,
       supports_images = False, model_options = []\<rparr> [SystemItem ''abcdef''] = Some n \<and> 0 < n \<and> n + 6 \<le> 10"
proof -
  let ?m = "\<lparr>model_id = [], model_name = [], model_max_context = Some 10, model_max_output = Some 9,
       supports_images = False, model_options = []\<rparr>"
  have out: "output_limit (\<lambda>_. None) ?m [SystemItem ''abcdef''] = Some 4"
    by (simp add: output_limit_def estimate_text_tokens_def div_ceil_def bytes_per_token_def item_overhead_tokens_def)
  from output_limit_fits[OF this] show ?thesis
    using out by (simp add: estimate_text_tokens_def div_ceil_def bytes_per_token_def item_overhead_tokens_def)
qed

end
