(* ===== verification/Store_Types.thy ===== *)
theory Store_Types
  imports Conversation "HOL-Library.Product_Lexorder"
begin

text \<open>
  The rows of the store (crates/kraai-persistence, schema.sql and the data types of its modules):
  session rows with their lease columns, the typed contents of the \<open>records\<close> table, streamed
  deltas, queued messages, model lists, and the database as the record of its tables. A table is
  an ordered map on its primary key. JSON columns hold the values they serialise, so a stored
  value is read back as itself; reading a value of another type is an error, as deserialisation
  reports it.
\<close>

section \<open>Sessions\<close>

record session_meta =
  meta_revision :: int
  meta_id :: string
  tip_id :: "string option"
  workspace_dir :: string
  created_at :: nat
  updated_at :: nat
  title :: "string option"
  selected_profile_id :: "string option"
  selected_model :: "model_selection option"

record session_row =
  row_data :: session_meta
  row_tip :: "string option"
  revision :: int
  metadata_revision :: int
  lease_active :: bool
  lease_expires_at :: int
  lease_token :: int
  turn_timer :: "string option"

section \<open>Compaction checkpoints\<close>

record compaction_checkpoint =
  covered_through :: string
  superseded_usage :: "string list"
  previous_boundary :: "string option"
  replacement :: "conversation_item list"
  checkpoint_model_id :: string
  checkpoint_provider_id :: string
  prompt_version :: nat
  checkpoint_usage :: "token_usage option"

section \<open>Script executions\<close>

record new_script_execution =
  new_id :: string
  new_session_id :: string
  new_source_message_id :: string
  new_call_id :: string
  new_profile :: script_profile_snapshot
  new_source :: string
  new_rewrites :: "string list"
  new_requested_capabilities :: sandbox_capabilities
  new_effective_capabilities :: sandbox_capabilities
  new_timeout :: "nat option"

record script_execution_record =
  exec_id :: string
  result_message_id :: string
  exec_images :: "(nat, image_attachment) btree"
  exec_session_id :: string
  source_message_id :: string
  exec_call_id :: string
  exec_profile :: script_profile_snapshot
  exec_rewrites :: "string list"
  requested_capabilities :: sandbox_capabilities
  effective_capabilities :: sandbox_capabilities
  exec_timeout :: "nat option"
  exec_phase :: script_execution_phase
  exec_status :: "script_execution_status option"
  created_at_millis :: nat
  started_at_millis :: "nat option"
  updated_at_millis :: nat
  exit_code :: "int option"
  sandbox_denied :: bool
  exec_error :: "string option"

record script_execution_completion =
  completion_status :: script_execution_status
  completion_exit_code :: "int option"
  completion_sandbox_denied :: bool
  completion_error :: "string option"
  completion_stdout :: string
  completion_stderr :: string

record persisted_script_output =
  out_stdout :: string
  out_stderr :: string

section \<open>Context state\<close>

datatype pinned_file_scope = WorkspaceScope string | HostScope

datatype context_state_mutation =
  PinFile string pinned_file_scope
| UnpinFile string "string option"

datatype context_state_event_source =
  CommandSource string nat string string
| RuntimeSource string

record context_state_event =
  event_id :: string
  event_source :: context_state_event_source
  mutations :: "context_state_mutation list"

record file_context_snapshot =
  snapshot_path :: string
  opened_event :: string
  anchor :: string
  snapshot_text :: string

record instruction_snapshot =
  instruction_key :: string
  instruction_label :: string
  instruction_anchor :: "string option"
  instruction_text :: string

record context_state_document =
  events :: "context_state_event list"
  snapshots :: "file_context_snapshot list"
  instructions :: "instruction_snapshot list"

definition empty_document :: context_state_document where
  "empty_document = \<lparr>events = [], snapshots = [], instructions = []\<rparr>"

section \<open>Streaming, queueing, model lists\<close>

datatype stream_delta =
  DeltaText nat assistant_phase string
| DeltaItem assistant_item
| DeltaUsage token_usage
| DeltaReset

record queued_message =
  queued_content :: message_content
  queued_selection :: model_selection

record queued_entry =
  entry_sequence :: int
  entry_message :: queued_message

record model_list_version =
  version_source :: string
  fetched_at :: int

record stored_model_list =
  list_version :: model_list_version
  list_data :: json

record model_list_row =
  ml_source :: string
  ml_fetched_at :: int
  ml_data :: "json option"
  claimed_until :: int

section \<open>The database\<close>

datatype record_data =
  MessageRecord message
| CompactionRecord compaction_checkpoint
| ExecutionRecord script_execution_record
| ContextRecord context_state_document
| UsageRecord request_usage

record record_row =
  record_session_id :: "string option"
  record_data_of :: record_data

text \<open>\<open>execution_output\<close> is the list of its rows in the order of their row ids: a new row takes an
  id above every id present, so insertion appends.\<close>

record database =
  sessions :: "(string, session_row) btree"
  records :: "(string \<times> string, record_row) btree"
  execution_sources :: "(string, string) btree"
  execution_output :: "(string \<times> string \<times> string) list"
  stream_deltas :: "(string \<times> int, stream_delta) btree"
  queued_messages :: "(string \<times> int, queued_message) btree"
  model_lists :: "(string, model_list_row) btree"

type_synonym lease_tokens = "(string, int) btree"

definition empty_database :: database where
  "empty_database =
     \<lparr>sessions = [], records = [], execution_sources = [], execution_output = [],
      stream_deltas = [], queued_messages = [], model_lists = []\<rparr>"

datatype store_error = Domain domain_error | Report string | StoredData

definition i64_max :: int where
  "i64_max = 9223372036854775807"

end
