(* ===== verification/Requests.thy ===== *)
theory Requests
  imports Store_Types
begin

text \<open>
  What is sent to a model provider: the request (provider-core provider.rs), how the agent assembles
  it from the system prompt, a compaction checkpoint, file context and history, and how it limits
  the images in it (crates/kraai-agent compaction.rs); what the provider core does with the messages
  before they go on the wire (history.rs, images.rs). Hash maps that are only looked up are
  functions. Base64 and the resolver that loads image bytes are parameters.
\<close>

section \<open>Requests\<close>

record script_tool_definition =
  tool_name :: string
  tool_description :: string

definition nushell_tool :: script_tool_definition where
  "nushell_tool = \<lparr>tool_name = ''kraai_nushell'', tool_description = ''Execute a complete Nushell script.''\<rparr>"

record provider_request =
  request_messages :: "conversation_item list"
  script_tool :: "script_tool_definition option"
  cacheable_messages :: "nat option"
  request_options :: model_option_values

section \<open>Limiting images\<close>

text \<open>The loops run from the newest message and part to the oldest; the state counts the images
  kept and their bytes.\<close>

type_synonym image_budget = "nat \<times> nat"

fun limit_part :: "image_budget \<Rightarrow> content_part \<Rightarrow> content_part \<times> image_budget" where
  "limit_part (count, bytes) (ImagePart img) =
     (if count < max_request_images \<and> sat_add bytes (byte_length img) \<le> max_request_image_bytes
      then (ImagePart img, (count + 1, bytes + byte_length img))
      else (omitted_image img, (count, bytes)))"
| "limit_part st (TextPart s) = (TextPart s, st)"

fun limit_parts :: "image_budget \<Rightarrow> content_part list \<Rightarrow> content_part list \<times> image_budget" where
  "limit_parts st [] = ([], st)"
| "limit_parts st (part # earlier_rest) =
     (case limit_parts st earlier_rest of (rest, st1) \<Rightarrow>
      case limit_part st1 part of (part', st2) \<Rightarrow> (part' # rest, st2))"

fun limit_item :: "image_budget \<Rightarrow> conversation_item \<Rightarrow> conversation_item \<times> image_budget" where
  "limit_item st (UserItem content) = (case limit_parts st content of (c, st') \<Rightarrow> (UserItem c, st'))"
| "limit_item st (ScriptResult call output outcome) =
     (case limit_parts st output of (c, st') \<Rightarrow> (ScriptResult call c outcome, st'))"
| "limit_item st item = (item, st)"

fun limit_items :: "image_budget \<Rightarrow> conversation_item list \<Rightarrow> conversation_item list \<times> image_budget" where
  "limit_items st [] = ([], st)"
| "limit_items st (item # later) =
     (case limit_items st later of (rest, st1) \<Rightarrow>
      case limit_item st1 item of (item', st2) \<Rightarrow> (item' # rest, st2))"

definition limit_request_images :: "provider_request \<Rightarrow> provider_request" where
  "limit_request_images request =
     request\<lparr>request_messages := fst (limit_items (0, 0) (request_messages request))\<rparr>"

section \<open>Assembling a request\<close>

record refreshed_context_state =
  ctx_snapshots :: "file_context_snapshot list"
  ctx_instructions :: "instruction_snapshot list"
  ctx_notifications :: "string list"

text \<open>Where a piece of file context goes: after its anchor when the history still has it, and
  before the history otherwise.\<close>

type_synonym placement = "conversation_item list \<times> (string \<Rightarrow> conversation_item list)"

definition place :: "string set \<Rightarrow> placement \<Rightarrow> string option \<times> string \<Rightarrow> placement" where
  "place retained st piece = (case (st, piece) of ((messages, anchored), (at, txt)) \<Rightarrow>
     (case at of
        Some a \<Rightarrow>
          if a \<in> retained then (messages, anchored(a := anchored a @ [FileContext txt]))
          else (messages @ [FileContext txt], anchored)
      | None \<Rightarrow> (messages @ [FileContext txt], anchored)))"

definition place_instruction :: "string set \<Rightarrow> placement \<Rightarrow> instruction_snapshot \<Rightarrow> placement" where
  "place_instruction retained st instruction =
     place retained st (instruction_anchor instruction, instruction_text instruction)"

definition place_snapshot :: "string set \<Rightarrow> placement \<Rightarrow> file_context_snapshot \<Rightarrow> placement" where
  "place_snapshot retained st snapshot = place retained st (Some (anchor snapshot), snapshot_text snapshot)"

definition push_message :: "placement \<Rightarrow> message \<Rightarrow> placement" where
  "push_message st m = (case st of (messages, anchored) \<Rightarrow>
     (messages @ [message_content m] @ anchored (message_id m), anchored(message_id m := [])))"

definition assemble_messages ::
  "string \<Rightarrow> refreshed_context_state \<Rightarrow> compaction_checkpoint option \<Rightarrow> message list \<Rightarrow> conversation_item list" where
  "assemble_messages prefix context previous history =
     (let start = SystemItem prefix # (case previous of None \<Rightarrow> [] | Some c \<Rightarrow> replacement c);
          retained = set (map message_id history);
          st = foldl (place_instruction retained) (start, (\<lambda>_. [])) (ctx_instructions context);
          st = foldl (place_snapshot retained) st (ctx_snapshots context)
      in fst (foldl push_message st history))"

definition assemble ::
  "string \<Rightarrow> refreshed_context_state \<Rightarrow> compaction_checkpoint option \<Rightarrow> message list
     \<Rightarrow> script_tool_definition option \<Rightarrow> model_option_values \<Rightarrow> provider_request" where
  "assemble prefix context previous history tool options =
     limit_request_images
       \<lparr>request_messages = assemble_messages prefix context previous history,
        script_tool = tool, cacheable_messages = None, request_options = options\<rparr>"

definition append_notifications :: "provider_request \<Rightarrow> string list \<Rightarrow> provider_request" where
  "append_notifications request notes =
     (if notes = [] then request
      else request\<lparr>request_messages := request_messages request @ [FileContext (join [newline] notes)]\<rparr>)"

section \<open>Messages a checkpoint keeps\<close>

text \<open>\<open>while !text.is_char_boundary(end) { end -= 1; }\<close>.\<close>

fun floor_boundary :: "string \<Rightarrow> nat \<Rightarrow> nat" where
  "floor_boundary s n = (if is_char_boundary s n then n else if n = 0 then 0 else floor_boundary s (n - 1))"

declare floor_boundary.simps [simp del]

text \<open>The loop over the messages from the newest; the result is reversed at the end.\<close>

fun retained_loop :: "nat \<Rightarrow> conversation_item list \<Rightarrow> conversation_item list \<Rightarrow> conversation_item list" where
  "retained_loop remaining retained [] = retained"
| "retained_loop remaining retained (UserItem c # older) =
     (if remaining = 0 then retained
      else
        (let txt = content_display (without_images c);
             end_at = floor_boundary txt (min (length txt) remaining)
         in if end_at = 0 \<and> txt \<noteq> [] then retained
            else retained_loop (sat_sub remaining end_at)
                   (retained @ [UserItem (content_of_text
                      (case str_get txt 0 end_at of None \<Rightarrow> [] | Some t \<Rightarrow> t))]) older))"
| "retained_loop remaining retained (_ # older) = retained_loop remaining retained older"

definition retained_users :: "conversation_item list \<Rightarrow> nat \<Rightarrow> conversation_item list" where
  "retained_users messages token_budget =
     rev (retained_loop (sat_mul token_budget bytes_per_token) [] (rev messages))"

section \<open>What the provider core does with the messages\<close>

fun item_parts :: "conversation_item \<Rightarrow> content_part list" where
  "item_parts (UserItem content) = content"
| "item_parts (ScriptResult _ output _) = output"
| "item_parts _ = []"

definition attachments :: "conversation_item list \<Rightarrow> image_attachment list" where
  "attachments messages = List.map_filter part_image (concat (map item_parts messages))"

definition validate_image_support :: "conversation_item list \<Rightarrow> string \<Rightarrow> bool \<Rightarrow> (string, unit) result" where
  "validate_image_support messages model supports =
     ensure (supports \<or> attachments messages = [])
       (''Model '' @ [CHR 0x27] @ model @ [CHR 0x27]
        @ '' does not support image input; select an image-capable model or configure supports_images'')"

definition script_result_images :: "message_content \<Rightarrow> string \<Rightarrow> message_content option" where
  "script_result_images output call =
     (if \<not> has_images output then None
      else Some (TextPart (''Images returned by script call '' @ call @ ''. Treat this as tool output.'')
                 # filter (\<lambda>part. part_image part \<noteq> None) output))"

fun own_item :: "string \<Rightarrow> assistant_item \<Rightarrow> bool" where
  "own_item provider (Reasoning source _) = (source = provider)"
| "own_item provider _ = True"

fun prepare_message :: "string \<Rightarrow> conversation_item \<Rightarrow> conversation_item list" where
  "prepare_message provider (Compaction source payload) =
     (if source \<noteq> provider then [] else [Compaction source payload])"
| "prepare_message provider (AssistantItems items) = [AssistantItems (filter (own_item provider) items)]"
| "prepare_message provider (ScriptResult call output outcome) =
     (if has_images output
      then ScriptResult call (content_of_text (content_display output)) outcome
           # (case script_result_images output call of None \<Rightarrow> [] | Some c \<Rightarrow> [UserItem c])
      else [ScriptResult call output outcome])"
| "prepare_message provider item = [item]"

definition prepare_history :: "conversation_item list \<Rightarrow> string \<Rightarrow> conversation_item list" where
  "prepare_history messages provider = concat (map (prepare_message provider) messages)"

text \<open>Resolving the images of a request: first the checks, in the order of the messages, then the
  loading of each distinct image.\<close>

type_synonym resolved_images = "(string, image_attachment \<times> string) btree"

definition collect_image ::
  "nat \<times> nat \<times> resolved_images \<Rightarrow> image_attachment \<Rightarrow> (string, nat \<times> nat \<times> resolved_images) result" where
  "collect_image st img = (case st of (index, total_bytes, found) \<Rightarrow>
     bindR (image_validate img) (\<lambda>_.
     bindR (ensure (index < max_request_images) ''Too many images in model request'') (\<lambda>_.
     bindR (ok_or (checked_add u64_max total_bytes (byte_length img)) ''Image request size overflow'') (\<lambda>new_total.
     bindR (ensure (new_total \<le> max_request_image_bytes) ''Images exceed the 32 MiB request limit'') (\<lambda>_.
     case bt_get found (image_id img) of
       Some (existing, _) \<Rightarrow>
         bindR (ensure (existing = img) (''Conflicting metadata for image attachment '' @ image_id img)) (\<lambda>_.
         Inr (index + 1, new_total, found))
     | None \<Rightarrow> Inr (index + 1, new_total, bt_insert (image_id img) (img, []) found))))))"

definition load_image ::
  "(image_attachment \<Rightarrow> (string, string) result) option \<Rightarrow> (string \<Rightarrow> string)
     \<Rightarrow> string \<times> image_attachment \<times> string \<Rightarrow> (string, string \<times> image_attachment \<times> string) result" where
  "load_image resolver encode entry = (case entry of (k, img, _) \<Rightarrow>
     bindR (ok_or resolver ''Image attachments require an image resolver'') (\<lambda>resolve.
     bindR (resolve img) (\<lambda>bytes.
     bindR (ensure (length bytes = byte_length img) ''Image attachment size does not match metadata'') (\<lambda>_.
     Inr (k, img, ''data:'' @ mime_type img @ '';base64,'' @ encode bytes)))))"

definition resolve_images ::
  "(image_attachment \<Rightarrow> (string, string) result) option \<Rightarrow> (string \<Rightarrow> string)
     \<Rightarrow> conversation_item list \<Rightarrow> (string, resolved_images) result" where
  "resolve_images resolver encode messages =
     bindR (foldR collect_image (0, 0, []) (attachments messages)) (\<lambda>(_, _, found).
     mapR (load_image resolver encode) found)"

definition resolve_for_model ::
  "(image_attachment \<Rightarrow> (string, string) result) option \<Rightarrow> (string \<Rightarrow> string)
     \<Rightarrow> conversation_item list \<Rightarrow> string \<Rightarrow> bool \<Rightarrow> (string, resolved_images) result" where
  "resolve_for_model resolver encode messages model supports =
     bindR (validate_image_support messages model supports) (\<lambda>_. resolve_images resolver encode messages)"

definition data_url :: "resolved_images \<Rightarrow> image_attachment \<Rightarrow> (string, string) result" where
  "data_url found img =
     bindR (ok_or (bt_get found (image_id img)) (''Image attachment '' @ image_id img @ '' was not resolved''))
       (\<lambda>(existing, url).
     bindR (ensure (existing = img) ''Conflicting image attachment metadata'') (\<lambda>_. Inr url))"

section \<open>The newest images that fit\<close>

text \<open>The reference: going from the newest image to the oldest, keep what still fits.\<close>

fun keep_images :: "image_budget \<Rightarrow> image_attachment list \<Rightarrow> image_attachment list \<times> image_budget" where
  "keep_images st [] = ([], st)"
| "keep_images st (img # later) =
     (case keep_images st later of (kept, (count, bytes)) \<Rightarrow>
        if count < max_request_images \<and> bytes + byte_length img \<le> max_request_image_bytes
        then (img # kept, (count + 1, bytes + byte_length img)) else (kept, (count, bytes)))"

definition images_fit :: "image_attachment list \<Rightarrow> bool" where
  "images_fit imgs =
     (length imgs \<le> max_request_images \<and> sum_list (map byte_length imgs) \<le> max_request_image_bytes)"

text \<open>A part that is the same, or an image that has become the note about its omission.\<close>

definition same_part :: "content_part \<Rightarrow> content_part \<Rightarrow> bool" where
  "same_part p q = (q = p \<or> (case p of ImagePart img \<Rightarrow> q = omitted_image img | TextPart _ \<Rightarrow> False))"

fun same_item :: "conversation_item \<Rightarrow> conversation_item \<Rightarrow> bool" where
  "same_item (UserItem c) (UserItem d) = list_all2 same_part c d"
| "same_item (ScriptResult k c r) (ScriptResult k' d r') = (k' = k \<and> r' = r \<and> list_all2 same_part c d)"
| "same_item a b = (b = a)"

lemma attachments_simps [simp]:
  "attachments [] = []"
  "attachments (x # xs) = List.map_filter part_image (item_parts x) @ attachments xs"
  "attachments (xs @ ys) = attachments xs @ attachments ys"
  by (simp_all add: attachments_def List.map_filter_def)

lemma omitted_image_text [simp]: "part_image (omitted_image img) = None"
  by (simp add: omitted_image_def)

lemma budget_exact: "sat_add b n \<le> max_request_image_bytes \<longleftrightarrow> b + n \<le> max_request_image_bytes"
  by (auto simp: sat_add_def max_request_image_bytes_def usize_max_def)

lemma keep_images_append:
  "keep_images st (xs @ ys) =
     (case keep_images st ys of (kept, st1) \<Rightarrow> case keep_images st1 xs of (older, st2) \<Rightarrow> (older @ kept, st2))"
  by (induction xs) (auto split: prod.splits)

lemma limit_parts_keep:
  "limit_parts st c = (d, st') \<Longrightarrow>
     keep_images st (List.map_filter part_image c) = (List.map_filter part_image d, st') \<and> list_all2 same_part c d"
proof (induction c arbitrary: d st')
  case Nil
  then show ?case by (simp add: List.map_filter_def)
next
  case (Cons p c)
  obtain rest st1 where r: "limit_parts st c = (rest, st1)" by (metis surj_pair)
  obtain n b where st1: "st1 = (n, b)" by (metis surj_pair)
  show ?case
    using Cons.prems Cons.IH[OF r] r st1
    by (cases p) (auto simp: same_part_def budget_exact split: if_splits)
qed

lemma limit_item_keep:
  assumes "limit_item st x = (y, st')"
  shows "keep_images st (List.map_filter part_image (item_parts x)) =
      (List.map_filter part_image (item_parts y), st') \<and> same_item x y"
  using assms by (cases x) (auto dest: limit_parts_keep split: prod.splits)

lemma limit_items_keep:
  "limit_items st xs = (ys, st') \<Longrightarrow>
     keep_images st (attachments xs) = (attachments ys, st') \<and> list_all2 same_item xs ys"
proof (induction xs arbitrary: ys st')
  case Nil
  then show ?case by simp
next
  case (Cons x xs)
  obtain rest st1 where r: "limit_items st xs = (rest, st1)" by (metis surj_pair)
  obtain y st2 where y: "limit_item st1 x = (y, st2)" by (metis surj_pair)
  show ?case
    using Cons.prems Cons.IH[OF r] limit_item_keep[OF y] r y by (auto simp: keep_images_append)
qed

lemma keep_images_state:
  "keep_images (n, b) imgs = (kept, (n', b')) \<Longrightarrow>
     n' = n + length kept \<and> b' = b + sum_list (map byte_length kept)
     \<and> (n \<le> max_request_images \<longrightarrow> n' \<le> max_request_images)
     \<and> (b \<le> max_request_image_bytes \<longrightarrow> b' \<le> max_request_image_bytes)"
proof (induction imgs arbitrary: kept n' b')
  case Nil
  then show ?case by simp
next
  case (Cons img imgs)
  obtain kept1 n1 b1 where k: "keep_images (n, b) imgs = (kept1, (n1, b1))" by (metis surj_pair)
  show ?case using Cons.prems Cons.IH[OF k] k by (auto split: if_splits)
qed

lemma keep_images_all:
  "n + length imgs \<le> max_request_images \<Longrightarrow> b + sum_list (map byte_length imgs) \<le> max_request_image_bytes
    \<Longrightarrow> keep_images (n, b) imgs = (imgs, (n + length imgs, b + sum_list (map byte_length imgs)))"
  by (induction imgs) auto

text \<open>When everything fits, nothing changes.\<close>

lemma same_part_image:
  "list_all2 same_part c d \<Longrightarrow> length (List.map_filter part_image d) \<le> length (List.map_filter part_image c)
     \<and> (length (List.map_filter part_image d) = length (List.map_filter part_image c) \<longrightarrow> d = c)"
proof (induction rule: list_all2_induct)
  case Nil
  then show ?case by simp
next
  case (Cons p ps q qs)
  then show ?case by (cases p) (auto simp: same_part_def)
qed

lemma same_item_image:
  "same_item x y \<Longrightarrow> length (List.map_filter part_image (item_parts y)) \<le> length (List.map_filter part_image (item_parts x))
     \<and> (length (List.map_filter part_image (item_parts y)) = length (List.map_filter part_image (item_parts x)) \<longrightarrow> y = x)"
  by (cases x; cases y) (auto dest: same_part_image)

lemma same_items_image:
  "list_all2 same_item xs ys \<Longrightarrow> length (attachments ys) \<le> length (attachments xs)
     \<and> (length (attachments ys) = length (attachments xs) \<longrightarrow> ys = xs)"
proof (induction rule: list_all2_induct)
  case Nil
  then show ?case by simp
next
  case (Cons x xs y ys)
  then show ?case using same_item_image[OF Cons(1)] by auto
qed

lemma limit_items_fit:
  assumes "images_fit (attachments xs)"
  shows "fst (limit_items (0, 0) xs) = xs"
proof -
  obtain ys st where l: "limit_items (0, 0) xs = (ys, st)" by (metis surj_pair)
  have "attachments ys = attachments xs"
    using limit_items_keep[OF l] keep_images_all[of 0 "attachments xs" 0] assms
    by (simp add: images_fit_def)
  then show ?thesis using limit_items_keep[OF l] l by (auto dest: same_items_image)
qed

lemma limited_images_fit: "images_fit (attachments (fst (limit_items (0, 0) xs)))"
proof -
  obtain ys n b where l: "limit_items (0, 0) xs = (ys, (n, b))" by (metis surj_pair)
  show ?thesis
    using limit_items_keep[OF l] keep_images_state[of 0 0 "attachments xs" "attachments ys" n b] l
    by (auto simp: images_fit_def)
qed

text \<open>
  The images of a request stay within the limits; those kept are the newest that fit, taken greedily
  from the end; a dropped image leaves the note about it, nothing else changes, and a request whose
  images all fit is unchanged.
\<close>

theorem limit_request_images_exact:
  "images_fit (attachments (request_messages (limit_request_images r)))
   \<and> attachments (request_messages (limit_request_images r)) = fst (keep_images (0, 0) (attachments (request_messages r)))
   \<and> list_all2 same_item (request_messages r) (request_messages (limit_request_images r))
   \<and> (images_fit (attachments (request_messages r)) \<longrightarrow> limit_request_images r = r)"
proof -
  obtain ys st where l: "limit_items (0, 0) (request_messages r) = (ys, st)" by (metis surj_pair)
  then show ?thesis
    using limit_items_keep[OF l] limited_images_fit[of "request_messages r"] limit_items_fit[of "request_messages r"]
    by (simp add: limit_request_images_def)
qed

section \<open>Resolving the images of an assembled request\<close>

definition consistent_images :: "image_attachment list \<Rightarrow> bool" where
  "consistent_images imgs = (\<forall>a \<in> set imgs. \<forall>b \<in> set imgs. image_id a = image_id b \<longrightarrow> a = b)"

text \<open>What the collecting loop knows: a subset of the images seen, each under its id.\<close>

definition collected :: "image_attachment list \<Rightarrow> resolved_images \<Rightarrow> bool" where
  "collected seen found =
     (bt_wf found \<and> (\<forall>k img url. bt_get found k = Some (img, url) \<longrightarrow> image_id img = k \<and> img \<in> set seen)
      \<and> (\<forall>img \<in> set seen. bt_get found (image_id img) \<noteq> None))"

lemma collect_image_ok:
  assumes "collected seen found" "consistent_images (seen @ img # rest)" "image_validate img = Inr ()"
    and "images_fit (seen @ img # rest)"
  shows "\<exists>found'. collect_image (length seen, sum_list (map byte_length seen), found) img =
      Inr (length (seen @ [img]), sum_list (map byte_length (seen @ [img])), found')
    \<and> collected (seen @ [img]) found'"
proof -
  have fits: "length seen < max_request_images"
    "sum_list (map byte_length seen) + byte_length img \<le> max_request_image_bytes"
    "sum_list (map byte_length seen) + byte_length img \<le> u64_max"
    using assms(4) by (auto simp: images_fit_def max_request_image_bytes_def u64_max_def)
  show ?thesis
  proof (cases "bt_get found (image_id img)")
    case None
    have "collected (seen @ [img]) (bt_insert (image_id img) (img, []) found)"
      using assms(1) None by (auto simp: collected_def)
    then show ?thesis
      using None fits assms(3) by (simp add: collect_image_def checked_add_def)
  next
    case (Some entry)
    obtain old url where entry: "entry = (old, url)" by (cases entry)
    have "image_id old = image_id img" "old \<in> set seen"
      using assms(1) Some entry unfolding collected_def by blast+
    then have "old = img"
      using assms(2) by (simp add: consistent_images_def)
    moreover have "collected (seen @ [img]) found"
      using assms(1) Some by (auto simp: collected_def)
    ultimately show ?thesis
      using Some entry fits assms(3) by (simp add: collect_image_def checked_add_def)
  qed
qed

lemma collect_images_ok:
  assumes "collected seen found" "consistent_images (seen @ imgs)" "images_fit (seen @ imgs)"
    and "\<forall>img \<in> set imgs. image_validate img = Inr ()"
  shows "\<exists>n t found'. foldR collect_image (length seen, sum_list (map byte_length seen), found) imgs =
      Inr (n, t, found') \<and> collected (seen @ imgs) found'"
  using assms
proof (induction imgs arbitrary: seen found)
  case Nil
  then show ?case by simp
next
  case (Cons img imgs)
  obtain found1 where f: "collect_image (length seen, sum_list (map byte_length seen), found) img =
      Inr (length (seen @ [img]), sum_list (map byte_length (seen @ [img])), found1)"
    "collected (seen @ [img]) found1"
    using collect_image_ok[OF Cons.prems(1,2)] Cons.prems(3,4) by auto
  show ?case
    using Cons.IH[OF f(2)] Cons.prems f(1) by (simp del: length_append map_append sum_list_append)
qed

lemma load_image_ok:
  assumes "loader img = Inr bytes" "length bytes = byte_length img"
  shows "load_image (Some loader) encode (k, img, u) =
    Inr (k, img, ''data:'' @ mime_type img @ '';base64,'' @ encode bytes)"
  using assms by (simp add: load_image_def)

lemma load_images_ok:
  assumes "\<forall>(k, img, u) \<in> set found. \<exists>bytes. loader img = Inr bytes \<and> length bytes = byte_length img"
  shows "\<exists>loaded. mapR (load_image (Some loader) encode) found = Inr loaded
    \<and> map fst loaded = map fst found \<and> map (\<lambda>e. fst (snd e)) loaded = map (\<lambda>e. fst (snd e)) found"
  using assms
proof (induction found)
  case Nil
  then show ?case by simp
next
  case (Cons e found)
  obtain k img u where e: "e = (k, img, u)" by (metis surj_pair)
  then obtain bytes where "loader img = Inr bytes" "length bytes = byte_length img" using Cons.prems by auto
  then show ?case using Cons e by (auto simp: load_image_ok)
qed

lemma resolve_images_ok:
  assumes "images_fit (attachments msgs)" "consistent_images (attachments msgs)"
    and "\<forall>img \<in> set (attachments msgs). image_validate img = Inr ()
      \<and> (\<exists>bytes. loader img = Inr bytes \<and> length bytes = byte_length img)"
  shows "\<exists>found. resolve_images (Some loader) encode msgs = Inr found
    \<and> (\<forall>img \<in> set (attachments msgs). \<exists>url. data_url found img = Inr url)"
proof -
  have "collected [] []" by (simp add: collected_def)
  from collect_images_ok[OF this, of "attachments msgs"] assms
  obtain n t found where f: "foldR collect_image (0, 0, []) (attachments msgs) = Inr (n, t, found)"
    and c: "collected (attachments msgs) found"
    by auto
  have "img \<in> set (attachments msgs)" if "(k, img, u) \<in> set found" for k img u
    using c that bt_get_mem[of found] unfolding collected_def by blast
  then have "\<forall>(k, img, u) \<in> set found. \<exists>bytes. loader img = Inr bytes \<and> length bytes = byte_length img"
    using assms(3) by auto
  from load_images_ok[OF this, of encode]
  obtain loaded where l: "mapR (load_image (Some loader) encode) found = Inr loaded"
    "map fst loaded = map fst found" "map (\<lambda>e. fst (snd e)) loaded = map (\<lambda>e. fst (snd e)) found"
    by blast
  have get: "\<exists>url'. bt_get loaded k = Some (img, url')" if g: "bt_get found k = Some (img, url)" for k img url
  proof -
    obtain i where i: "i < length found" "found ! i = (k, img, url)"
      using map_of_SomeD[OF g] by (auto simp: in_set_conv_nth)
    have len: "length loaded = length found" using l(2) by (metis length_map)
    have "map fst loaded ! i = map fst found ! i"
      "map (\<lambda>e. fst (snd e)) loaded ! i = map (\<lambda>e. fst (snd e)) found ! i"
      using l(2,3) by simp_all
    then have "fst (loaded ! i) = k" "fst (snd (loaded ! i)) = img"
      using i len by simp_all
    then have "(k, img, snd (snd (loaded ! i))) \<in> set loaded"
      using i(1) len nth_mem[of i loaded] by (metis prod.collapse)
    moreover have "bt_wf found" using c unfolding collected_def by (rule conjunct1)
    then have "bt_wf loaded" unfolding bt_wf_def l(2) .
    ultimately have "bt_get loaded k = Some (img, snd (snd (loaded ! i)))"
      by (simp only: bt_get_mem)
    then show ?thesis by blast
  qed
  have "\<exists>url. data_url loaded img = Inr url" if "img \<in> set (attachments msgs)" for img
  proof -
    have "bt_get found (image_id img) \<noteq> None" using c that unfolding collected_def by blast
    then obtain old url where o: "bt_get found (image_id img) = Some (old, url)" by auto
    then have "image_id old = image_id img \<and> old \<in> set (attachments msgs)"
      using c unfolding collected_def by blast
    then have "old = img"
      using that assms(2) by (simp add: consistent_images_def)
    with get[OF o] show ?thesis by (auto simp: data_url_def)
  qed
  then show ?thesis using f l(1) by (auto simp: resolve_images_def)
qed

section \<open>Preparing the history for a provider\<close>

fun reasoning_source :: "assistant_item \<Rightarrow> string option" where
  "reasoning_source (Reasoning source _) = Some source"
| "reasoning_source _ = None"

fun script_call_id :: "assistant_item \<Rightarrow> string option" where
  "script_call_id (ScriptCallItem c) = Some (call_id c)"
| "script_call_id _ = None"

definition opaque_owner :: "conversation_item \<Rightarrow> string list" where
  "opaque_owner item = (case item of
     Compaction source _ \<Rightarrow> [source]
   | AssistantItems items \<Rightarrow> List.map_filter reasoning_source items
   | _ \<Rightarrow> [])"

definition exchanged_calls :: "conversation_item \<Rightarrow> (string \<times> bool) list" where
  "exchanged_calls item = (case item of
     AssistantItems items \<Rightarrow>
       map (\<lambda>c. (c, True)) (List.map_filter script_call_id items)
   | ScriptResult call _ _ \<Rightarrow> [(call, False)]
   | _ \<Rightarrow> [])"

lemma images_filter: "List.map_filter part_image (filter (\<lambda>p. part_image p \<noteq> None) c) = List.map_filter part_image c"
  by (induction c) (auto simp: List.map_filter_def)

lemma prepare_message_images:
  "attachments (prepare_message provider x) = List.map_filter part_image (item_parts x)"
  by (cases x) (auto simp: images_filter script_result_images_def content_of_text_def List.map_filter_def)

lemma prepare_message_owner: "y \<in> set (prepare_message provider x) \<Longrightarrow> set (opaque_owner y) \<subseteq> {provider}"
  by (cases x)
    (auto simp: opaque_owner_def set_map_filter script_result_images_def split: if_splits
      elim!: reasoning_source.elims)

lemma calls_filter:
  "List.map_filter script_call_id (filter (own_item provider) items) = List.map_filter script_call_id items"
proof (induction items)
  case (Cons i items)
  then show ?case by (cases i) (auto simp: List.map_filter_def)
qed simp

lemma prepare_message_calls: "concat (map exchanged_calls (prepare_message provider x)) = exchanged_calls x"
  by (cases x) (auto simp: exchanged_calls_def calls_filter script_result_images_def)

lemma text_no_images [simp]: "\<not> has_images (content_of_text s)"
  by (simp add: has_images_def content_images_def content_of_text_def List.map_filter_def)

lemma prepare_message_idem: "concat (map (prepare_message provider) (prepare_message provider x)) = prepare_message provider x"
  by (cases x) (auto simp: script_result_images_def)

lemma prepare_history_images: "attachments (prepare_history msgs provider) = attachments msgs"
  by (induction msgs) (simp_all add: prepare_history_def prepare_message_images)

lemma prepare_history_calls:
  "concat (map exchanged_calls (prepare_history msgs provider)) = concat (map exchanged_calls msgs)"
  by (induction msgs) (simp_all add: prepare_history_def prepare_message_calls)

text \<open>
  Before the messages go to a provider, exactly the opaque items of other providers are dropped: what
  is left of them is the provider's own, every script call and every result is still there in the
  same order, the images are the same and in the same order, and preparing again changes nothing.
\<close>

theorem prepare_history_exact:
  "set (concat (map opaque_owner (prepare_history msgs provider))) \<subseteq> {provider}
   \<and> concat (map exchanged_calls (prepare_history msgs provider)) = concat (map exchanged_calls msgs)
   \<and> attachments (prepare_history msgs provider) = attachments msgs
   \<and> prepare_history (prepare_history msgs provider) provider = prepare_history msgs provider"
proof -
  have "set (opaque_owner y) \<subseteq> {provider}" if "y \<in> set (prepare_history msgs provider)" for y
    using that prepare_message_owner by (auto simp: prepare_history_def)
  moreover have "prepare_history (prepare_history msgs provider) provider = prepare_history msgs provider"
    by (induction msgs) (simp_all add: prepare_history_def prepare_message_idem)
  ultimately show ?thesis by (auto simp: prepare_history_images prepare_history_calls)
qed

text \<open>
  A request the agent has assembled never runs into the limits on images: when the images are valid,
  agree on their ids and load at their declared size, every image of the prepared history resolves.
\<close>

theorem assembled_images_resolve:
  assumes "msgs = prepare_history (request_messages (assemble prefix context previous history tool options)) provider"
    and "consistent_images (attachments msgs)"
    and "\<forall>img \<in> set (attachments msgs). image_validate img = Inr ()
      \<and> (\<exists>bytes. loader img = Inr bytes \<and> length bytes = byte_length img)"
  shows "\<exists>found. resolve_for_model (Some loader) encode msgs model True = Inr found
    \<and> (\<forall>img \<in> set (attachments msgs). \<exists>url. data_url found img = Inr url)"
proof -
  have "images_fit (attachments msgs)"
    using limited_images_fit
    by (simp add: assms(1) prepare_history_images assemble_def limit_request_images_def)
  from resolve_images_ok[OF this assms(2,3)] show ?thesis
    by (simp add: resolve_for_model_def validate_image_support_def)
qed

section \<open>The user messages a checkpoint keeps\<close>

fun user_text :: "conversation_item \<Rightarrow> string option" where
  "user_text (UserItem c) = Some (content_display (without_images c))"
| "user_text _ = None"

definition user_texts :: "conversation_item list \<Rightarrow> string list" where
  "user_texts items = List.map_filter user_text items"

abbreviation text_message :: "string \<Rightarrow> conversation_item" where
  "text_message t \<equiv> UserItem (content_of_text t)"

text \<open>The texts kept, newest first, against all of them: cut ones are prefixes, the sizes fit, and
  whatever is strictly within the budget together with everything newer is kept whole.\<close>

definition kept_within :: "nat \<Rightarrow> string list \<Rightarrow> string list \<Rightarrow> bool" where
  "kept_within budget us ts =
     (length ts \<le> length us \<and> sum_list (map length ts) \<le> budget
      \<and> list_all (\<lambda>(t, u). take (length t) u = t) (zip ts us)
      \<and> (\<forall>i < length us. sum_list (map length (take (Suc i) us)) < budget \<longrightarrow> i < length ts \<and> ts ! i = us ! i))"

lemma floor_boundary_facts:
  "is_char_boundary s (floor_boundary s n) \<and> floor_boundary s n \<le> n"
proof (induction s n rule: floor_boundary.induct)
  case (1 s n)
  show ?case
  proof (cases "is_char_boundary s n \<or> n = 0")
    case True
    then show ?thesis by (auto simp: floor_boundary.simps[of s n] is_char_boundary_def)
  next
    case False
    with 1 have "is_char_boundary s (floor_boundary s (n - 1))" "floor_boundary s (n - 1) \<le> n - 1" by auto
    with False show ?thesis by (simp add: floor_boundary.simps[of s n])
  qed
qed

lemma floor_boundary_length [simp]: "floor_boundary s (length s) = length s"
  by (simp add: floor_boundary.simps is_char_boundary_def)

lemma kept_within_Nil: "kept_within b [] []"
  by (simp add: kept_within_def)

lemma kept_within_stop:
  "b = 0 \<or> b \<le> length u \<Longrightarrow> kept_within b (u # us) []"
  by (auto simp: kept_within_def)

lemma kept_within_Cons:
  assumes "kept_within (b - length t) us ts" "length t \<le> b" "take (length t) u = t" "length u < b \<longrightarrow> t = u"
  shows "kept_within b (u # us) (t # ts)"
proof -
  have "i < length (t # ts) \<and> (t # ts) ! i = (u # us) ! i"
    if i: "i < length (u # us)" "sum_list (map length (take (Suc i) (u # us))) < b" for i
  proof (cases i)
    case 0
    then show ?thesis using i(2) assms(4) by simp
  next
    case (Suc j)
    then have "length u + sum_list (map length (take (Suc j) us)) < b" using i(2) by simp
    then have "t = u" "sum_list (map length (take (Suc j) us)) < b - length t" using assms(4) by auto
    then show ?thesis using Suc assms(1) i(1) by (simp add: kept_within_def)
  qed
  then show ?thesis using assms by (auto simp: kept_within_def)
qed

lemma retained_loop_kept:
  "\<exists>ts. retained_loop b acc items = acc @ map text_message ts \<and> kept_within b (user_texts items) ts"
proof (induction items arbitrary: b acc)
  case Nil
  then show ?case by (auto simp: user_texts_def List.map_filter_def kept_within_def intro: exI[of _ "[]"])
next
  case (Cons x items)
  show ?case
  proof (cases "user_text x")
    case None
    then show ?thesis using Cons.IH[of b acc] by (cases x) (auto simp: user_texts_def)
  next
    case (Some u)
    then obtain c where x: "x = UserItem c" and u: "u = content_display (without_images c)" by (cases x) auto
    let ?e = "floor_boundary u (min (length u) b)"
    have e: "is_char_boundary u ?e" "?e \<le> length u" "?e \<le> b"
      using floor_boundary_facts[of u "min (length u) b"] by auto
    have us: "user_texts (x # items) = u # user_texts items" using Some by (simp add: user_texts_def)
    show ?thesis
    proof (cases "b = 0 \<or> ?e = 0 \<and> u \<noteq> []")
      case True
      have "b = 0 \<or> b \<le> length u"
      proof (cases "length u \<le> b")
        case True
        then have "?e = length u" by simp
        with \<open>b = 0 \<or> ?e = 0 \<and> u \<noteq> []\<close> show ?thesis by auto
      qed simp
      then show ?thesis
        using True kept_within_stop[of b u] unfolding us
        by (intro exI[of _ "[]"]) (auto simp: x u[symmetric] Let_def)
    next
      case False
      let ?t = "take ?e u"
      have got: "str_get u 0 ?e = Some ?t" using e by (simp add: str_get_def is_char_boundary_def)
      obtain ts where ts: "retained_loop (b - ?e) (acc @ [text_message ?t]) items =
          (acc @ [text_message ?t]) @ map text_message ts" "kept_within (b - ?e) (user_texts items) ts"
        using Cons.IH by blast
      have "length ?t = ?e" using e(2) by simp
      moreover have "length u < b \<longrightarrow> ?t = u" by (simp add: min_absorb1)
      ultimately have "kept_within b (u # user_texts items) (?t # ts)"
        using kept_within_Cons[of b ?t "user_texts items" ts u] ts(2) e(3) by simp
      then show ?thesis
        using ts(1) got False unfolding us
        by (intro exI[of _ "?t # ts"]) (simp add: x u[symmetric] Let_def)
    qed
  qed
qed

text \<open>
  A checkpoint keeps the newest user messages, in order and without their images: their sizes stay
  within the token budget, each is kept from its beginning, and every message that is within the
  budget together with all newer ones is kept whole.
\<close>

theorem retained_users_newest:
  "\<exists>ts. retained_users msgs n = rev (map text_message ts)
    \<and> kept_within (sat_mul n bytes_per_token) (rev (user_texts msgs)) ts"
proof -
  have "user_texts (rev msgs) = rev (user_texts msgs)"
    by (simp add: user_texts_def List.map_filter_def rev_map rev_filter[symmetric])
  then show ?thesis
    using retained_loop_kept[of "sat_mul n bytes_per_token" "[]" "rev msgs"]
    by (auto simp: retained_users_def)
qed

section \<open>A growing conversation keeps its prefix\<close>

text \<open>The pieces of file context in the order they are placed, each with its anchor.\<close>

definition pieces :: "refreshed_context_state \<Rightarrow> (string option \<times> string) list" where
  "pieces context =
     map (\<lambda>i. (instruction_anchor i, instruction_text i)) (ctx_instructions context)
     @ map (\<lambda>s. (Some (anchor s), snapshot_text s)) (ctx_snapshots context)"

definition is_loose :: "string set \<Rightarrow> string option \<times> string \<Rightarrow> bool" where
  "is_loose retained p = (case fst p of None \<Rightarrow> True | Some a \<Rightarrow> a \<notin> retained)"

definition loose :: "string set \<Rightarrow> (string option \<times> string) list \<Rightarrow> conversation_item list" where
  "loose retained ps = map (\<lambda>p. FileContext (snd p)) (filter (is_loose retained) ps)"

definition pinned_at :: "string \<Rightarrow> (string option \<times> string) list \<Rightarrow> conversation_item list" where
  "pinned_at a ps = map (\<lambda>p. FileContext (snd p)) (filter (\<lambda>p. fst p = Some a) ps)"

definition shown :: "(string option \<times> string) list \<Rightarrow> message \<Rightarrow> conversation_item list" where
  "shown ps m = message_content m # pinned_at (message_id m) ps"

lemma place_step:
  "place R (ms, f) p =
     (if is_loose R p then (ms @ [FileContext (snd p)], f)
      else (ms, f(the (fst p) := f (the (fst p)) @ [FileContext (snd p)])))"
  by (cases p; cases "fst p") (auto simp: place_def is_loose_def)

lemma place_pieces:
  "foldl (place R) (ms, f) ps = (ms @ loose R ps, \<lambda>a. f a @ (if a \<in> R then pinned_at a ps else []))"
proof (induction ps arbitrary: ms f)
  case Nil
  then show ?case by (simp add: loose_def pinned_at_def fun_eq_iff)
next
  case (Cons p ps)
  have "a \<in> R \<Longrightarrow> is_loose R p \<Longrightarrow> fst p \<noteq> Some a" for a by (auto simp: is_loose_def)
  moreover have "\<not> is_loose R p \<Longrightarrow> \<exists>a \<in> R. fst p = Some a" by (auto simp: is_loose_def split: option.splits)
  ultimately show ?case
    by (auto simp: Cons place_step loose_def pinned_at_def fun_eq_iff)
qed

lemma foldl_pieces:
  "foldl (place_snapshot R) (foldl (place_instruction R) st is) ss =
   foldl (place R) st (map (\<lambda>i. (instruction_anchor i, instruction_text i)) is
     @ map (\<lambda>s. (Some (anchor s), snapshot_text s)) ss)"
  by (simp add: foldl_map place_snapshot_def[abs_def] place_instruction_def[abs_def])

lemma push_messages:
  assumes "distinct (map message_id hist)" "\<And>m. m \<in> set hist \<Longrightarrow> f (message_id m) = pinned_at (message_id m) ps"
  shows "fst (foldl push_message (ms, f) hist) = ms @ concat (map (shown ps) hist)"
  using assms
proof (induction hist arbitrary: ms f)
  case Nil
  then show ?case by simp
next
  case (Cons m hist)
  have "(f(message_id m := [])) (message_id m') = pinned_at (message_id m') ps" if "m' \<in> set hist" for m'
    using Cons.prems(1) Cons.prems(2)[of m'] that by (auto simp: image_iff)
  then have "fst (foldl push_message (ms @ shown ps m, f(message_id m := [])) hist) =
      (ms @ shown ps m) @ concat (map (shown ps) hist)"
    using Cons.prems(1) by (intro Cons.IH) auto
  moreover have "push_message (ms, f) m = (ms @ shown ps m, f(message_id m := []))"
    using Cons.prems(2)[of m] by (simp add: push_message_def shown_def)
  ultimately show ?case by simp
qed

lemma assemble_messages_closed:
  assumes "distinct (map message_id hist)"
  shows "assemble_messages prefix context previous hist =
    SystemItem prefix # (case previous of None \<Rightarrow> [] | Some c \<Rightarrow> replacement c)
      @ loose (message_id ` set hist) (pieces context) @ concat (map (shown (pieces context)) hist)"
proof -
  have "fst (foldl push_message (ms, \<lambda>a. if a \<in> message_id ` set hist then pinned_at a ps else []) hist)
      = ms @ concat (map (shown ps) hist)" for ms ps
    using assms by (rule push_messages) simp
  then show ?thesis
    by (simp add: assemble_messages_def Let_def foldl_pieces place_pieces pieces_def[symmetric])
qed

text \<open>A context that only grows at messages of the new part of the history.\<close>

definition grown_context ::
  "message list \<Rightarrow> message list \<Rightarrow> refreshed_context_state \<Rightarrow> refreshed_context_state \<Rightarrow> bool" where
  "grown_context hist new context context' =
     (\<exists>is ss. ctx_instructions context' = ctx_instructions context @ is
        \<and> ctx_snapshots context' = ctx_snapshots context @ ss
        \<and> (\<forall>i \<in> set is. \<exists>m \<in> set new. instruction_anchor i = Some (message_id m))
        \<and> (\<forall>s \<in> set ss. \<exists>m \<in> set new. anchor s = message_id m)
        \<and> (\<forall>p \<in> set (pieces context). \<forall>m \<in> set new. fst p \<noteq> Some (message_id m)))"

lemma filter_pieces:
  assumes "\<And>i. i \<in> set is \<Longrightarrow> \<not> P (instruction_anchor i, instruction_text i)"
    and "\<And>s. s \<in> set ss \<Longrightarrow> \<not> P (Some (anchor s), snapshot_text s)"
    and "ctx_instructions context' = ctx_instructions context @ is"
    and "ctx_snapshots context' = ctx_snapshots context @ ss"
  shows "filter P (pieces context') = filter P (pieces context)"
  using assms by (auto simp: pieces_def filter_map o_def filter_empty_conv)

lemma assembled_grows:
  assumes "distinct (map message_id (hist @ new))" "grown_context hist new context context'"
  shows "\<exists>rest. assemble_messages prefix context' previous (hist @ new) =
    assemble_messages prefix context previous hist @ rest"
proof -
  obtain "is" ss where g: "ctx_instructions context' = ctx_instructions context @ is"
      "ctx_snapshots context' = ctx_snapshots context @ ss"
    and is_new: "\<forall>i \<in> set is. \<exists>m \<in> set new. instruction_anchor i = Some (message_id m)"
    and ss_new: "\<forall>s \<in> set ss. \<exists>m \<in> set new. anchor s = message_id m"
    and old: "\<forall>p \<in> set (pieces context). \<forall>m \<in> set new. fst p \<noteq> Some (message_id m)"
    using assms(2) unfolding grown_context_def by blast
  have disj: "message_id m \<noteq> message_id m'" if "m \<in> set hist" "m' \<in> set new" for m m'
    using assms(1) that by (auto simp: disjoint_iff)
  have loose_new: "filter (is_loose (message_id ` set (hist @ new))) (pieces context') =
      filter (is_loose (message_id ` set (hist @ new))) (pieces context)"
    by (rule filter_pieces[OF _ _ g]) (use is_new ss_new in \<open>force simp: is_loose_def split: option.splits\<close>)+
  have "is_loose (message_id ` set (hist @ new)) p = is_loose (message_id ` set hist) p" if "p \<in> set (pieces context)" for p
    using old that by (auto simp: is_loose_def split: option.splits)
  then have l: "loose (message_id ` set (hist @ new)) (pieces context') = loose (message_id ` set hist) (pieces context)"
    unfolding loose_def loose_new by (metis (no_types, lifting) filter_cong)
  have "pinned_at (message_id m) (pieces context') = pinned_at (message_id m) (pieces context)" if "m \<in> set hist" for m
    unfolding pinned_at_def
    by (rule arg_cong[where f = "map _"], rule filter_pieces[OF _ _ g]) (use is_new ss_new disj[OF that] in force)+
  then have "map (shown (pieces context')) hist = map (shown (pieces context)) hist"
    by (simp add: shown_def)
  then have "concat (map (shown (pieces context')) (hist @ new)) =
      concat (map (shown (pieces context)) hist) @ concat (map (shown (pieces context')) new)"
    by (simp only: map_append concat_append)
  moreover have "distinct (map message_id hist)" using assms(1) by simp
  ultimately show ?thesis
    by (intro exI[of _ "concat (map (shown (pieces context')) new)"])
      (simp only: assemble_messages_closed[OF assms(1)] assemble_messages_closed l append_Cons append.assoc)
qed

text \<open>C35. 
  What keeps a provider's cached prefix valid: when a conversation grows, its file context grows only
  by snapshots and instructions anchored at the new messages, the checkpoint is the same, and all
  images of the longer request are within the limits of a request, then the assembled request grows at
  its end only. It is not claimed of other changes: a file that changed moves its snapshot to a new
  anchor, and past the limits \<open>limit_request_images\<close> rewrites the oldest images; both change what the
  provider has seen.
\<close>

theorem assembled_prefix_stable:
  assumes "distinct (map message_id (hist @ new))" and "grown_context hist new context context'"
    and "images_fit (attachments (assemble_messages prefix context' previous (hist @ new)))"
  shows "\<exists>rest. request_messages (assemble prefix context' previous (hist @ new) tool options) =
    request_messages (assemble prefix context previous hist tool options) @ rest"
proof -
  obtain rest where r: "assemble_messages prefix context' previous (hist @ new) =
      assemble_messages prefix context previous hist @ rest"
    using assembled_grows[OF assms(1,2)] by blast
  have "images_fit (attachments (assemble_messages prefix context previous hist))"
    using assms(3) unfolding r by (auto simp: images_fit_def)
  then show ?thesis
    using r assms(3) by (simp add: assemble_def limit_request_images_def limit_items_fit)
qed

section \<open>Witnesses\<close>

definition sample_image :: image_attachment where
  "sample_image = \<lparr>image_id = replicate 64 (CHR ''a''), mime_type = ''image/png'', width = 1, height = 1, byte_length = 3\<rparr>"

definition sample_message :: "string \<Rightarrow> conversation_item \<Rightarrow> message" where
  "sample_message k c = \<lparr>message_id = k, parent_id = None, message_content = c, message_status = MessageComplete,
     agent_profile_id = None, generation = None\<rparr>"

definition sample_history :: "message list" where
  "sample_history = [sample_message ''m1'' (UserItem [TextPart ''see'', ImagePart sample_image])]"

definition no_context :: refreshed_context_state where
  "no_context = \<lparr>ctx_snapshots = [], ctx_instructions = [], ctx_notifications = []\<rparr>"

definition one_file :: refreshed_context_state where
  "one_file = no_context\<lparr>ctx_snapshots :=
     [\<lparr>snapshot_path = ''f'', opened_event = ''e'', anchor = ''m2'', snapshot_text = ''text''\<rparr>]\<rparr>"

lemma sample_image_valid: "image_validate sample_image = Inr ()"
proof -
  have "list_all image_id_byte (replicate 64 (CHR ''a''))"
    by (simp add: list_all_iff image_id_byte_def byte_def)
  then show ?thesis
    by (simp add: image_validate_def validate_image_id_def sample_image_def max_image_pixels_def max_image_bytes_def)
qed

lemma sample_request_messages:
  "request_messages (assemble ''p'' no_context None sample_history None []) =
     [SystemItem ''p'', UserItem [TextPart ''see'', ImagePart sample_image]]"
  by (simp add: assemble_def assemble_messages_def sample_history_def sample_message_def no_context_def
      push_message_def limit_request_images_def Let_def sample_image_def max_request_images_def
      max_request_image_bytes_def sat_add_def usize_max_def)

theorem limit_request_images_exact_witness:
  "limit_request_images \<lparr>request_messages = [UserItem [ImagePart sample_image]], script_tool = None,
      cacheable_messages = None, request_options = []\<rparr> =
    \<lparr>request_messages = [UserItem [ImagePart sample_image]], script_tool = None,
      cacheable_messages = None, request_options = []\<rparr>"
proof -
  have "images_fit (attachments [UserItem [ImagePart sample_image]])"
    by (simp add: images_fit_def sample_image_def max_request_images_def max_request_image_bytes_def List.map_filter_def)
  with limit_request_images_exact[of "\<lparr>request_messages = [UserItem [ImagePart sample_image]], script_tool = None,
      cacheable_messages = None, request_options = []\<rparr>"] show ?thesis by simp
qed

theorem assembled_images_resolve_witness:
  "\<exists>found url. resolve_for_model (Some (\<lambda>_. Inr ''abc'')) (\<lambda>b. b)
      (prepare_history (request_messages (assemble ''p'' no_context None sample_history None [])) ''own'') ''m'' True = Inr found
    \<and> data_url found sample_image = Inr url"
proof -
  let ?msgs = "prepare_history (request_messages (assemble ''p'' no_context None sample_history None [])) ''own''"
  have imgs: "attachments ?msgs = [sample_image]"
    by (simp add: prepare_history_images sample_request_messages List.map_filter_def)
  have "byte_length sample_image = 3" by (simp add: sample_image_def)
  then show ?thesis
    using assembled_images_resolve[OF refl, of "''p''" no_context None sample_history None "[]" "''own''" "\<lambda>_. Inr ''abc''" "\<lambda>b. b" "''m''"]
    by (auto simp: imgs consistent_images_def sample_image_valid)
qed

theorem assembled_prefix_stable_witness:
  "\<exists>rest. request_messages (assemble ''p'' one_file None
      (sample_history @ [sample_message ''m2'' (UserItem [TextPart ''go on''])]) None []) =
    request_messages (assemble ''p'' no_context None sample_history None []) @ rest"
proof (rule assembled_prefix_stable)
  show "distinct (map message_id (sample_history @ [sample_message ''m2'' (UserItem [TextPart ''go on''])]))"
    by (simp add: sample_history_def sample_message_def)
  show "grown_context sample_history [sample_message ''m2'' (UserItem [TextPart ''go on''])] no_context one_file"
    by (simp add: grown_context_def no_context_def one_file_def sample_message_def pieces_def)
  show "images_fit (attachments (assemble_messages ''p'' one_file None
      (sample_history @ [sample_message ''m2'' (UserItem [TextPart ''go on''])])))"
    by (simp add: assemble_messages_def Let_def sample_history_def sample_message_def one_file_def no_context_def
        place_snapshot_def place_def push_message_def images_fit_def sample_image_def max_request_images_def
        max_request_image_bytes_def List.map_filter_def)
qed

end
