(* ===== verification/Sse.thy ===== *)
theory Sse
  imports Rust_Str
begin

text \<open>
  The server-sent-events reader of crates/llm-providers/kraai-provider-core sse.rs. The response
  body is the list of what the byte stream yields: a chunk of bytes, or the transport's failure.
  The channel is the list of items the consumer has received, and a consumer that is dropped after
  some number of items is part of the model, since every \<open>send\<close> may fail. Events are decoded
  the same way however the transport cuts the body into chunks.
\<close>

section \<open>The channel\<close>

definition MAX_SSE_EVENT_BYTES :: nat where
  "MAX_SSE_EVENT_BYTES = 1024 * 1024"

datatype sse_event = SseData string | SseDone

datatype sse_error =
    SseInterrupted
  | SseLineTooLong
  | SseEventTooLong
  | SseInvalidUtf8
  | SseSendFailed

type_synonym sse_item = "(sse_error, sse_event) result"

text \<open>The sending half: the items received so far, and after how many the receiver is dropped.\<close>

record sse_sender =
  sent_items :: "sse_item list"
  receiver_takes :: "nat option"

definition sse_closed :: "sse_sender \<Rightarrow> bool" where
  "sse_closed tx = (case receiver_takes tx of None \<Rightarrow> False | Some n \<Rightarrow> n \<le> length (sent_items tx))"

definition sse_send :: "sse_sender \<Rightarrow> sse_item \<Rightarrow> sse_sender option" where
  "sse_send tx item =
     (if sse_closed tx then None else Some (tx\<lparr>sent_items := sent_items tx @ [item]\<rparr>))"

text \<open>\<open>let _ = tx.send(item).await\<close>.\<close>

definition sse_try_send :: "sse_sender \<Rightarrow> sse_item \<Rightarrow> sse_sender" where
  "sse_try_send tx item = (case sse_send tx item of None \<Rightarrow> tx | Some tx' \<Rightarrow> tx')"

section \<open>Lines and events\<close>

type_synonym sse_line_result = "(sse_error, bool) result \<times> string option \<times> sse_sender"

definition flush_event :: "sse_sender \<Rightarrow> string option \<Rightarrow> sse_line_result" where
  "flush_event tx event_data = (case event_data of
     None \<Rightarrow> (Inr False, None, tx)
   | Some payload \<Rightarrow>
       if payload = ''[DONE]'' then
         (case sse_send tx (Inr SseDone) of
            None \<Rightarrow> (Inl SseSendFailed, None, tx)
          | Some tx' \<Rightarrow> (Inr True, None, tx'))
       else
         (case sse_send tx (Inr (SseData payload)) of
            None \<Rightarrow> (Inl SseSendFailed, None, tx)
          | Some tx' \<Rightarrow> (Inr False, None, tx')))"

text \<open>\<open>line.strip_suffix(b)\<close>, keeping the line when it does not end with the byte.\<close>

definition strip_last :: "char \<Rightarrow> string \<Rightarrow> string" where
  "strip_last c line = (if line \<noteq> [] \<and> last line = c then butlast line else line)"

definition strip_line_end :: "string \<Rightarrow> string" where
  "strip_line_end line = strip_last (CHR 0x0D) (strip_last newline line)"

definition process_line :: "sse_sender \<Rightarrow> string \<Rightarrow> string option \<Rightarrow> sse_line_result" where
  "process_line tx raw event_data =
     (let line = strip_line_end raw in
      if line = [] then flush_event tx event_data
      else if \<not> utf8_valid line then (Inl SseInvalidUtf8, event_data, tx)
      else if take 5 line = ''data:'' then
        (let data = trim_start (drop 5 line);
             event_bytes =
               sat_add (case event_data of None \<Rightarrow> 0 | Some payload \<Rightarrow> sat_add (length payload) 1)
                 (length data)
         in if MAX_SSE_EVENT_BYTES < event_bytes then (Inl SseEventTooLong, event_data, tx)
            else (case event_data of
                    Some payload \<Rightarrow> (Inr False, Some (payload @ [newline] @ data), tx)
                  | None \<Rightarrow> (Inr False, Some data, tx)))
      else (Inr False, event_data, tx))"

section \<open>Chunks\<close>

text \<open>The loop over a chunk's bytes; \<open>Inl\<close> is a return from the whole task.\<close>

fun scan_chunk ::
  "nat \<Rightarrow> nat \<Rightarrow> nat \<Rightarrow> string \<Rightarrow> string option \<Rightarrow> sse_sender \<Rightarrow> string
    \<Rightarrow> (sse_sender, nat \<times> string option \<times> sse_sender) result" where
  "scan_chunk scanned offset consumed remaining event_data tx [] = Inr (consumed, event_data, tx)"
| "scan_chunk scanned offset consumed remaining event_data tx (b # bs) =
     (if b \<noteq> newline then scan_chunk scanned (Suc offset) consumed remaining event_data tx bs
      else
        (let line_end = scanned + offset + 1;
             line = take (line_end - consumed) remaining;
             tail = drop (line_end - consumed) remaining
         in if MAX_SSE_EVENT_BYTES < length line - 1 then Inl (sse_try_send tx (Inl SseLineTooLong))
            else (case process_line tx line event_data of
                    (Inr True, _, tx') \<Rightarrow> Inl tx'
                  | (Inr False, event_data', tx') \<Rightarrow>
                      scan_chunk scanned (Suc offset) line_end tail event_data' tx' bs
                  | (Inl e, _, tx') \<Rightarrow> Inl (sse_try_send tx' (Inl e)))))"

type_synonym sse_state = "string \<times> string option \<times> sse_sender"

definition receive_chunk :: "sse_state \<Rightarrow> string \<Rightarrow> (sse_sender, sse_state) result" where
  "receive_chunk st chunk = (case st of (buffer, event_data, tx) \<Rightarrow>
     (case scan_chunk (length buffer) 0 0 (buffer @ chunk) event_data tx chunk of
        Inl tx' \<Rightarrow> Inl tx'
      | Inr (consumed, event_data', tx') \<Rightarrow>
          (let buffer' = (if consumed \<noteq> 0 then drop consumed (buffer @ chunk) else buffer @ chunk) in
           if MAX_SSE_EVENT_BYTES < length buffer'
           then Inl (sse_try_send tx' (Inl SseLineTooLong))
           else Inr (buffer', event_data', tx'))))"

text \<open>The end of the body: what is left in the buffer is a line, and what is left of it an event.\<close>

definition finish_events :: "sse_state \<Rightarrow> sse_sender" where
  "finish_events st = (case st of (buffer, event_data, tx) \<Rightarrow>
     if buffer \<noteq> [] then
       (case process_line tx buffer event_data of
          (Inr True, _, tx') \<Rightarrow> tx'
        | (Inr False, event_data', tx') \<Rightarrow> snd (snd (flush_event tx' event_data'))
        | (Inl e, _, tx') \<Rightarrow> sse_try_send tx' (Inl e))
     else snd (snd (flush_event tx event_data)))"

text \<open>The task's loop over the byte stream: a chunk is \<open>Some\<close>, a failed read \<open>None\<close>.\<close>

fun forward_loop :: "sse_state \<Rightarrow> string option list \<Rightarrow> sse_sender" where
  "forward_loop st [] = (if sse_closed (snd (snd st)) then snd (snd st) else finish_events st)"
| "forward_loop st (c # cs) =
     (if sse_closed (snd (snd st)) then snd (snd st)
      else (case c of
              None \<Rightarrow> sse_try_send (snd (snd st)) (Inl SseInterrupted)
            | Some chunk \<Rightarrow>
                (case receive_chunk st chunk of
                   Inl tx \<Rightarrow> tx
                 | Inr st' \<Rightarrow> forward_loop st' cs)))"

definition forward_sse_events :: "nat option \<Rightarrow> string option list \<Rightarrow> sse_sender" where
  "forward_sse_events takes cs =
     forward_loop ([], None, \<lparr>sent_items = [], receiver_takes = takes\<rparr>) cs"

section \<open>Byte by byte\<close>

text \<open>The reference reader takes one byte at a time and keeps only the unfinished line.\<close>

definition feed_byte :: "sse_state \<Rightarrow> char \<Rightarrow> (sse_sender, sse_state) result" where
  "feed_byte st b = (case st of (pending, event_data, tx) \<Rightarrow>
     if b = newline then
       (case process_line tx (pending @ [b]) event_data of
          (Inr True, _, tx') \<Rightarrow> Inl tx'
        | (Inr False, event_data', tx') \<Rightarrow> Inr ([], event_data', tx')
        | (Inl e, _, tx') \<Rightarrow> Inl (sse_try_send tx' (Inl e)))
     else if MAX_SSE_EVENT_BYTES \<le> length pending then Inl (sse_try_send tx (Inl SseLineTooLong))
     else Inr (pending @ [b], event_data, tx))"

definition body_end :: "bool \<Rightarrow> sse_state \<Rightarrow> sse_sender" where
  "body_end fails st =
     (if fails then sse_try_send (snd (snd st)) (Inl SseInterrupted) else finish_events st)"

definition read_bytes :: "sse_state \<Rightarrow> string \<Rightarrow> bool \<Rightarrow> sse_sender" where
  "read_bytes st bs fails =
     (case foldR feed_byte st bs of Inl tx \<Rightarrow> tx | Inr st' \<Rightarrow> body_end fails st')"

text \<open>The bytes that arrive before the body ends or fails.\<close>

fun body_bytes :: "string option list \<Rightarrow> string" where
  "body_bytes (Some c # cs) = c @ body_bytes cs"
| "body_bytes _ = []"

definition body_fails :: "string option list \<Rightarrow> bool" where
  "body_fails cs = (None \<in> set cs)"

abbreviation new_sender :: "nat option \<Rightarrow> sse_sender" where
  "new_sender takes \<equiv> \<lparr>sent_items = [], receiver_takes = takes\<rparr>"

lemma body_bytes_chunks [simp]: "body_bytes (map Some cs) = concat cs"
  by (induction cs) auto

lemma body_fails_simps [simp]:
  "body_fails [] = False" "body_fails (None # cs) = True" "body_fails (Some c # cs) = body_fails cs"
  "body_fails (map Some ds) = False"
  by (auto simp: body_fails_def)

subsection \<open>A chunk is its bytes\<close>

lemma scan_chunk_bytes:
  assumes "consumed \<le> scanned + offset" "length p = scanned + offset - consumed"
  shows "(case scan_chunk scanned offset consumed (p @ bs) ev tx bs of
       Inl tx' \<Rightarrow> Inl tx'
     | Inr (c, ev', tx') \<Rightarrow>
         if MAX_SSE_EVENT_BYTES < length (drop (c - consumed) (p @ bs))
         then Inl (sse_try_send tx' (Inl SseLineTooLong))
         else Inr (drop (c - consumed) (p @ bs), ev', tx'))
     = (if MAX_SSE_EVENT_BYTES < length p then Inl (sse_try_send tx (Inl SseLineTooLong))
        else foldR feed_byte (p, ev, tx) bs)
   \<and> (case scan_chunk scanned offset consumed (p @ bs) ev tx bs of
        Inl _ \<Rightarrow> True | Inr (c, _, _) \<Rightarrow> consumed \<le> c)"
  using assms
proof (induction bs arbitrary: offset consumed p ev tx)
  case Nil
  then show ?case by simp
next
  case (Cons b bs)
  show ?case
  proof (cases "b = newline")
    case False
    have "length (p @ [b]) = scanned + Suc offset - consumed" "consumed \<le> scanned + Suc offset"
      using Cons.prems by auto
    note IH = Cons.IH[OF this(2,1), of ev tx, unfolded append.assoc append_Cons append_Nil]
    show ?thesis
      using IH False by (auto simp: feed_byte_def split: if_splits)
  next
    case True
    obtain r ev' tx' where pl: "process_line tx (p @ [b]) ev = (r, ev', tx')"
      by (metis surj_pair)
    have le: "scanned + offset + 1 - consumed = Suc (length p)"
      using Cons.prems by auto
    have "length [] = scanned + Suc offset - (scanned + offset + 1)"
      "scanned + offset + 1 \<le> scanned + Suc offset" by auto
    note IH = Cons.IH[OF this(2,1), of ev' tx']
    have dr: "drop (c - consumed) (p @ b # bs) = drop (c - Suc (scanned + offset)) bs"
      if "Suc (scanned + offset) \<le> c" for c
    proof -
      have "c - consumed = Suc (length p) + (c - Suc (scanned + offset))"
        using that Cons.prems by auto
      then show ?thesis by simp
    qed
    have step: "scan_chunk scanned offset consumed (p @ b # bs) ev tx (b # bs) =
      (if MAX_SSE_EVENT_BYTES < length p then Inl (sse_try_send tx (Inl SseLineTooLong))
       else (case (r, ev', tx') of
                    (Inr True, _, tx') \<Rightarrow> Inl tx'
                  | (Inr False, event_data', tx') \<Rightarrow>
                      scan_chunk scanned (Suc offset) (scanned + offset + 1) bs event_data' tx' bs
                  | (Inl e, _, tx') \<Rightarrow> Inl (sse_try_send tx' (Inl e))))"
      using True pl unfolding scan_chunk.simps Let_def le
      by (cases r) (simp_all split: bool.split)
    show ?thesis
    proof (cases "MAX_SSE_EVENT_BYTES < length p")
      case True
      then show ?thesis by (simp add: step del: scan_chunk.simps)
    next
      case False
      have fd: "foldR feed_byte (p, ev, tx) (b # bs) = (case (r, ev', tx') of
                    (Inr True, _, tx') \<Rightarrow> Inl tx'
                  | (Inr False, event_data', tx') \<Rightarrow> foldR feed_byte ([], event_data', tx') bs
                  | (Inl e, _, tx') \<Rightarrow> Inl (sse_try_send tx' (Inl e)))"
        using \<open>b = newline\<close> pl by (auto simp: feed_byte_def split: sum.split bool.split)
      show ?thesis
      proof (cases "r = Inr False")
        case r: True
        let ?scan = "scan_chunk scanned (Suc offset) (scanned + offset + 1) bs ev' tx' bs"
        show ?thesis
        proof (cases ?scan)
          case (Inl t)
          then show ?thesis
            using IH False unfolding step fd r
            by (simp del: foldR.simps scan_chunk.simps)
        next
          case (Inr x)
          obtain c e t where x: "x = (c, e, t)" by (metis surj_pair)
          have c: "Suc (scanned + offset) \<le> c" "consumed \<le> c"
            using IH Cons.prems(1) Inr x by auto
          show ?thesis
            using IH False Inr c x unfolding step fd r
            by (auto simp: dr simp del: foldR.simps scan_chunk.simps drop_append length_drop
                split: if_splits)
        qed
      next
        case r: False
        then show ?thesis
          using False unfolding step fd
          by (auto simp del: foldR.simps scan_chunk.simps split: sum.split bool.split)
      qed
    qed
  qed
qed

lemma receive_chunk_bytes:
  assumes "length buffer \<le> MAX_SSE_EVENT_BYTES"
  shows "receive_chunk (buffer, ev, tx) chunk = foldR feed_byte (buffer, ev, tx) chunk"
  using scan_chunk_bytes[of 0 "length buffer" 0 buffer chunk ev tx] assms
  by (auto simp: receive_chunk_def Let_def split: sum.splits if_splits)

subsection \<open>What an operation does to the channel\<close>

text \<open>Items are only appended, and nothing is appended once the receiver is gone.\<close>

definition sender_step :: "sse_sender \<Rightarrow> sse_sender \<Rightarrow> bool" where
  "sender_step tx tx' =
     (receiver_takes tx' = receiver_takes tx \<and>
      (\<exists>xs. sent_items tx' = sent_items tx @ xs \<and> (sse_closed tx \<longrightarrow> xs = [])))"

lemma sender_step_refl [simp]: "sender_step tx tx"
  by (simp add: sender_step_def)

lemma sender_step_trans: "sender_step a b \<Longrightarrow> sender_step b c \<Longrightarrow> sender_step a c"
  by (auto simp: sender_step_def sse_closed_def split: option.splits)

lemma sender_step_closed: "sender_step tx tx' \<Longrightarrow> sse_closed tx \<Longrightarrow> tx' = tx"
  by (auto simp: sender_step_def)

lemma sender_step_send: "sse_send tx x = Some tx' \<Longrightarrow> sender_step tx tx'"
  by (auto simp: sse_send_def sender_step_def split: if_splits)

lemma sender_step_try_send [simp]: "sender_step tx (sse_try_send tx x)"
  by (auto simp: sse_try_send_def sender_step_send split: option.split)

lemma sender_step_flush: "flush_event tx ev = (r, ev', tx') \<Longrightarrow> sender_step tx tx'"
  by (auto simp: flush_event_def sender_step_send split: option.splits if_splits)

lemma sender_step_line: "process_line tx l ev = (r, ev', tx') \<Longrightarrow> sender_step tx tx'"
  by (auto simp: process_line_def Let_def sender_step_flush split: option.splits if_splits)

lemma sender_step_byte:
  "feed_byte (p, ev, tx) b = Inl t \<Longrightarrow> sender_step tx t"
  "feed_byte (p, ev, tx) b = Inr (p', ev', t) \<Longrightarrow> sender_step tx t"
  by (auto simp: feed_byte_def dest: sender_step_line intro: sender_step_trans
      split: if_splits prod.splits sum.splits bool.splits)

lemma sender_step_flushed [simp]: "sender_step tx (snd (snd (flush_event tx ev)))"
  by (metis prod.collapse sender_step_flush)

lemma sender_step_body_end: "sender_step tx (body_end fails (p, ev, tx))"
  by (auto simp: body_end_def finish_events_def dest!: sender_step_line intro: sender_step_trans
      split: prod.splits sum.splits bool.splits)

lemma sender_step_read: "sender_step tx (read_bytes (p, ev, tx) bs fails)"
proof (induction bs arbitrary: p ev tx)
  case Nil
  then show ?case by (simp add: read_bytes_def sender_step_body_end)
next
  case (Cons b bs)
  show ?case
  proof (cases "feed_byte (p, ev, tx) b")
    case (Inl t)
    then show ?thesis by (simp add: read_bytes_def sender_step_byte(1))
  next
    case (Inr st)
    obtain p' ev' t where st: "st = (p', ev', t)" by (metis surj_pair)
    have "read_bytes (p, ev, tx) (b # bs) fails = read_bytes (p', ev', t) bs fails"
      using Inr st by (simp add: read_bytes_def)
    then show ?thesis
      using sender_step_byte(2)[of p ev tx b p' ev' t] Inr st Cons.IH
      by (metis sender_step_trans)
  qed
qed

lemma read_bytes_append:
  "read_bytes st (bs @ cs) fails =
     (case foldR feed_byte st bs of Inl t \<Rightarrow> t | Inr st' \<Rightarrow> read_bytes st' cs fails)"
  by (auto simp: read_bytes_def foldR_append split: sum.split)

lemma feed_byte_short:
  "feed_byte (p, ev, tx) b = Inr (p', ev', t) \<Longrightarrow> length p \<le> MAX_SSE_EVENT_BYTES
    \<Longrightarrow> length p' \<le> MAX_SSE_EVENT_BYTES"
  by (auto simp: feed_byte_def split: if_splits prod.splits sum.splits bool.splits)

lemma feed_bytes_short:
  "foldR feed_byte (p, ev, tx) bs = Inr (p', ev', t) \<Longrightarrow> length p \<le> MAX_SSE_EVENT_BYTES
    \<Longrightarrow> length p' \<le> MAX_SSE_EVENT_BYTES"
  using foldR_invariant[of feed_byte "(p, ev, tx)" bs "(p', ev', t)"
      "\<lambda>st. length (fst st) \<le> MAX_SSE_EVENT_BYTES"] feed_byte_short
  by (metis (no_types, lifting) fst_conv surj_pair)

text \<open>The task's loop is the byte-wise reader on the bytes that arrive.\<close>

lemma forward_loop_bytes:
  "length p \<le> MAX_SSE_EVENT_BYTES
    \<Longrightarrow> forward_loop (p, ev, tx) cs = read_bytes (p, ev, tx) (body_bytes cs) (body_fails cs)"
proof (induction cs arbitrary: p ev tx)
  case Nil
  then show ?case
    using sender_step_closed[OF sender_step_body_end[of tx False p ev]]
    by (auto simp: read_bytes_def body_end_def)
next
  case (Cons c cs)
  show ?case
  proof (cases "sse_closed tx")
    case True
    then show ?thesis
      using sender_step_closed[OF sender_step_read] by auto
  next
    case opened: False
    show ?thesis
    proof (cases c)
      case None
      then show ?thesis using opened by (simp add: read_bytes_def body_end_def)
    next
      case (Some chunk)
      show ?thesis
      proof (cases "foldR feed_byte (p, ev, tx) chunk")
        case (Inl t)
        then show ?thesis
          using opened Some Cons.prems by (simp add: receive_chunk_bytes read_bytes_append)
      next
        case (Inr st)
        obtain p' ev' t where st: "st = (p', ev', t)" by (metis surj_pair)
        have "length p' \<le> MAX_SSE_EVENT_BYTES"
          using Inr st Cons.prems by (auto dest: feed_bytes_short)
        then show ?thesis
          using opened Some Inr st Cons.prems Cons.IH
          by (simp add: receive_chunk_bytes read_bytes_append)
      qed
    qed
  qed
qed

text \<open>C24. 
  However the transport cuts the response body into chunks, the consumer receives exactly what the
  byte-wise reader sends for the bytes that arrived: a line split over chunks, several lines in one
  chunk and a failure of the transport change nothing but the moment an event is sent.
\<close>

theorem sse_chunking_independent:
  "forward_sse_events takes cs =
     read_bytes ([], None, new_sender takes) (body_bytes cs) (body_fails cs)"
  unfolding forward_sse_events_def by (rule forward_loop_bytes) simp

section \<open>A consumer that leaves early\<close>

text \<open>The channel of a consumer that takes \<open>n\<close> items, from that of one that takes all.\<close>

definition limited :: "nat \<Rightarrow> sse_sender \<Rightarrow> sse_sender" where
  "limited n tx = \<lparr>sent_items = take n (sent_items tx), receiver_takes = Some n\<rparr>"

lemma limited_closed: "sse_closed (limited n tx) \<longleftrightarrow> n \<le> length (sent_items tx)"
  by (auto simp: sse_closed_def limited_def)

lemma limited_step:
  "sender_step tx tx' \<Longrightarrow> n \<le> length (sent_items tx) \<Longrightarrow> limited n tx' = limited n tx"
  by (auto simp: sender_step_def limited_def)

lemma limited_send:
  "receiver_takes tx = None \<Longrightarrow> length (sent_items tx) < n
    \<Longrightarrow> sse_send (limited n tx) x = map_option (limited n) (sse_send tx x)"
  by (auto simp: sse_send_def limited_closed) (auto simp: limited_def sse_closed_def)

lemma limited_try_send:
  assumes "receiver_takes tx = None"
  shows "sse_try_send (limited n tx) x = limited n (sse_try_send tx x)"
proof (cases "n \<le> length (sent_items tx)")
  case True
  have "sse_try_send (limited n tx) x = limited n tx"
    using sender_step_closed[OF sender_step_try_send] True by (simp add: limited_closed)
  then show ?thesis using limited_step[OF sender_step_try_send True] by simp
next
  case False
  then show ?thesis
    using assms by (auto simp: sse_try_send_def limited_send split: option.split)
qed

lemma limited_flush:
  "receiver_takes tx = None \<Longrightarrow> length (sent_items tx) < n
    \<Longrightarrow> flush_event (limited n tx) ev = map_prod id (map_prod id (limited n)) (flush_event tx ev)"
  by (auto simp: flush_event_def limited_send split: option.split)

lemma limited_flushed:
  assumes "receiver_takes tx = None"
  shows "snd (snd (flush_event (limited n tx) ev)) = limited n (snd (snd (flush_event tx ev)))"
proof (cases "n \<le> length (sent_items tx)")
  case True
  have "snd (snd (flush_event (limited n tx) ev)) = limited n tx"
    using sender_step_closed[OF sender_step_flushed] True by (simp add: limited_closed)
  then show ?thesis using limited_step[OF sender_step_flushed True] by simp
next
  case False
  then show ?thesis using assms by (simp add: limited_flush)
qed

lemma limited_line:
  "receiver_takes tx = None \<Longrightarrow> length (sent_items tx) < n
    \<Longrightarrow> process_line (limited n tx) l ev = map_prod id (map_prod id (limited n)) (process_line tx l ev)"
  by (auto simp: process_line_def Let_def limited_flush split: option.split)

lemma open_step: "sender_step tx tx' \<Longrightarrow> receiver_takes tx = None \<Longrightarrow> receiver_takes tx' = None"
  by (simp add: sender_step_def)

lemma limited_byte:
  assumes "receiver_takes tx = None" "length (sent_items tx) < n"
  shows "feed_byte (p, ev, limited n tx) b =
    map_sum (limited n) (map_prod id (map_prod id (limited n))) (feed_byte (p, ev, tx) b)"
proof -
  obtain r ev' t where l: "process_line tx (p @ [b]) ev = (r, ev', t)" by (metis surj_pair)
  have "receiver_takes t = None" using l assms(1) by (metis sender_step_line open_step)
  then show ?thesis
    using assms l
    by (auto simp: feed_byte_def limited_line limited_try_send split: sum.split bool.split)
qed

lemma limited_body_end:
  assumes "receiver_takes tx = None" "length (sent_items tx) < n"
  shows "body_end fails (p, ev, limited n tx) = limited n (body_end fails (p, ev, tx))"
proof -
  obtain r ev' t where l: "process_line tx p ev = (r, ev', t)" by (metis surj_pair)
  have "receiver_takes t = None" using l assms(1) by (metis sender_step_line open_step)
  then show ?thesis
    using assms l
    by (auto simp: body_end_def finish_events_def limited_line limited_try_send limited_flushed
        split: sum.split bool.split)
qed

lemma limited_read:
  "receiver_takes tx = None
    \<Longrightarrow> read_bytes (p, ev, limited n tx) bs fails = limited n (read_bytes (p, ev, tx) bs fails)"
proof (induction bs arbitrary: p ev tx)
  case Nil
  show ?case
  proof (cases "n \<le> length (sent_items tx)")
    case True
    then show ?thesis
      using sender_step_closed[OF sender_step_read] limited_step[OF sender_step_read True]
      by (metis limited_closed)
  next
    case False
    then show ?thesis using Nil by (simp add: read_bytes_def limited_body_end)
  qed
next
  case (Cons b bs)
  show ?case
  proof (cases "n \<le> length (sent_items tx)")
    case True
    then show ?thesis
      using sender_step_closed[OF sender_step_read] limited_step[OF sender_step_read True]
      by (metis limited_closed)
  next
    case False
    show ?thesis
    proof (cases "feed_byte (p, ev, tx) b")
      case (Inl t)
      then show ?thesis using False Cons.prems by (simp add: read_bytes_def limited_byte)
    next
      case (Inr st)
      obtain p' ev' t where st: "st = (p', ev', t)" by (metis surj_pair)
      have "receiver_takes t = None"
        using open_step[OF sender_step_byte(2) Cons.prems] Inr st by simp
      from Cons.IH[OF this, of p' ev'] show ?thesis
        using False Inr st Cons.prems by (simp add: read_bytes_def limited_byte)
    qed
  qed
qed

text \<open>
  A consumer that is dropped after \<open>n\<close> items has received the first \<open>n\<close> of the items a patient
  consumer receives, and the task ends: a closed channel never reorders or changes what was sent.
\<close>

theorem sse_dropped_consumer_prefix:
  "sent_items (forward_sse_events (Some n) cs) = take n (sent_items (forward_sse_events None cs))"
proof -
  have "new_sender (Some n) = limited n (new_sender None)" by (simp add: limited_def)
  then show ?thesis
    using limited_read[of "new_sender None" "[]" None n "body_bytes cs" "body_fails cs"]
    unfolding forward_sse_events_def
    by (simp add: forward_loop_bytes) (simp add: limited_def)
qed

section \<open>Encoding and decoding\<close>

text \<open>What a provider writes for one event: a \<open>data:\<close> line per line of the payload, then an empty
  line. A payload line is text that the format can carry unchanged.\<close>

definition plain_line :: "string \<Rightarrow> bool" where
  "plain_line l =
     (newline \<notin> set l \<and> utf8_valid l \<and> trim_start l = l \<and> (l = [] \<or> last l \<noteq> CHR 0x0D)
      \<and> length l + 6 \<le> MAX_SSE_EVENT_BYTES)"

definition data_line :: "string \<Rightarrow> string" where
  "data_line l = ''data: '' @ l @ [newline]"

definition sse_encode :: "string list \<Rightarrow> string" where
  "sse_encode ls = concat (map data_line ls) @ [newline]"

fun sse_payload :: "string list \<Rightarrow> string" where
  "sse_payload [] = []"
| "sse_payload (l # ls) = l @ concat (map ((#) newline) ls)"

definition encodable :: "string list \<Rightarrow> bool" where
  "encodable ls =
     (ls \<noteq> [] \<and> list_all plain_line ls \<and> length (sse_payload ls) \<le> MAX_SSE_EVENT_BYTES)"

lemma utf8_valid_ascii: "byte c < 128 \<Longrightarrow> utf8_valid (c # s) = utf8_valid s"
  by (subst utf8_valid.simps) (simp add: scalar_ascii)

lemma feed_plain:
  "newline \<notin> set l \<Longrightarrow> length p + length l \<le> MAX_SSE_EVENT_BYTES
    \<Longrightarrow> foldR feed_byte (p, ev, tx) l = Inr (p @ l, ev, tx)"
  by (induction l arbitrary: p) (auto simp: feed_byte_def)

lemma strip_data_line:
  "plain_line l \<Longrightarrow> strip_line_end (''data: '' @ l @ [newline]) = ''data: '' @ l"
  by (auto simp: strip_line_end_def strip_last_def plain_line_def)

lemma trim_start_space: "trim_start (CHR '' '' # l) = trim_start l"
  by (subst trim_start.simps) (simp add: space_len_def byte_def)

lemma process_data_line:
  assumes "plain_line l"
    and "length (case ev of None \<Rightarrow> l | Some pay \<Rightarrow> pay @ newline # l) \<le> MAX_SSE_EVENT_BYTES"
  shows "process_line tx (data_line l) ev =
    (Inr False, Some (case ev of None \<Rightarrow> l | Some pay \<Rightarrow> pay @ newline # l), tx)"
proof -
  have "utf8_valid (''data: '' @ l)" "trim_start (CHR '' '' # l) = l"
    using assms(1) by (simp_all add: utf8_valid_ascii plain_line_def byte_def trim_start_space)
  then show ?thesis
    using assms unfolding process_line_def data_line_def strip_data_line[OF assms(1)]
    by (auto simp: Let_def sat_add_def MAX_SSE_EVENT_BYTES_def usize_max_def split: option.split)
qed

lemma feed_data_line:
  assumes "plain_line l"
    and "length (case ev of None \<Rightarrow> l | Some pay \<Rightarrow> pay @ newline # l) \<le> MAX_SSE_EVENT_BYTES"
  shows "foldR feed_byte ([], ev, tx) (data_line l) =
    Inr ([], Some (case ev of None \<Rightarrow> l | Some pay \<Rightarrow> pay @ newline # l), tx)"
proof -
  have "foldR feed_byte ([], ev, tx) (''data: '' @ l) = Inr (''data: '' @ l, ev, tx)"
    using assms(1) feed_plain[of "''data: '' @ l" "[]" ev tx] by (auto simp: plain_line_def)
  moreover have "data_line l = (''data: '' @ l) @ [newline]" by (simp add: data_line_def)
  ultimately show ?thesis
    using process_data_line[OF assms, of tx]
    by (simp only: foldR_append bindR_Inr) (simp add: feed_byte_def data_line_def)
qed

lemma feed_data_lines:
  "list_all plain_line ls \<Longrightarrow> length (pay @ concat (map ((#) newline) ls)) \<le> MAX_SSE_EVENT_BYTES
    \<Longrightarrow> foldR feed_byte ([], Some pay, tx) (concat (map data_line ls)) =
      Inr ([], Some (pay @ concat (map ((#) newline) ls)), tx)"
proof (induction ls arbitrary: pay)
  case Nil
  then show ?case by simp
next
  case (Cons l ls)
  have "foldR feed_byte ([], Some pay, tx) (data_line l) = Inr ([], Some (pay @ newline # l), tx)"
    using Cons.prems feed_data_line[of l "Some pay"] by simp
  then show ?case using Cons by (simp add: foldR_append)
qed

lemma feed_event:
  assumes "encodable ls" "receiver_takes tx = None"
  shows "foldR feed_byte ([], None, tx) (sse_encode ls) =
    (if sse_payload ls = ''[DONE]'' then Inl (tx\<lparr>sent_items := sent_items tx @ [Inr SseDone]\<rparr>)
     else Inr ([], None, tx\<lparr>sent_items := sent_items tx @ [Inr (SseData (sse_payload ls))]\<rparr>))"
proof -
  obtain l t where ls: "ls = l # t" using assms(1) by (cases ls) (auto simp: encodable_def)
  have "foldR feed_byte ([], None, tx) (data_line l) = Inr ([], Some l, tx)"
    using assms(1) feed_data_line[of l None] by (auto simp: encodable_def ls)
  moreover have "foldR feed_byte ([], Some l, tx) (concat (map data_line t)) =
      Inr ([], Some (sse_payload ls), tx)"
    using assms(1) feed_data_lines[of t l tx] by (simp add: encodable_def ls)
  moreover have "feed_byte ([], Some pay, tx) newline =
      (if pay = ''[DONE]'' then Inl (tx\<lparr>sent_items := sent_items tx @ [Inr SseDone]\<rparr>)
       else Inr ([], None, tx\<lparr>sent_items := sent_items tx @ [Inr (SseData pay)]\<rparr>))" for pay
    using assms(2)
    by (simp add: feed_byte_def process_line_def strip_line_end_def strip_last_def flush_event_def
        sse_send_def sse_closed_def)
  ultimately show ?thesis
    by (simp add: sse_encode_def foldR_append ls del: sse_payload.simps)
qed

lemma feed_events:
  assumes "list_all encodable es" "''[DONE]'' \<notin> sse_payload ` set es" "receiver_takes tx = None"
  shows "foldR feed_byte ([], None, tx) (concat (map sse_encode es)) =
    Inr ([], None, tx\<lparr>sent_items := sent_items tx @ map (\<lambda>e. Inr (SseData (sse_payload e))) es\<rparr>)"
  using assms
proof (induction es arbitrary: tx)
  case Nil
  then show ?case by simp
next
  case (Cons e es)
  then have "sse_payload e \<noteq> ''[DONE]''" by auto
  with Cons show ?case by (simp add: foldR_append feed_event)
qed

lemma done_encodable: "encodable [''[DONE]'']"
  by (simp add: encodable_def plain_line_def MAX_SSE_EVENT_BYTES_def utf8_valid.simps scalar_len_def
      trim_start.simps space_len_def byte_def)

text \<open>C25. 
  Round trip: when a provider encodes payloads as events and ends with the \<open>[DONE]\<close> event, the
  consumer receives those payloads in order and then the end mark, whatever the chunking; bytes
  after the end mark are never looked at.
\<close>

theorem sse_events_roundtrip:
  assumes "list_all encodable es" and "''[DONE]'' \<notin> sse_payload ` set es"
    and "concat cs = concat (map sse_encode es) @ sse_encode [''[DONE]''] @ rest"
  shows "sent_items (forward_sse_events None (map Some cs)) =
    map (\<lambda>e. Inr (SseData (sse_payload e))) es @ [Inr SseDone]"
  using feed_events[OF assms(1,2), of "new_sender None"] feed_event[OF done_encodable]
  unfolding forward_sse_events_def
  by (simp add: forward_loop_bytes assms(3) read_bytes_append)

theorem sse_events_roundtrip_witness:
  "sent_items (forward_sse_events None
      (map Some [''data: a'', ''b'' @ [newline] @ ''data:'', '' c'' @ [newline, newline] @ ''data: [DO'',
         ''NE]'' @ [newline, newline] @ ''data: x'']))
   = [Inr (SseData (''ab'' @ [newline] @ ''c'')), Inr SseDone]"
  using sse_events_roundtrip[of "[[''ab'', ''c'']]"
      "[''data: a'', ''b'' @ [newline] @ ''data:'', '' c'' @ [newline, newline] @ ''data: [DO'',
         ''NE]'' @ [newline, newline] @ ''data: x'']" "''data: x''"]
  by (simp add: sse_encode_def data_line_def encodable_def plain_line_def MAX_SSE_EVENT_BYTES_def
      utf8_valid.simps scalar_len_def trim_start.simps space_len_def byte_def)

end
