(* ===== verification/Provider_Errors.thy ===== *)
theory Provider_Errors
  imports Http_Retry Execution_Types
begin

text \<open>
  The errors of a provider (crates/llm-providers/kraai-provider-core error.rs): how a failed
  response or an error inside a stream is classified, and which errors an identical request may
  get past. The JSON parser is an argument; the errors of registration and configuration, which no
  request meets, carry only their text.
\<close>

section \<open>Errors\<close>

datatype provider_error =
    ContextWindowExceeded string
  | ProviderStreamInterrupted string
  | RateLimitedError string "nat option"
  | ProviderUnavailable "nat option" string
  | Authentication nat string
  | RequestError nat string
  | TransportError string
  | SetupError string

definition retry_after_hint :: "nat option \<Rightarrow> string" where
  "retry_after_hint after = (case after of
     None \<Rightarrow> [] | Some delay \<Rightarrow> '' (retry after '' @ nat_digits (delay div nanos 1) @ '' s)'')"

fun provider_error_text :: "provider_error \<Rightarrow> string" where
  "provider_error_text (ContextWindowExceeded m) = ''Model context window exceeded: '' @ m"
| "provider_error_text (ProviderStreamInterrupted m) = ''Provider stream interrupted: '' @ m"
| "provider_error_text (RateLimitedError m after) = m @ retry_after_hint after"
| "provider_error_text (ProviderUnavailable _ m) = m"
| "provider_error_text (Authentication _ m) = m"
| "provider_error_text (RequestError _ m) = m"
| "provider_error_text (TransportError m) = m"
| "provider_error_text (SetupError m) = m"

text \<open>What a decoder fails with: a plain report, or a classified error.\<close>

datatype decode_error = DecodeReport string | Classified provider_error

section \<open>Classification\<close>

text \<open>\<open>value.pointer("/error/code")\<close>, or else the member \<open>code\<close> of the whole body.\<close>

definition api_error_code :: "(string \<Rightarrow> json option) \<Rightarrow> string \<Rightarrow> string option" where
  "api_error_code parse body =
     Option.bind (parse body) (\<lambda>value.
     Option.bind (case Option.bind (json_get value ''error'') (\<lambda>e. json_get e ''code'') of
                    Some code \<Rightarrow> Some code | None \<Rightarrow> json_get value ''code'') json_as_str)"

definition overflow_code :: "string option \<Rightarrow> bool" where
  "overflow_code code = (code \<in> {Some ''context_length_exceeded'', Some ''context_window_exceeded''})"

definition from_api_error :: "(string \<Rightarrow> json option) \<Rightarrow> string \<Rightarrow> provider_error option" where
  "from_api_error parse body =
     (if overflow_code (api_error_code parse body) then Some (ContextWindowExceeded body) else None)"

definition from_status :: "nat \<Rightarrow> nat option \<Rightarrow> string \<Rightarrow> provider_error" where
  "from_status status after message =
     (if status = 429 then RateLimitedError message after
      else if status = 401 \<or> status = 403 then Authentication status message
      else if status = 408 \<or> status = 409 then ProviderUnavailable (Some status) message
      else if is_server_error status then ProviderUnavailable (Some status) message
      else RequestError status message)"

definition from_body ::
  "(string \<Rightarrow> json option) \<Rightarrow> nat \<Rightarrow> nat option \<Rightarrow> string \<Rightarrow> string \<Rightarrow> provider_error" where
  "from_body parse status after body message =
     (case from_api_error parse body of Some e \<Rightarrow> e | None \<Rightarrow> from_status status after message)"

definition from_stream_error :: "string option \<Rightarrow> string \<Rightarrow> provider_error" where
  "from_stream_error code message =
     (if overflow_code code then ContextWindowExceeded message
      else if code = Some ''rate_limit_exceeded'' then RateLimitedError message None
      else if code \<in> {Some ''server_error'', Some ''overloaded'', Some ''overloaded_error'', Some ''server_is_overloaded''}
        then ProviderUnavailable None message
      else RequestError 0 message)"

fun is_transient :: "provider_error \<Rightarrow> bool" where
  "is_transient (ProviderStreamInterrupted _) = True"
| "is_transient (RateLimitedError _ _) = True"
| "is_transient (ProviderUnavailable _ _) = True"
| "is_transient (TransportError _) = True"
| "is_transient _ = False"

fun is_context_overflow :: "provider_error \<Rightarrow> bool" where
  "is_context_overflow (ContextWindowExceeded _) = True"
| "is_context_overflow _ = False"

text \<open>An error report as far as it is searched: the provider and transport errors of its chain.\<close>

definition is_context_overflow_error :: "(provider_error + http_error) list \<Rightarrow> bool" where
  "is_context_overflow_error chain =
     list_ex (\<lambda>cause. case cause of Inl e \<Rightarrow> is_context_overflow e | Inr _ \<Rightarrow> False) chain"

definition is_transient_transport :: "http_error \<Rightarrow> bool" where
  "is_transient_transport e = (err_timeout e \<or> err_connect e \<or> err_body e \<or> err_request e)"

definition is_transient_error :: "(provider_error + http_error) list \<Rightarrow> bool" where
  "is_transient_error chain =
     list_ex (\<lambda>cause. case cause of Inl e \<Rightarrow> is_transient e | Inr e \<Rightarrow> is_transient_transport e) chain"

section \<open>One notion of what may be tried again\<close>

lemma overflow_not_transient: "is_context_overflow e \<Longrightarrow> \<not> is_transient e"
  by (cases e) auto

lemma retried_failures_transient: "is_retryable_error e \<Longrightarrow> is_transient_error [Inr e]"
  by (auto simp: is_retryable_error_def is_transient_error_def is_transient_transport_def)

text \<open>
  The two layers that try again agree on responses: the status of a response is retried by the HTTP
  layer exactly when the error made of it is transient, unless its body says that the context
  window was exceeded, and then the error is the one that makes the agent compact instead.
\<close>

theorem retry_layers_agree:
  "(is_transient (from_body parse status after body message) \<longleftrightarrow>
      is_retryable_status status \<and> \<not> overflow_code (api_error_code parse body))
   \<and> (is_context_overflow (from_body parse status after body message) \<longleftrightarrow>
      overflow_code (api_error_code parse body))"
  by (auto simp: from_body_def from_api_error_def from_status_def is_retryable_status_def
      is_server_error_def)

end
