(* ===== verification/Provider_Stream.thy ===== *)
theory Provider_Stream
  imports Sse Conversation Provider_Errors
begin

text \<open>
  The events of a provider's reply (crates/llm-providers/kraai-provider-core stream.rs) and the
  adapter that turns server-sent events into them. The adapter is polled by its consumer; a poll
  first hands out events decoded earlier, then a failure, and only then reads on. The decoder is the
  provider's, an argument with a state of its own. A stream that stops without its end mark is
  never taken for a complete one.
\<close>

section \<open>Events\<close>

datatype stop_reason = EndTurn | ToolCall | MaxOutputTokens

datatype provider_stream_event =
    CompactionEvent json
  | ReasoningEvent json
  | ReasoningDelta string string
  | TextDelta string assistant_phase string
  | ScriptCallEvent script_call
  | UsageEvent token_usage
  | FinishedEvent stop_reason

datatype stream_status = StreamContinue | StreamComplete

datatype stream_error =
    SourceError sse_error
  | DecodeError decode_error
  | StreamInterrupted string

type_synonym stream_item = "(stream_error, provider_stream_event) result"

text \<open>A decoder pushes events, also when it fails, and changes its state.\<close>

type_synonym 'd decoder =
  "'d \<Rightarrow> sse_event \<Rightarrow> provider_stream_event list \<times> (decode_error, stream_status) result \<times> 'd"

section \<open>The adapter\<close>

record 'd adapter =
  adapter_source :: "sse_item list"
  adapter_decoder :: 'd
  adapter_pending :: "provider_stream_event list"
  adapter_failure :: "stream_error option"
  adapter_finished :: bool

definition decode_next ::
  "'d decoder \<Rightarrow> string \<Rightarrow> 'd adapter \<Rightarrow> 'd adapter" where
  "decode_next decode interrupted st = (case adapter_source st of
     [] \<Rightarrow> st\<lparr>adapter_failure := Some (StreamInterrupted interrupted)\<rparr>
   | Inl e # rest \<Rightarrow> st\<lparr>adapter_source := rest, adapter_failure := Some (SourceError e)\<rparr>
   | Inr ev # rest \<Rightarrow>
       (case decode (adapter_decoder st) ev of (pushed, status, d) \<Rightarrow>
         (let st' = st\<lparr>adapter_source := rest, adapter_decoder := d,
                       adapter_pending := adapter_pending st @ pushed\<rparr>
          in case status of
               Inr StreamContinue \<Rightarrow> st'
             | Inr StreamComplete \<Rightarrow> st'\<lparr>adapter_finished := True\<rparr>
             | Inl e \<Rightarrow> st'\<lparr>adapter_failure := Some (DecodeError e)\<rparr>)))"

definition adapter_work :: "'d adapter \<Rightarrow> nat" where
  "adapter_work st = 2 * length (adapter_source st) + (if adapter_failure st = None then 1 else 0)"

lemma decode_next_work:
  "adapter_failure st = None \<Longrightarrow> adapter_work (decode_next decode interrupted st) < adapter_work st"
  by (auto simp: decode_next_def adapter_work_def Let_def
      split: list.splits sum.splits prod.splits stream_status.splits)

function poll_next :: "'d decoder \<Rightarrow> string \<Rightarrow> 'd adapter \<Rightarrow> stream_item option \<times> 'd adapter" where
  "poll_next decode interrupted st =
     (case adapter_pending st of
        event # later \<Rightarrow> (Some (Inr event), st\<lparr>adapter_pending := later\<rparr>)
      | [] \<Rightarrow>
          (case adapter_failure st of
             Some error \<Rightarrow> (Some (Inl error), st\<lparr>adapter_failure := None, adapter_finished := True\<rparr>)
           | None \<Rightarrow>
               if adapter_finished st then (None, st)
               else poll_next decode interrupted (decode_next decode interrupted st)))"
  by pat_completeness auto
termination
  by (relation "measure (\<lambda>(_, _, st). adapter_work st)") (auto intro: decode_next_work)

declare poll_next.simps [simp del]

definition adapt_provider_stream :: "sse_item list \<Rightarrow> 'd \<Rightarrow> 'd adapter" where
  "adapt_provider_stream source d =
     \<lparr>adapter_source = source, adapter_decoder = d, adapter_pending = [], adapter_failure = None,
      adapter_finished = False\<rparr>"

text \<open>Polling until the stream ends, at most \<open>n\<close> times; the flag tells whether it has ended.\<close>

fun poll_all :: "nat \<Rightarrow> 'd decoder \<Rightarrow> string \<Rightarrow> 'd adapter \<Rightarrow> stream_item list \<times> bool" where
  "poll_all 0 decode interrupted st = ([], False)"
| "poll_all (Suc n) decode interrupted st =
     (case poll_next decode interrupted st of
        (None, _) \<Rightarrow> ([], True)
      | (Some item, st') \<Rightarrow>
          (case poll_all n decode interrupted st' of (items, ended) \<Rightarrow> (item # items, ended)))"

section \<open>What the consumer receives\<close>

fun adapted :: "'d decoder \<Rightarrow> string \<Rightarrow> 'd \<Rightarrow> sse_item list \<Rightarrow> stream_item list" where
  "adapted decode interrupted d [] = [Inl (StreamInterrupted interrupted)]"
| "adapted decode interrupted d (Inl e # rest) = [Inl (SourceError e)]"
| "adapted decode interrupted d (Inr ev # rest) =
     (case decode d ev of (pushed, status, d') \<Rightarrow>
        map Inr pushed @
        (case status of
           Inr StreamContinue \<Rightarrow> adapted decode interrupted d' rest
         | Inr StreamComplete \<Rightarrow> []
         | Inl e \<Rightarrow> [Inl (DecodeError e)]))"

text \<open>What a state still has to hand out.\<close>

definition owed :: "'d decoder \<Rightarrow> string \<Rightarrow> 'd adapter \<Rightarrow> stream_item list" where
  "owed decode interrupted st =
     map Inr (adapter_pending st) @
     (case adapter_failure st of
        Some error \<Rightarrow> [Inl error]
      | None \<Rightarrow> if adapter_finished st then []
          else adapted decode interrupted (adapter_decoder st) (adapter_source st))"

lemma owed_decode_next:
  assumes "adapter_pending st = []" "adapter_failure st = None" "\<not> adapter_finished st"
  shows "owed decode interrupted (decode_next decode interrupted st) = owed decode interrupted st"
proof (cases "adapter_source st")
  case Nil
  then show ?thesis using assms by (simp add: decode_next_def owed_def)
next
  case (Cons x rest)
  show ?thesis
  proof (cases x)
    case (Inl e)
    then show ?thesis using assms Cons by (simp add: decode_next_def owed_def)
  next
    case (Inr ev)
    obtain pushed status d where dec: "decode (adapter_decoder st) ev = (pushed, status, d)" by (metis surj_pair)
    show ?thesis
      using assms Cons Inr dec
      by (auto simp: decode_next_def owed_def Let_def split: sum.splits stream_status.splits)
  qed
qed

lemma poll_next_owed:
  "(case owed decode interrupted st of
      [] \<Rightarrow> fst (poll_next decode interrupted st) = None
    | item # items \<Rightarrow> fst (poll_next decode interrupted st) = Some item
        \<and> owed decode interrupted (snd (poll_next decode interrupted st)) = items)"
proof (induction decode interrupted st rule: poll_next.induct)
  case (1 decode interrupted st)
  show ?case
  proof (cases "adapter_pending st = [] \<and> adapter_failure st = None \<and> \<not> adapter_finished st")
    case True
    then have "poll_next decode interrupted st = poll_next decode interrupted (decode_next decode interrupted st)"
      by (simp add: poll_next.simps[of decode interrupted st])
    then show ?thesis
      using 1 True owed_decode_next[of st decode interrupted] by (auto split: list.splits)
  next
    case False
    then show ?thesis
      by (subst (1 2 3) poll_next.simps)
        (auto simp: owed_def split: list.splits option.splits)
  qed
qed

lemma poll_all_owed:
  "poll_all (Suc (length (owed decode interrupted st))) decode interrupted st = (owed decode interrupted st, True)"
proof (induction "owed decode interrupted st" arbitrary: st)
  case Nil
  then show ?case
    using poll_next_owed[of decode interrupted st] by (auto split: prod.split option.split)
next
  case (Cons item items)
  obtain x st' where p: "poll_next decode interrupted st = (x, st')" by (metis surj_pair)
  have x: "x = Some item" "owed decode interrupted st' = items"
    using poll_next_owed[of decode interrupted st] Cons.hyps(2)[symmetric] p by auto
  show ?case
    using Cons.hyps(1)[of st'] x p Cons.hyps(2)[symmetric] by simp
qed

text \<open>
  Polled to its end, the adapter hands out exactly the decoded events in order, then the failure if
  there is one, and the stream ends: a source that stops early, fails or cannot be decoded is
  reported as an error after all events that came before it.
\<close>

theorem adapter_yields_decoded_events:
  "poll_all (Suc (length (adapted decode interrupted d source))) decode interrupted
      (adapt_provider_stream source d)
   = (adapted decode interrupted d source, True)"
proof -
  have "owed decode interrupted (adapt_provider_stream source d) = adapted decode interrupted d source"
    by (simp add: owed_def adapt_provider_stream_def)
  then show ?thesis using poll_all_owed[of decode interrupted "adapt_provider_stream source d"] by simp
qed

section \<open>A cut stream is an error\<close>

text \<open>The decoder reached its end mark within the source.\<close>

fun completes :: "'d decoder \<Rightarrow> 'd \<Rightarrow> sse_item list \<Rightarrow> bool" where
  "completes decode d (Inr ev # rest) =
     (case decode d ev of (_, status, d') \<Rightarrow>
        (case status of
           Inr StreamContinue \<Rightarrow> completes decode d' rest
         | Inr StreamComplete \<Rightarrow> True
         | Inl _ \<Rightarrow> False))"
| "completes decode d _ = False"

definition is_failure :: "stream_item \<Rightarrow> bool" where
  "is_failure x = (case x of Inl _ \<Rightarrow> True | Inr _ \<Rightarrow> False)"

lemma filter_pushed [simp]: "filter is_failure (map Inr es) = []"
  by (auto simp: is_failure_def filter_empty_conv)

lemma adapted_failures:
  "filter is_failure (adapted decode interrupted d source) = (if completes decode d source then [] else [last (adapted decode interrupted d source)])
   \<and> (\<not> completes decode d source \<longrightarrow> adapted decode interrupted d source \<noteq> [])"
proof (induction decode interrupted d source rule: adapted.induct)
  case (3 decode interrupted d ev rest)
  obtain pushed status d' where dec: "decode d ev = (pushed, status, d')" by (metis surj_pair)
  show ?case
  proof (cases "status = Inr StreamContinue")
    case True
    with 3[OF dec[symmetric] refl True] dec show ?thesis by auto
  next
    case False
    then show ?thesis
      using dec by (auto simp: is_failure_def split: sum.splits stream_status.splits)
  qed
qed (simp_all add: is_failure_def)

text \<open>The reply decoded from a response body, however it arrives.\<close>

definition reply_items :: "'d decoder \<Rightarrow> string \<Rightarrow> 'd \<Rightarrow> string option list \<Rightarrow> stream_item list" where
  "reply_items decode interrupted d chunks =
     adapted decode interrupted d (sent_items (forward_sse_events None chunks))"

text \<open>C16. 
  From the bytes of a response to the events of the reply: the events depend only on the bytes and
  not on their chunks; the reply has an error exactly when the decoder has not reached its end mark,
  and then the error is its only one and its last item. A reply cut anywhere is never complete.
\<close>

theorem reply_complete_or_error:
  "poll_all (Suc (length (reply_items decode interrupted d chunks))) decode interrupted
      (adapt_provider_stream (sent_items (forward_sse_events None chunks)) d)
    = (reply_items decode interrupted d chunks, True)
   \<and> filter is_failure (reply_items decode interrupted d chunks) =
      (if completes decode d (sent_items (forward_sse_events None chunks)) then []
       else [last (reply_items decode interrupted d chunks)])
   \<and> sent_items (forward_sse_events None chunks) =
      sent_items (read_bytes ([], None, new_sender None) (body_bytes chunks) (body_fails chunks))"
proof -
  let ?src = "sent_items (forward_sse_events None chunks)"
  have "owed decode interrupted (adapt_provider_stream ?src d) = reply_items decode interrupted d chunks"
    by (simp add: owed_def adapt_provider_stream_def reply_items_def)
  then show ?thesis
    using poll_all_owed[of decode interrupted "adapt_provider_stream ?src d"]
      adapted_failures[of decode interrupted d ?src]
    by (simp add: reply_items_def forward_sse_events_def forward_loop_bytes)
qed

end
