(* ===== verification/Database.thy ===== *)
theory Database
  imports Store_Types
begin

text \<open>
  The primitives every store operation is built from (crates/kraai-persistence, database.rs): the
  lease tokens a runtime holds in memory, the ownership check that fences writes, revisions, and
  the typed records table. An operation that runs in a SQL transaction is a function from the
  database to an error or a result with the new database; \<open>transaction\<close> commits the one and rolls
  the other back. Connections, pools and SQL or I/O failures are not modelled.
\<close>

section \<open>Lease tokens\<close>

definition leases_get :: "lease_tokens \<Rightarrow> string \<Rightarrow> int option" where
  "leases_get leases s = bt_get leases s"

definition leases_insert :: "lease_tokens \<Rightarrow> string \<Rightarrow> int \<Rightarrow> lease_tokens" where
  "leases_insert leases s token = bt_insert s token leases"

definition leases_remove :: "lease_tokens \<Rightarrow> string \<Rightarrow> int option \<times> lease_tokens" where
  "leases_remove leases s = (bt_get leases s, bt_remove s leases)"

definition leases_snapshot :: "lease_tokens \<Rightarrow> (string \<times> int) list" where
  "leases_snapshot leases = leases"

section \<open>Transactions\<close>

definition transaction ::
  "(database \<Rightarrow> (store_error, 'a \<times> database) result) \<Rightarrow> database
     \<Rightarrow> (store_error, 'a) result \<times> database" where
  "transaction op db = (case op db of Inl e \<Rightarrow> (Inl e, db) | Inr (x, db') \<Rightarrow> (Inr x, db'))"

section \<open>Ownership\<close>

definition ownership_lost :: "string \<Rightarrow> store_error" where
  "ownership_lost s = Domain (conflict (''Ownership of session '' @ s @ '' was lost''))"

definition owned_elsewhere :: "string \<Rightarrow> store_error" where
  "owned_elsewhere s = Domain (conflict (''Session '' @ s @ '' is owned by another runtime''))"

definition assert_owner :: "database \<Rightarrow> lease_tokens \<Rightarrow> string \<Rightarrow> (store_error, unit) result" where
  "assert_owner db leases s =
     (case bt_get (sessions db) s of
        Some row \<Rightarrow>
          (case leases_get leases s of
             Some expected \<Rightarrow>
               ensure (lease_active row \<and> expected = lease_token row) (ownership_lost s)
           | None \<Rightarrow> ensure (\<not> lease_active row) (owned_elsewhere s))
      | None \<Rightarrow>
          ensure (leases_get leases s = None) (Report (''Owned session '' @ s @ '' was deleted'')))"

definition bump_revision :: "database \<Rightarrow> string \<Rightarrow> database" where
  "bump_revision db s =
     db\<lparr>sessions := bt_update s (\<lambda>row. row\<lparr>revision := revision row + 1\<rparr>) (sessions db)\<rparr>"

section \<open>Records\<close>

fun as_message :: "record_data \<Rightarrow> message option" where
  "as_message (MessageRecord m) = Some m"
| "as_message _ = None"

fun as_compaction :: "record_data \<Rightarrow> compaction_checkpoint option" where
  "as_compaction (CompactionRecord c) = Some c"
| "as_compaction _ = None"

fun as_execution :: "record_data \<Rightarrow> script_execution_record option" where
  "as_execution (ExecutionRecord e) = Some e"
| "as_execution _ = None"

fun as_context :: "record_data \<Rightarrow> context_state_document option" where
  "as_context (ContextRecord c) = Some c"
| "as_context _ = None"

fun as_usage :: "record_data \<Rightarrow> request_usage option" where
  "as_usage (UsageRecord u) = Some u"
| "as_usage _ = None"

text \<open>\<open>read_record::<T>\<close>: absent is fine, a stored value of another type is an error.\<close>

definition read_record ::
  "(record_data \<Rightarrow> 'a option) \<Rightarrow> database \<Rightarrow> string \<Rightarrow> string \<Rightarrow> (store_error, 'a option) result" where
  "read_record as db kind k =
     (case bt_get (records db) (kind, k) of
        None \<Rightarrow> Inr None
      | Some row \<Rightarrow>
          (case as (record_data_of row) of None \<Rightarrow> Inl StoredData | Some v \<Rightarrow> Inr (Some v)))"

definition parse_session_id :: "string \<Rightarrow> (store_error, string) result" where
  "parse_session_id v =
     (case id_try_new validate_message_id v of
        Inl e \<Rightarrow> Inl (Report (''Invalid stored session id: '' @ e))
      | Inr s \<Rightarrow> Inr s)"

definition record_session :: "database \<Rightarrow> string \<Rightarrow> string \<Rightarrow> (store_error, string option) result" where
  "record_session db kind k =
     (case Option.bind (bt_get (records db) (kind, k)) record_session_id of
        None \<Rightarrow> Inr None
      | Some s \<Rightarrow> bindR (parse_session_id s) (\<lambda>s. Inr (Some s)))"

text \<open>The upsert keeps the session a record already belongs to.\<close>

definition write_record ::
  "database \<Rightarrow> string \<Rightarrow> string \<Rightarrow> string option \<Rightarrow> record_data \<Rightarrow> database" where
  "write_record db kind k session v =
     (let owner = (case bt_get (records db) (kind, k) of
                     Some row \<Rightarrow> (case record_session_id row of Some s \<Rightarrow> Some s | None \<Rightarrow> session)
                   | None \<Rightarrow> session);
          db = db\<lparr>records := bt_insert (kind, k) \<lparr>record_session_id = owner, record_data_of = v\<rparr> (records db)\<rparr>
      in case session of None \<Rightarrow> db | Some s \<Rightarrow> bump_revision db s)"

definition list_records ::
  "(record_data \<Rightarrow> 'a option) \<Rightarrow> database \<Rightarrow> string \<Rightarrow> string option \<Rightarrow> (store_error, 'a list) result" where
  "list_records as db kind session =
     mapR (\<lambda>(_, row). ok_or (as (record_data_of row)) StoredData)
       (filter (\<lambda>((k, _), row). k = kind \<and> (session = None \<or> record_session_id row = session)) (records db))"

section \<open>Well-formed databases\<close>

definition valid_id :: "string \<Rightarrow> bool" where
  "valid_id s = (validate_message_id s = Inr ())"

text \<open>The kind of a record determines the type of its data.\<close>

fun kind_of :: "record_data \<Rightarrow> string" where
  "kind_of (MessageRecord _) = ''message''"
| "kind_of (CompactionRecord _) = ''compaction''"
| "kind_of (ExecutionRecord _) = ''execution''"
| "kind_of (ContextRecord _) = ''context''"
| "kind_of (UsageRecord _) = ''usage''"

definition session_row_ok :: "string \<Rightarrow> session_row \<Rightarrow> bool" where
  "session_row_ok s row =
     (valid_id s \<and> meta_id (row_data row) = s \<and> row_tip row = tip_id (row_data row)
      \<and> 0 \<le> lease_token row)"

definition record_row_ok :: "string \<times> string \<Rightarrow> record_row \<Rightarrow> bool" where
  "record_row_ok key row =
     (kind_of (record_data_of row) = fst key
      \<and> (case record_session_id row of None \<Rightarrow> True | Some s \<Rightarrow> valid_id s)
      \<and> (case record_data_of row of MessageRecord m \<Rightarrow> message_id m = snd key | _ \<Rightarrow> True))"

definition db_wf :: "database \<Rightarrow> bool" where
  "db_wf db =
     (bt_wf (sessions db) \<and> table_all session_row_ok (sessions db)
      \<and> bt_wf (records db) \<and> table_all record_row_ok (records db)
      \<and> bt_wf (execution_sources db) \<and> bt_wf (stream_deltas db) \<and> bt_wf (queued_messages db)
      \<and> bt_wf (model_lists db))"

lemma db_wfD [dest]:
  assumes "db_wf db"
  shows "bt_wf (sessions db)" "table_all session_row_ok (sessions db)" "bt_wf (records db)"
    "table_all record_row_ok (records db)" "bt_wf (stream_deltas db)" "bt_wf (queued_messages db)"
  using assms by (simp_all add: db_wf_def)

lemma db_wf_empty: "db_wf empty_database"
  by (simp add: db_wf_def empty_database_def)

lemma parse_session_id_iff: "parse_session_id s = Inr t \<longleftrightarrow> t = s \<and> valid_id s"
  by (cases "validate_message_id s") (auto simp: parse_session_id_def id_try_new_def valid_id_def)

lemma parse_valid_session_id [simp]: "valid_id s \<Longrightarrow> parse_session_id s = Inr s"
  by (simp add: parse_session_id_iff)

lemma record_session_wf:
  assumes "db_wf db"
  shows "record_session db kind k = Inr (Option.bind (bt_get (records db) (kind, k)) record_session_id)"
proof -
  have "valid_id s" if "bt_get (records db) (kind, k) = Some row" "record_session_id row = Some s" for row s
    using table_all_get[OF _ that(1), of record_row_ok] assms that(2) by (auto simp: record_row_ok_def)
  then show ?thesis
    by (auto simp: record_session_def split: option.splits bind_splits)
qed

lemma as_message_kind: "kind_of d = ''message'' \<longleftrightarrow> (\<exists>m. d = MessageRecord m)"
  by (cases d) auto

lemma read_message_wf:
  assumes "db_wf db"
  shows "\<exists>m. read_record as_message db ''message'' k = Inr m"
proof (cases "bt_get (records db) (''message'', k)")
  case (Some row)
  then have "kind_of (record_data_of row) = ''message''"
    using table_all_get[of record_row_ok "records db"] assms by (auto simp: record_row_ok_def)
  then show ?thesis using Some by (auto simp: read_record_def as_message_kind)
qed (simp add: read_record_def)

lemma bump_revision_simps [simp]:
  "records (bump_revision db s) = records db"
  "stream_deltas (bump_revision db s) = stream_deltas db"
  "queued_messages (bump_revision db s) = queued_messages db"
  "execution_sources (bump_revision db s) = execution_sources db"
  "execution_output (bump_revision db s) = execution_output db"
  "model_lists (bump_revision db s) = model_lists db"
  by (simp_all add: bump_revision_def)

lemma bump_revision_get:
  "bt_get (sessions (bump_revision db s)) t =
     (if t = s then map_option (\<lambda>row. row\<lparr>revision := revision row + 1\<rparr>) (bt_get (sessions db) s)
      else bt_get (sessions db) t)"
  by (simp add: bump_revision_def bt_get_update)

lemma bump_revision_wf [simp]: "db_wf db \<Longrightarrow> db_wf (bump_revision db s)"
  unfolding db_wf_def
  by (simp, simp add: bump_revision_def, rule table_all_update) (auto simp: session_row_ok_def)

lemma write_record_simps [simp]:
  "stream_deltas (write_record db kind k session v) = stream_deltas db"
  "queued_messages (write_record db kind k session v) = queued_messages db"
  "execution_sources (write_record db kind k session v) = execution_sources db"
  "execution_output (write_record db kind k session v) = execution_output db"
  "model_lists (write_record db kind k session v) = model_lists db"
  by (auto simp: write_record_def Let_def split: option.splits)

lemma write_record_sessions:
  "sessions (write_record db kind k session v) =
     (case session of None \<Rightarrow> sessions db | Some s \<Rightarrow> sessions (bump_revision db s))"
  by (auto simp: write_record_def Let_def bump_revision_def split: option.splits)

lemma write_record_records:
  "records (write_record db kind k session v) =
     bt_insert (kind, k)
       \<lparr>record_session_id =
          (case bt_get (records db) (kind, k) of
             Some row \<Rightarrow> (case record_session_id row of Some s \<Rightarrow> Some s | None \<Rightarrow> session)
           | None \<Rightarrow> session),
        record_data_of = v\<rparr> (records db)"
  by (auto simp: write_record_def Let_def bump_revision_def split: option.splits)

end
