(* ===== verification/Leases.thy ===== *)
theory Leases
  imports Database
begin

text \<open>
  Turn leases (crates/kraai-persistence, leases.rs): a runtime that runs a session's turn claims
  the session for a bounded time and remembers the token the claim returned; every claim takes a
  new token, so a runtime that lost its lease is recognised by its old one. The clock is an
  argument, so that clocks of different runtimes need not agree. The locale \<open>session_write\<close> is the
  contract the other stores build on: an operation that first checks ownership and leaves the
  lease columns alone cannot succeed for a runtime that does not own the session.
\<close>

section \<open>Operations\<close>

definition turn_lease_duration :: nat where
  "turn_lease_duration = 30000000000"

record session_observation =
  obs_revision :: int
  obs_lease_active :: bool
  obs_lease_expires_at :: int
  obs_turn_timer :: "string option"

definition session_not_found :: "string \<Rightarrow> store_error" where
  "session_not_found s = Domain (not_found (''Session not found: '' @ s))"

definition already_running :: "string \<Rightarrow> store_error" where
  "already_running s = Domain (conflict (''Session '' @ s @ '' is already running in another instance''))"

definition ensure_claimable :: "database \<Rightarrow> string \<Rightarrow> int \<Rightarrow> (store_error, unit) result" where
  "ensure_claimable db s now =
     bindR (ok_or (bt_get (sessions db) s) (session_not_found s)) (\<lambda>row.
     ensure (\<not> lease_active row \<or> lease_expires_at row < now) (already_running s))"

definition lease_expiry :: "int \<Rightarrow> nat \<Rightarrow> (store_error, int) result" where
  "lease_expiry now duration =
     (if int duration \<le> i64_max \<and> now + int duration \<le> i64_max then Inr (now + int duration)
      else Inl (Report ''Lease expiry overflow''))"

definition observe :: "database \<Rightarrow> string \<Rightarrow> int \<Rightarrow> session_observation option" where
  "observe db s now =
     map_option (\<lambda>row. \<lparr>obs_revision = revision row,
       obs_lease_active = (lease_active row \<and> now \<le> lease_expires_at row),
       obs_lease_expires_at = lease_expires_at row, obs_turn_timer = turn_timer row\<rparr>)
     (bt_get (sessions db) s)"

definition ensure_writable :: "database \<Rightarrow> lease_tokens \<Rightarrow> string \<Rightarrow> (store_error, unit) result" where
  "ensure_writable db leases s = assert_owner db leases s"

definition owns_turn :: "database \<Rightarrow> lease_tokens \<Rightarrow> string \<Rightarrow> bool" where
  "owns_turn db leases s =
     (case leases_get leases s of
        None \<Rightarrow> False
      | Some expected \<Rightarrow>
          (case bt_get (sessions db) s of
             None \<Rightarrow> False
           | Some row \<Rightarrow> lease_active row \<and> lease_token row = expected))"

definition claim_row :: "int \<Rightarrow> session_row \<Rightarrow> session_row" where
  "claim_row expiry row =
     row\<lparr>lease_active := True, lease_token := lease_token row + 1, lease_expires_at := expiry,
         revision := revision row + 1\<rparr>"

text \<open>The claim checks twice, before taking the write lock and after: \<open>first\<close> and \<open>now\<close> are the two
  readings of the clock.\<close>

definition claim_turn_for ::
  "database \<Rightarrow> lease_tokens \<Rightarrow> string \<Rightarrow> nat \<Rightarrow> int \<Rightarrow> int
     \<Rightarrow> (store_error, database \<times> lease_tokens) result" where
  "claim_turn_for db leases s duration first now =
     bindR (ensure (duration \<noteq> 0) (Report ''Lease duration must be positive'')) (\<lambda>_.
     bindR (ensure_claimable db s first) (\<lambda>_.
     bindR (ensure_claimable db s now) (\<lambda>_.
     bindR (lease_expiry now duration) (\<lambda>expiry.
     bindR (ok_or (bt_get (sessions db) s) (session_not_found s)) (\<lambda>row.
     Inr (db\<lparr>sessions := bt_update s (claim_row expiry) (sessions db)\<rparr>,
          leases_insert leases s (lease_token row + 1)))))))"

definition claim_turn ::
  "database \<Rightarrow> lease_tokens \<Rightarrow> string \<Rightarrow> int \<Rightarrow> int \<Rightarrow> (store_error, database \<times> lease_tokens) result" where
  "claim_turn db leases s first now = claim_turn_for db leases s turn_lease_duration first now"

text \<open>\<open>WHERE id = ?1 AND lease_active = 1 AND lease_token = ?2\<close>.\<close>

definition update_if_owned ::
  "database \<Rightarrow> string \<Rightarrow> int \<Rightarrow> (session_row \<Rightarrow> session_row) \<Rightarrow> database \<times> bool" where
  "update_if_owned db s expected f =
     (case bt_get (sessions db) s of
        None \<Rightarrow> (db, False)
      | Some row \<Rightarrow>
          if lease_active row \<and> lease_token row = expected
          then (db\<lparr>sessions := bt_update s f (sessions db)\<rparr>, True) else (db, False))"

definition renew_turn ::
  "database \<Rightarrow> lease_tokens \<Rightarrow> string \<Rightarrow> nat \<Rightarrow> int \<Rightarrow> (store_error, database) result" where
  "renew_turn db leases s duration now =
     bindR (ok_or (leases_get leases s) (Report ''Session is not owned by this runtime'')) (\<lambda>expected.
     bindR (lease_expiry now duration) (\<lambda>expiry.
     let (db', updated) = update_if_owned db s expected (\<lambda>row. row\<lparr>lease_expires_at := expiry\<rparr>)
     in bindR (ensure updated (ownership_lost s)) (\<lambda>_. Inr db')))"

definition release ::
  "database \<Rightarrow> lease_tokens \<Rightarrow> string \<Rightarrow> string option \<Rightarrow> bool \<times> database \<times> lease_tokens" where
  "release db leases s timer =
     (case leases_remove leases s of
        (None, leases') \<Rightarrow> (False, db, leases')
      | (Some expected, leases') \<Rightarrow>
          let (db', updated) = update_if_owned db s expected
                (\<lambda>row. row\<lparr>lease_active := False, revision := revision row + 1,
                           turn_timer := (case timer of None \<Rightarrow> turn_timer row | Some t \<Rightarrow> Some t)\<rparr>)
          in (updated, db', leases'))"

definition release_turn :: "database \<Rightarrow> lease_tokens \<Rightarrow> string \<Rightarrow> bool \<times> database \<times> lease_tokens" where
  "release_turn db leases s = release db leases s None"

definition release_turn_with_timer ::
  "database \<Rightarrow> lease_tokens \<Rightarrow> string \<Rightarrow> string \<Rightarrow> bool \<times> database \<times> lease_tokens" where
  "release_turn_with_timer db leases s timer = release db leases s (Some timer)"

definition save_turn_timer :: "database \<Rightarrow> lease_tokens \<Rightarrow> string \<Rightarrow> string \<Rightarrow> database" where
  "save_turn_timer db leases s timer =
     (case leases_get leases s of
        None \<Rightarrow> db
      | Some expected \<Rightarrow> fst (update_if_owned db s expected (\<lambda>row. row\<lparr>turn_timer := Some timer\<rparr>)))"

definition owned_sessions :: "lease_tokens \<Rightarrow> string list" where
  "owned_sessions leases = map fst (leases_snapshot leases)"

definition lease_token_matches :: "lease_tokens \<Rightarrow> string \<Rightarrow> int \<Rightarrow> bool" where
  "lease_token_matches leases s expected = (leases_get leases s = Some expected)"

definition expired_leases :: "database \<Rightarrow> int \<Rightarrow> (store_error, string list) result" where
  "expired_leases db now =
     mapR (\<lambda>(s, _). parse_session_id s)
       (filter (\<lambda>(_, row). lease_active row \<and> lease_expires_at row < now) (sessions db))"

section \<open>The lease columns\<close>

definition lease_columns :: "database \<Rightarrow> string \<Rightarrow> (bool \<times> int \<times> int) option" where
  "lease_columns db s =
     map_option (\<lambda>row. (lease_active row, lease_expires_at row, lease_token row)) (bt_get (sessions db) s)"

text \<open>Whether the runtime holds the lease that is in force.\<close>

definition holds_lease :: "database \<Rightarrow> lease_tokens \<Rightarrow> string \<Rightarrow> bool" where
  "holds_lease db leases s =
     (\<exists>expiry token. lease_columns db s = Some (True, expiry, token) \<and> leases_get leases s = Some token)"

lemma assert_owner_iff:
  "assert_owner db leases s = Inr () \<longleftrightarrow>
     (case lease_columns db s of
        None \<Rightarrow> leases_get leases s = None
      | Some (active, _, token) \<Rightarrow>
          (case leases_get leases s of None \<Rightarrow> \<not> active | Some expected \<Rightarrow> active \<and> expected = token))"
  by (auto simp: assert_owner_def lease_columns_def ensure_def split: option.splits)

lemma owns_turn_iff: "owns_turn db leases s \<longleftrightarrow> holds_lease db leases s"
  by (auto simp: owns_turn_def holds_lease_def lease_columns_def split: option.splits)

lemma assert_owner_active:
  assumes "lease_columns db s = Some (True, expiry, token)"
  shows "assert_owner db leases s = Inr () \<longleftrightarrow> leases_get leases s = Some token"
  using assms by (auto simp: assert_owner_iff split: option.splits)

lemma lease_columns_bump [simp]: "lease_columns (bump_revision db s) t = lease_columns db t"
  by (cases "bt_get (sessions db) s") (auto simp: lease_columns_def bump_revision_get)

lemma lease_columns_cong: "sessions db' = sessions db \<Longrightarrow> lease_columns db' = lease_columns db"
  by (auto simp: lease_columns_def)

lemma lease_columns_write_record [simp]:
  "lease_columns (write_record db kind k session v) t = lease_columns db t"
proof (cases session)
  case None
  then show ?thesis by (simp add: lease_columns_def write_record_sessions)
next
  case (Some s)
  then show ?thesis
    using lease_columns_bump[of db s t] by (simp add: lease_columns_def write_record_sessions)
qed

lemma claim_iff:
  "claim_turn_for db leases s duration first now = Inr (db', leases') \<longleftrightarrow>
     (\<exists>row. bt_get (sessions db) s = Some row \<and> duration \<noteq> 0 \<and> now + int duration \<le> i64_max
        \<and> int duration \<le> i64_max
        \<and> (\<not> lease_active row \<or> lease_expires_at row < first \<and> lease_expires_at row < now)
        \<and> db' = db\<lparr>sessions := bt_update s (claim_row (now + int duration)) (sessions db)\<rparr>
        \<and> leases' = leases_insert leases s (lease_token row + 1))"
  by (auto simp: claim_turn_for_def ensure_claimable_def lease_expiry_def result_simps split: if_splits)

lemma lease_columns_claimed:
  assumes "claim_turn_for db leases s duration first now = Inr (db', leases')"
  shows "lease_columns db' t =
    (if t = s then map_option (\<lambda>(_, _, token). (True, now + int duration, token + 1)) (lease_columns db s)
     else lease_columns db t)"
  using assms unfolding claim_iff
  by (auto simp: lease_columns_def bt_get_update claim_row_def)

lemma update_if_owned_columns:
  assumes "update_if_owned db s expected f = (db', updated)"
    and "\<And>row. lease_token (f row) = lease_token row"
  shows "lease_columns db' t =
    (if t = s \<and> updated then map_option (\<lambda>row. (lease_active (f row), lease_expires_at (f row), lease_token row)) (bt_get (sessions db) s)
     else lease_columns db t)"
  using assms
  by (auto simp: update_if_owned_def lease_columns_def bt_get_update split: option.splits if_splits)

section \<open>Fenced writes\<close>

text \<open>
  The contract of an operation on one session: it succeeds only for a runtime that passes the
  ownership check, and it changes no lease. The target session may depend on the database.
\<close>

locale session_write =
  fixes op :: "database \<Rightarrow> lease_tokens \<Rightarrow> (store_error, database) result"
    and target :: "database \<Rightarrow> string"
  assumes fenced: "op db leases = Inr db' \<Longrightarrow> assert_owner db leases (target db) = Inr ()"
    and leases_kept: "op db leases = Inr db' \<Longrightarrow> lease_columns db' s = lease_columns db s"
begin

text \<open>While somebody holds the lease, nobody else's operation succeeds.\<close>

lemma foreign_write_fails:
  assumes "lease_columns db (target db) = Some (True, expiry, token)" "leases_get leases (target db) \<noteq> Some token"
  shows "\<exists>e. op db leases = Inl e"
proof (cases "op db leases")
  case (Inr db')
  from fenced[OF this] show ?thesis using assms assert_owner_active by blast
qed simp

lemma owner_after:
  assumes "op db leases = Inr db'" "holds_lease db leases s"
  shows "holds_lease db' leases s"
  using assms leases_kept[OF assms(1)] by (auto simp: holds_lease_def)

end

end
