(* ===== verification/Stream_Deltas.thy ===== *)
theory Stream_Deltas
  imports Leases
begin

text \<open>
  Streaming messages (crates/kraai-persistence, stream_deltas.rs): while a response streams, its
  message row stays as it was linked and the response is a numbered sequence of deltas beside it;
  reading the message applies them in order. Deltas may be merged before they are stored and may
  be sent again after a failure.
\<close>

section \<open>Operations\<close>

definition delta_target_error :: "message \<Rightarrow> store_error" where
  "delta_target_error m = Report (''Stream delta targets non-assistant message '' @ message_id m)"

definition delta_missing_item :: "nat \<Rightarrow> message \<Rightarrow> store_error" where
  "delta_missing_item index m =
     Report (''Stream delta targets missing text item '' @ nat_digits index @ '' in message '' @ message_id m)"

definition apply_text ::
  "message \<Rightarrow> assistant_item list \<Rightarrow> nat \<Rightarrow> assistant_phase \<Rightarrow> string
     \<Rightarrow> (store_error, assistant_item list) result" where
  "apply_text m its index phase txt =
     (if index = length its then Inr (its @ [AssistantText phase txt])
      else if index < length its then
        (case its ! index of
           AssistantText stored stored_text \<Rightarrow>
             if stored = phase then Inr (its[index := AssistantText stored (stored_text @ txt)])
             else Inl (delta_missing_item index m)
         | _ \<Rightarrow> Inl (delta_missing_item index m))
      else Inl (delta_missing_item index m))"

definition delta_apply :: "stream_delta \<Rightarrow> message \<Rightarrow> (store_error, message) result" where
  "delta_apply self m =
     (case self of
        DeltaUsage usage \<Rightarrow>
          Inr (case generation m of
                 None \<Rightarrow> m
               | Some g \<Rightarrow> m\<lparr>generation := Some (g\<lparr>generation_usage := Some usage\<rparr>)\<rparr>)
      | _ \<Rightarrow>
          (case message_content m of
             AssistantItems its \<Rightarrow>
               bindR (case self of
                        DeltaReset \<Rightarrow> Inr []
                      | DeltaText index phase txt \<Rightarrow> apply_text m its index phase txt
                      | DeltaItem item \<Rightarrow> Inr (its @ [item])
                      | DeltaUsage _ \<Rightarrow> Inr its) (\<lambda>its.
               Inr (m\<lparr>message_content := AssistantItems its\<rparr>))
           | _ \<Rightarrow> Inl (delta_target_error m)))"

text \<open>The merged delta and what is left over: \<open>None\<close> when the next delta was absorbed.\<close>

fun delta_coalesce :: "stream_delta \<Rightarrow> stream_delta \<Rightarrow> stream_delta \<times> stream_delta option" where
  "delta_coalesce (DeltaText i p t) (DeltaText j q u) =
     (if i = j \<and> p = q then (DeltaText i p (t @ u), None) else (DeltaText i p t, Some (DeltaText j q u)))"
| "delta_coalesce d n = (d, Some n)"

fun is_streaming :: "message_status \<Rightarrow> bool" where
  "is_streaming (Streaming _) = True"
| "is_streaming _ = False"

definition delta_rows :: "database \<Rightarrow> string \<Rightarrow> ((string \<times> int) \<times> stream_delta) list" where
  "delta_rows db k = filter (\<lambda>((m, _), _). m = k) (stream_deltas db)"

definition apply_deltas :: "stream_delta list \<Rightarrow> message \<Rightarrow> (store_error, message) result" where
  "apply_deltas ds m = foldR (\<lambda>m d. delta_apply d m) m ds"

definition read_message :: "database \<Rightarrow> string \<Rightarrow> (store_error, message option) result" where
  "read_message db k =
     bindR (read_record as_message db ''message'' k) (\<lambda>found.
     case found of
       None \<Rightarrow> Inr None
     | Some m \<Rightarrow>
         if is_streaming (message_status m)
         then bindR (apply_deltas (map snd (delta_rows db k)) m) (\<lambda>m. Inr (Some m))
         else Inr (Some m))"

text \<open>\<open>INSERT OR IGNORE\<close> under the number \<open>n\<close>, which has to fit 64 signed bits.\<close>

fun insert_deltas ::
  "string \<Rightarrow> nat \<Rightarrow> (string \<times> int, stream_delta) btree \<Rightarrow> stream_delta list
     \<Rightarrow> (store_error, (string \<times> int, stream_delta) btree) result" where
  "insert_deltas k n table [] = Inr table"
| "insert_deltas k n table (d # ds) =
     bindR (ensure (int n \<le> i64_max) (Report ''out of range integral type conversion attempted'')) (\<lambda>_.
     let table = (if bt_get table (k, int n) = None then bt_insert (k, int n) d table else table)
     in insert_deltas k (Suc n) table ds)"

definition append_stream_deltas ::
  "database \<Rightarrow> lease_tokens \<Rightarrow> string \<Rightarrow> nat \<Rightarrow> stream_delta list \<Rightarrow> (store_error, database) result" where
  "append_stream_deltas db leases k first ds =
     bindR (record_session db ''message'' k) (\<lambda>found.
     bindR (ok_or found (Report (''Cannot stream into unlinked message '' @ k))) (\<lambda>session.
     bindR (assert_owner db leases session) (\<lambda>_.
     bindR (insert_deltas k first (stream_deltas db) ds) (\<lambda>table.
     Inr (bump_revision (db\<lparr>stream_deltas := table\<rparr>) session)))))"

definition clear_stream_deltas :: "database \<Rightarrow> string \<Rightarrow> database" where
  "clear_stream_deltas db k =
     db\<lparr>stream_deltas := bt_retain (\<lambda>(m, _) _. m \<noteq> k) (stream_deltas db)\<rparr>"

section \<open>Merging\<close>

lemma apply_text_twice:
  "bindR (apply_text m its i p t) (\<lambda>its'. apply_text m' its' i p u) =
     bindR (apply_text m its i p t) (\<lambda>_. apply_text m its i p (t @ u))"
proof -
  have "\<exists>e. apply_text m its i p v = Inl e"
    if "i \<noteq> length its" "\<nexists>st. i < length its \<and> its ! i = AssistantText p st" for v
    using that by (auto simp: apply_text_def split: assistant_item.splits)
  then consider (new) "i = length its"
    | (merge) st where "i < length its" "its ! i = AssistantText p st"
    | (bad) "\<And>v. \<exists>e. apply_text m its i p v = Inl e"
    by blast
  then show ?thesis
  proof cases
    case new
    then show ?thesis by (simp add: apply_text_def nth_append)
  next
    case merge
    then show ?thesis by (simp add: apply_text_def)
  next
    case bad
    then obtain e where "apply_text m its i p t = Inl e" by blast
    then show ?thesis by simp
  qed
qed

lemma delta_coalesce_sound:
  assumes "delta_coalesce d n = (d', None)"
  shows "bindR (delta_apply d m) (delta_apply n) = delta_apply d' m"
proof -
  obtain i p t u where d: "d = DeltaText i p t" "n = DeltaText i p u" "d' = DeltaText i p (t @ u)"
    using assms by (cases "(d, n)" rule: delta_coalesce.cases) (auto split: if_splits)
  show ?thesis
  proof (cases "message_content m")
    case (AssistantItems its)
    show ?thesis
    proof (cases "apply_text m its i p t")
      case (Inl e)
      have "apply_text m its i p (t @ u) = Inl e"
        using Inl by (auto simp: apply_text_def split: if_splits assistant_item.splits)
      then show ?thesis using AssistantItems d Inl by (simp add: delta_apply_def)
    next
      case (Inr its')
      then show ?thesis
        using AssistantItems d apply_text_twice[of m its i p t "m\<lparr>message_content := AssistantItems its'\<rparr>" u]
        by (simp add: delta_apply_def)
    qed
  qed (simp_all add: d delta_apply_def)
qed

section \<open>The table\<close>

lemma insert_deltas_wf: "insert_deltas k n t ds = Inr t' \<Longrightarrow> bt_wf t \<Longrightarrow> bt_wf t'"
  by (induction k n t ds arbitrary: t' rule: insert_deltas.induct) (auto simp: result_simps Let_def split: if_splits)

lemma insert_deltas_get:
  "insert_deltas k n t ds = Inr t' \<Longrightarrow>
   bt_get t' (k', j) = (case bt_get t (k', j) of
      Some d \<Rightarrow> Some d
    | None \<Rightarrow> if k' = k \<and> int n \<le> j \<and> j < int n + int (length ds) then Some (ds ! nat (j - int n)) else None)"
proof (induction k n t ds arbitrary: t' rule: insert_deltas.induct)
  case (2 k n t d ds)
  let ?t = "if bt_get t (k, int n) = None then bt_insert (k, int n) d t else t"
  have rec: "insert_deltas k (Suc n) ?t ds = Inr t'" using "2.prems" by (auto simp: result_simps Let_def)
  have nth: "(d # ds) ! nat (j - int n) = ds ! nat (j - int (Suc n))" if "int n < j"
  proof -
    have "nat (j - int n) = Suc (nat (j - int (Suc n)))" using that by linarith
    then show ?thesis by simp
  qed
  show ?case
    using "2.IH"[OF _ refl rec] "2.prems" nth
    by (cases "k' = k \<and> j = int n") (auto simp: result_simps split: option.splits)
qed (auto split: option.splits)

lemma insert_deltas_bound: "insert_deltas k n t ds = Inr t' \<Longrightarrow> ds \<noteq> [] \<Longrightarrow> int n + int (length ds) \<le> i64_max + 1"
proof (induction k n t ds arbitrary: t' rule: insert_deltas.induct)
  case (2 k n t d ds)
  then show ?case by (cases "ds = []") (auto simp: result_simps Let_def)
qed simp

lemma insert_deltas_present:
  assumes "\<And>j. int n \<le> j \<Longrightarrow> j < int n + int (length ds) \<Longrightarrow> bt_get t (k, j) \<noteq> None"
    and "ds \<noteq> [] \<Longrightarrow> int n + int (length ds) \<le> i64_max + 1"
  shows "insert_deltas k n t ds = Inr t"
  using assms
proof (induction ds arbitrary: n)
  case (Cons d ds)
  have "bt_get t (k, int n) \<noteq> None" using Cons.prems(1)[of "int n"] by simp
  then have "(if bt_get t (k, int n) = None then bt_insert (k, int n) d t else t) = t" by (rule if_not_P)
  moreover have "insert_deltas k (Suc n) t ds = Inr t"
    using Cons.prems by (intro Cons.IH) auto
  ultimately show ?case using Cons.prems(2) by (simp add: result_simps del: if_split_asm)
qed simp

lemma append_deltas_iff:
  "append_stream_deltas db leases k first ds = Inr db' \<longleftrightarrow>
     (\<exists>s table. record_session db ''message'' k = Inr (Some s) \<and> assert_owner db leases s = Inr ()
        \<and> insert_deltas k first (stream_deltas db) ds = Inr table
        \<and> db' = bump_revision (db\<lparr>stream_deltas := table\<rparr>) s)"
  by (auto simp: append_stream_deltas_def result_simps)

lemma append_deltas_keeps:
  assumes "append_stream_deltas db leases k first ds = Inr db'"
  shows "records db' = records db" "lease_columns db' s = lease_columns db s"
    "db_wf db \<Longrightarrow> db_wf db'"
proof -
  obtain t table where a: "insert_deltas k first (stream_deltas db) ds = Inr table"
      "db' = bump_revision (db\<lparr>stream_deltas := table\<rparr>) t"
    using assms unfolding append_deltas_iff by blast
  show "records db' = records db" using a by simp
  have "lease_columns (db\<lparr>stream_deltas := table\<rparr>) s = lease_columns db s" by (simp add: lease_columns_def)
  then show "lease_columns db' s = lease_columns db s" using a by simp
  show "db_wf db'" if "db_wf db"
    using that a insert_deltas_wf[OF a(1)] by (simp, intro bump_revision_wf) (simp add: db_wf_def)
qed

lemma clear_deltas_keeps [simp]:
  "records (clear_stream_deltas db k) = records db"
  "sessions (clear_stream_deltas db k) = sessions db"
  "queued_messages (clear_stream_deltas db k) = queued_messages db"
  "execution_output (clear_stream_deltas db k) = execution_output db"
  "execution_sources (clear_stream_deltas db k) = execution_sources db"
  "lease_columns (clear_stream_deltas db k) s = lease_columns db s"
  "db_wf db \<Longrightarrow> db_wf (clear_stream_deltas db k)"
  by (simp_all add: clear_stream_deltas_def lease_columns_def db_wf_def)

text \<open>The deltas of a message are numbered from 0 without gaps.\<close>

definition numbered :: "database \<Rightarrow> string \<Rightarrow> stream_delta list \<Rightarrow> bool" where
  "numbered db k ds =
     (\<forall>j. bt_get (stream_deltas db) (k, j) = (if 0 \<le> j \<and> j < int (length ds) then Some (ds ! nat j) else None))"

lemma delta_rows_retain: "delta_rows db k = bt_retain (\<lambda>(m, _) _. m = k) (stream_deltas db)"
  by (auto simp: delta_rows_def bt_retain_def intro!: filter_cong)

definition numbered_rows :: "string \<Rightarrow> stream_delta list \<Rightarrow> ((string \<times> int) \<times> stream_delta) list" where
  "numbered_rows k ds = map (\<lambda>i. ((k, int i), ds ! i)) [0..<length ds]"

lemma numbered_rows_get:
  "bt_get (numbered_rows k ds) (k', j) = (if k' = k \<and> 0 \<le> j \<and> j < int (length ds) then Some (ds ! nat j) else None)"
proof -
  have d: "distinct (map fst (numbered_rows k ds))"
    by (simp add: numbered_rows_def o_def distinct_map inj_on_def)
  have "((k', j), v) \<in> set (numbered_rows k ds) \<longleftrightarrow> k' = k \<and> 0 \<le> j \<and> j < int (length ds) \<and> v = ds ! nat j" for v
    by (auto simp: numbered_rows_def image_iff intro!: bexI[of _ "nat j"])
  then have "bt_get (numbered_rows k ds) (k', j) = Some v \<longleftrightarrow>
      k' = k \<and> 0 \<le> j \<and> j < int (length ds) \<and> v = ds ! nat j" for v
    using map_of_eq_Some_iff[OF d, of "(k', j)" v] by simp
  then show ?thesis
    by (cases "bt_get (numbered_rows k ds) (k', j)") auto
qed

lemma delta_rows_numbered:
  assumes "db_wf db" "numbered db k ds"
  shows "map snd (delta_rows db k) = ds"
proof -
  have "delta_rows db k = numbered_rows k ds"
  proof (rule bt_eqI)
    show wf: "bt_wf (delta_rows db k)" using assms(1) by (auto simp: delta_rows_retain)
    show "bt_wf (numbered_rows k ds)"
      by (simp add: bt_wf_def numbered_rows_def sorted_wrt_map less_prod_def)
    show "bt_get (delta_rows db k) key = bt_get (numbered_rows k ds) key" for key
      using assms by (cases key) (auto simp: delta_rows_retain bt_get_retain numbered_rows_get numbered_def split: option.splits)
  qed
  then show ?thesis by (simp add: numbered_rows_def o_def map_nth)
qed

lemma numbered_append:
  assumes "numbered db k ds0" "append_stream_deltas db leases k (length ds0) ds = Inr db'"
  shows "numbered db' k (ds0 @ ds)"
proof -
  obtain s table where t: "insert_deltas k (length ds0) (stream_deltas db) ds = Inr table"
      "stream_deltas db' = table"
    using assms(2) unfolding append_deltas_iff by auto
  have "bt_get table (k, j) = (if 0 \<le> j \<and> j < int (length (ds0 @ ds)) then Some ((ds0 @ ds) ! nat j) else None)" for j
  proof (cases "j < int (length ds0)")
    case True
    then show ?thesis
      using assms(1) insert_deltas_get[OF t(1), of k j] by (auto simp: numbered_def nth_append)
  next
    case False
    then have "nat (j - int (length ds0)) = nat j - length ds0" by simp
    then show ?thesis
      using False assms(1) insert_deltas_get[OF t(1), of k j] by (auto simp: numbered_def nth_append)
  qed
  then show ?thesis using t(2) by (simp add: numbered_def)
qed

interpretation delta_write: session_write
  "\<lambda>db leases. append_stream_deltas db leases k first ds"
  "\<lambda>db. case record_session db ''message'' k of Inr (Some s) \<Rightarrow> s | _ \<Rightarrow> []" for k first ds
proof unfold_locales
  fix db leases db'
  assume "append_stream_deltas db leases k first ds = Inr db'"
  then show "assert_owner db leases (case record_session db ''message'' k of Inr (Some s) \<Rightarrow> s | _ \<Rightarrow> []) = Inr ()"
    by (auto simp: append_deltas_iff)
qed (rule append_deltas_keeps)

lemma read_message_cong:
  "records db' = records db \<Longrightarrow> stream_deltas db' = stream_deltas db \<Longrightarrow> read_message db' k = read_message db k"
  by (simp only: read_message_def read_record_def delta_rows_def)

lemma read_message_streaming:
  assumes "db_wf db" "numbered db k ds" "read_record as_message db ''message'' k = Inr (Some m)"
    "is_streaming (message_status m)"
  shows "read_message db k = bindR (apply_deltas ds m) (\<lambda>m. Inr (Some m))"
  using assms by (simp add: read_message_def delta_rows_numbered)

section \<open>Properties\<close>

text \<open>Merging deltas loses nothing: when one delta absorbs the next, applying the merged delta
  has the same effect on every message as applying the two in order, including the same failure.\<close>

theorem coalesced_delta_equivalent:
  assumes "delta_coalesce d n = (d', None)"
  shows "bindR (delta_apply d m) (delta_apply n) = delta_apply d' m"
  using assms by (rule delta_coalesce_sound)

definition sample_stream :: message where
  "sample_stream = \<lparr>message_id = ''m'', parent_id = None, message_content = AssistantItems [],
     message_status = Streaming ''st'', agent_profile_id = None, generation = None\<rparr>"

theorem coalesced_delta_equivalent_witness:
  "bindR (delta_apply (DeltaText 0 Commentary ''a'') sample_stream) (delta_apply (DeltaText 0 Commentary ''b''))
    = delta_apply (DeltaText 0 Commentary ''ab'') sample_stream"
  using coalesced_delta_equivalent[of "DeltaText 0 Commentary ''a''" "DeltaText 0 Commentary ''b''"
      "DeltaText 0 Commentary ''ab''" sample_stream] by simp

text \<open>A streamed message reads as its deltas in order: when its stored deltas are numbered from 0
  and the next batch is appended, the message reads as the linked message with all deltas applied
  in order, and the numbering has no gap.\<close>

theorem streamed_message_reads_in_order:
  assumes "db_wf db" "numbered db k ds0"
    and "read_record as_message db ''message'' k = Inr (Some m)" "is_streaming (message_status m)"
    and "append_stream_deltas db leases k (length ds0) ds = Inr db'"
  shows "numbered db' k (ds0 @ ds)
    \<and> read_message db' k = bindR (apply_deltas ds0 m) (\<lambda>m'. bindR (apply_deltas ds m') (\<lambda>m''. Inr (Some m'')))"
proof -
  have n: "numbered db' k (ds0 @ ds)" using assms(2,5) by (rule numbered_append)
  have "read_record as_message db' ''message'' k = Inr (Some m)"
    using assms(3) append_deltas_keeps(1)[OF assms(5)] by (simp add: read_record_def)
  from read_message_streaming[OF _ n this assms(4)]
  have "read_message db' k = bindR (apply_deltas (ds0 @ ds) m) (\<lambda>m. Inr (Some m))"
    using append_deltas_keeps(3)[OF assms(5)] assms(1) by simp
  then show ?thesis
    using n by (cases "apply_deltas ds0 m") (simp_all add: apply_deltas_def foldR_append)
qed

definition stream_db :: database where
  "stream_db = empty_database\<lparr>
     sessions := [(''s'', \<lparr>row_data = \<lparr>meta_revision = 1, meta_id = ''s'', tip_id = None, workspace_dir = [],
        created_at = 0, updated_at = 0, title = None, selected_profile_id = None, selected_model = None\<rparr>,
        row_tip = None, revision = 1, metadata_revision = 1, lease_active = False,
        lease_expires_at = 0, lease_token = 0, turn_timer = None\<rparr>)],
     records := [((''message'', ''m''), \<lparr>record_session_id = Some ''s'', record_data_of = MessageRecord sample_stream\<rparr>)]\<rparr>"

lemma valid_id_s: "valid_id ''s''"
  by (simp add: valid_id_def validate_message_id_def validate_id_def message_id_byte_def
      is_ascii_alphanumeric_def is_ascii_digit_def byte_def)

lemma stream_db_facts:
  "db_wf stream_db" "numbered stream_db ''m'' []"
  "read_record as_message stream_db ''message'' ''m'' = Inr (Some sample_stream)"
  "\<exists>db'. append_stream_deltas stream_db [] ''m'' 0 [DeltaText 0 FinalAnswer ''hi''] = Inr db'"
  by (simp_all add: stream_db_def empty_database_def db_wf_def bt_wf_def table_all_def session_row_ok_def
      valid_id_s record_row_ok_def sample_stream_def numbered_def read_record_def append_stream_deltas_def
      record_session_def assert_owner_def leases_get_def i64_max_def)

theorem streamed_message_reads_in_order_witness:
  "\<exists>db'. append_stream_deltas stream_db [] ''m'' 0 [DeltaText 0 FinalAnswer ''hi''] = Inr db'
     \<and> read_message db' ''m'' = Inr (Some (sample_stream\<lparr>message_content := AssistantItems [AssistantText FinalAnswer ''hi'']\<rparr>))"
proof -
  obtain db' where a: "append_stream_deltas stream_db [] ''m'' 0 [DeltaText 0 FinalAnswer ''hi''] = Inr db'"
    using stream_db_facts(4) by blast
  have "append_stream_deltas stream_db [] ''m'' (length ([] :: stream_delta list)) [DeltaText 0 FinalAnswer ''hi''] = Inr db'"
    using a by simp
  from streamed_message_reads_in_order[OF stream_db_facts(1,2,3) _ this]
  show ?thesis using a by (simp add: sample_stream_def apply_deltas_def delta_apply_def apply_text_def)
qed

text \<open>Sending deltas again is harmless: when a batch has been stored, sending any part of its
  range again succeeds for the same owner and leaves every message reading as it did.\<close>

theorem resent_deltas_are_ignored:
  assumes "append_stream_deltas db leases k first ds = Inr db1"
    and "first \<le> again" "again + length ds' \<le> first + length ds"
  shows "\<exists>db2. append_stream_deltas db1 leases k again ds' = Inr db2
    \<and> stream_deltas db2 = stream_deltas db1 \<and> read_message db2 j = read_message db1 j"
proof -
  obtain s table where a: "record_session db ''message'' k = Inr (Some s)" "assert_owner db leases s = Inr ()"
      "insert_deltas k first (stream_deltas db) ds = Inr table"
      "db1 = bump_revision (db\<lparr>stream_deltas := table\<rparr>) s"
    using assms(1) unfolding append_deltas_iff by blast
  have "insert_deltas k again table ds' = Inr table"
  proof (rule insert_deltas_present)
    show "bt_get table (k, j) \<noteq> None" if "int again \<le> j" "j < int again + int (length ds')" for j
      using insert_deltas_get[OF a(3), of k j] that assms(2,3) by (auto split: option.splits)
    show "int again + int (length ds') \<le> i64_max + 1" if "ds' \<noteq> []"
    proof -
      have "ds \<noteq> []" using that assms(2,3) by (cases ds') auto
      from insert_deltas_bound[OF a(3) this] show ?thesis using assms(2,3) by linarith
    qed
  qed
  moreover have "record_session db1 ''message'' k = Inr (Some s)" using a(1,4) by (simp add: record_session_def)
  moreover have "assert_owner db1 leases s = Inr ()"
    using a(2) append_deltas_keeps(2)[OF assms(1), of s] by (simp add: assert_owner_iff)
  ultimately have "append_stream_deltas db1 leases k again ds' = Inr (bump_revision db1 s)"
    using a(4) by (simp add: append_stream_deltas_def) (simp add: bump_revision_def)
  moreover have "read_message (bump_revision db1 s) j = read_message db1 j"
    by (intro read_message_cong) simp_all
  ultimately show ?thesis by simp
qed

theorem resent_deltas_are_ignored_witness:
  "\<exists>db1 db2. append_stream_deltas stream_db [] ''m'' 0 [DeltaText 0 FinalAnswer ''hi''] = Inr db1
     \<and> append_stream_deltas db1 [] ''m'' 0 [DeltaText 0 FinalAnswer ''hi''] = Inr db2
     \<and> stream_deltas db2 = stream_deltas db1"
proof -
  obtain db1 where a: "append_stream_deltas stream_db [] ''m'' 0 [DeltaText 0 FinalAnswer ''hi''] = Inr db1"
    using stream_db_facts(4) by blast
  from resent_deltas_are_ignored[OF a, of 0 "[DeltaText 0 FinalAnswer ''hi'']"] show ?thesis using a by auto
qed

end
