(* ===== verification/History.thy ===== *)
theory History
  imports Stream_Deltas
begin

text \<open>
  Reading a conversation's history (crates/kraai-persistence, history.rs and the default of
  messages.rs): a message names its parent, and a session names its tip; the history is the walk
  from the tip to the root. It is read in one transaction up to a limit, or through a cursor in
  pages that double in size, with in-memory versions of messages laid over the stored ones. The
  store a cursor reads from is an argument, as in the source. A loop over pages takes a bound on
  the number of pages; the properties show that a bound above the length of the history is enough.
\<close>

section \<open>Operations\<close>

type_synonym store_get = "string \<Rightarrow> (store_error, message option) result"

definition missing_history_message :: "string \<Rightarrow> store_error" where
  "missing_history_message k = Report (''Message '' @ k @ '' disappeared while reading session history'')"

definition history_cycle :: "string \<Rightarrow> store_error" where
  "history_cycle k = Report (''Corrupt message parent graph: cycle repeats message '' @ k)"

function chain_loop ::
  "store_get \<Rightarrow> nat \<Rightarrow> message list \<Rightarrow> string set \<Rightarrow> string option \<Rightarrow> (store_error, message list) result" where
  "chain_loop get limit history visited cursor =
     (case cursor of
        None \<Rightarrow> Inr history
      | Some k \<Rightarrow>
          if length history < limit then
            if k \<in> visited then Inl (history_cycle k)
            else (case get k of
                    Inl e \<Rightarrow> Inl e
                  | Inr None \<Rightarrow> Inl (missing_history_message k)
                  | Inr (Some m) \<Rightarrow> chain_loop get limit (history @ [m]) (insert k visited) (parent_id m))
          else Inr history)"
  by pat_completeness auto
termination
  by (relation "measure (\<lambda>(_, limit, history, _, _). limit - length history)") auto

declare chain_loop.simps [simp del]

text \<open>The trait's default over any store, and the same loop inside one read transaction.\<close>

definition read_history :: "store_get \<Rightarrow> string \<Rightarrow> nat \<Rightarrow> (store_error, message list) result" where
  "read_history get from limit = chain_loop get limit [] {} (Some from)"

definition read_history_chain :: "database \<Rightarrow> string \<Rightarrow> nat \<Rightarrow> (store_error, message list) result" where
  "read_history_chain db from limit = chain_loop (read_message db) limit [] {} (Some from)"

record history_cursor =
  cursor_next :: "string option"
  cursor_visited :: "string set"
  page_size :: nat

definition cursor_new :: "string option \<Rightarrow> history_cursor" where
  "cursor_new from = \<lparr>cursor_next = from, cursor_visited = {}, page_size = 1\<rparr>"

definition cursor_push ::
  "string set \<times> message list \<Rightarrow> string \<Rightarrow> message \<Rightarrow> (store_error, string set \<times> message list) result" where
  "cursor_push st k m = (case st of (visited, page) \<Rightarrow>
     bindR (ensure (k \<notin> visited) (history_cycle k)) (\<lambda>_. Inr (insert k visited, page @ [m])))"

definition finish_page :: "history_cursor \<Rightarrow> string set \<Rightarrow> message list \<Rightarrow> message list \<times> history_cursor" where
  "finish_page self visited page =
     (page, self\<lparr>cursor_next := (if page = [] then None else parent_id (last page)),
                 cursor_visited := visited, page_size := sat_mul (page_size self) 2\<rparr>)"

text \<open>The loop over the overlay; the last component is where the store takes over, if it does.\<close>

function overlay_loop ::
  "(string \<Rightarrow> message option) \<Rightarrow> nat \<Rightarrow> string set \<Rightarrow> message list \<Rightarrow> string
     \<Rightarrow> (store_error, string set \<times> message list \<times> string option) result" where
  "overlay_loop overlay lim visited page cursor =
     (case overlay cursor of
        None \<Rightarrow> Inr (visited, page, Some cursor)
      | Some m \<Rightarrow>
          (case cursor_push (visited, page) cursor m of
             Inl e \<Rightarrow> Inl e
           | Inr (visited', page') \<Rightarrow>
               (case parent_id m of
                  None \<Rightarrow> Inr (visited', page', None)
                | Some parent \<Rightarrow>
                    if length page' < lim then overlay_loop overlay lim visited' page' parent
                    else Inr (visited', page', None))))"
  by pat_completeness auto
termination
  by (relation "measure (\<lambda>(_, lim, _, page, _). lim - length page)")
    (auto simp: cursor_push_def result_simps)

declare overlay_loop.simps [simp del]

definition store_step ::
  "(string \<Rightarrow> message option) \<Rightarrow> string option \<times> string set \<times> message list \<Rightarrow> message
     \<Rightarrow> (store_error, string option \<times> string set \<times> message list) result" where
  "store_step overlay st m = (case st of (requested, visited, page) \<Rightarrow>
     bindR (ok_or requested (Report ''History page continued past the root'')) (\<lambda>k.
     let shown = (case overlay k of Some m' \<Rightarrow> m' | None \<Rightarrow> m)
     in bindR (cursor_push (visited, page) k shown) (\<lambda>(visited, page). Inr (parent_id m, visited, page))))"

definition next_page ::
  "(string \<Rightarrow> nat \<Rightarrow> (store_error, message list) result) \<Rightarrow> (string \<Rightarrow> message option) \<Rightarrow> history_cursor
     \<Rightarrow> (store_error, message list option \<times> history_cursor) result" where
  "next_page rh overlay self =
     (case cursor_next self of
        None \<Rightarrow> Inr (None, self)
      | Some cursor \<Rightarrow>
          let self = self\<lparr>cursor_next := None\<rparr> in
          bindR (overlay_loop overlay (page_size self) (cursor_visited self) [] cursor) (\<lambda>(visited, page, rest).
          case rest of
            None \<Rightarrow> (case finish_page self visited page of (page, self) \<Rightarrow> Inr (Some page, self))
          | Some cursor \<Rightarrow>
              bindR (rh cursor (page_size self - length page)) (\<lambda>ms.
              bindR (foldR (store_step overlay) (Some cursor, visited, page) ms) (\<lambda>(_, visited, page).
              case finish_page self visited page of (page, self) \<Rightarrow> Inr (Some page, self)))))"

definition read_page ::
  "(string \<Rightarrow> nat \<Rightarrow> (store_error, message list) result) \<Rightarrow> (string \<Rightarrow> message option) \<Rightarrow> history_cursor
     \<Rightarrow> nat \<Rightarrow> (store_error, message list \<times> string option) result" where
  "read_page rh overlay self limit =
     bindR (next_page rh overlay (self\<lparr>page_size := max limit 1\<rparr>)) (\<lambda>(page, self).
     Inr (case page of None \<Rightarrow> [] | Some p \<Rightarrow> p, cursor_next self))"

text \<open>\<open>while let Some(page) = next_page()?\<close>, at most \<open>n\<close> turns; \<open>None\<close> when they run out.\<close>

fun collect_pages ::
  "nat \<Rightarrow> (string \<Rightarrow> nat \<Rightarrow> (store_error, message list) result) \<Rightarrow> (string \<Rightarrow> message option)
     \<Rightarrow> history_cursor \<Rightarrow> message list \<Rightarrow> (store_error, message list) result option" where
  "collect_pages 0 rh overlay self history = None"
| "collect_pages (Suc n) rh overlay self history =
     (case next_page rh overlay self of
        Inl e \<Rightarrow> Some (Inl e)
      | Inr (None, _) \<Rightarrow> Some (Inr history)
      | Inr (Some page, self) \<Rightarrow> collect_pages n rh overlay self (history @ page))"

definition read_to_root ::
  "nat \<Rightarrow> (string \<Rightarrow> nat \<Rightarrow> (store_error, message list) result) \<Rightarrow> (string \<Rightarrow> message option)
     \<Rightarrow> history_cursor \<Rightarrow> (store_error, message list) result option" where
  "read_to_root n rh overlay self = collect_pages n rh overlay (self\<lparr>page_size := usize_max\<rparr>) []"

fun in_pages ::
  "nat \<Rightarrow> (string \<Rightarrow> nat \<Rightarrow> (store_error, message list) result) \<Rightarrow> history_cursor \<Rightarrow> string
     \<Rightarrow> (store_error, bool) result option" where
  "in_pages 0 rh self target = None"
| "in_pages (Suc n) rh self target =
     (case next_page rh (\<lambda>_. None) self of
        Inl e \<Rightarrow> Some (Inl e)
      | Inr (None, _) \<Rightarrow> Some (Inr False)
      | Inr (Some page, self) \<Rightarrow>
          if list_ex (\<lambda>m. message_id m = target) page then Some (Inr True) else in_pages n rh self target)"

definition message_is_in_history ::
  "nat \<Rightarrow> (string \<Rightarrow> nat \<Rightarrow> (store_error, message list) result) \<Rightarrow> string option \<Rightarrow> string
     \<Rightarrow> (store_error, bool) result option" where
  "message_is_in_history n rh tip target = in_pages n rh (cursor_new tip) target"

text \<open>\<open>entry(id).or_insert(message)\<close>: the occurrence nearest the tip stays.\<close>

definition history_by_id :: "message list \<Rightarrow> (string, message) btree" where
  "history_by_id history =
     foldl (\<lambda>indexed m. if bt_get indexed (message_id m) = None then bt_insert (message_id m) m indexed else indexed)
       [] history"

section \<open>Walks\<close>

text \<open>Walking from a cursor through the named messages, ending at a cursor.\<close>

inductive walk :: "store_get \<Rightarrow> string option \<Rightarrow> string list \<Rightarrow> message list \<Rightarrow> string option \<Rightarrow> bool" for get where
  stop: "walk get c [] [] c"
| step: "get k = Inr (Some m) \<Longrightarrow> walk get (parent_id m) ks ms c \<Longrightarrow> walk get (Some k) (k # ks) (m # ms) c"

inductive_simps walk_Nil [simp]: "walk get c [] ms c'"
inductive_simps walk_Cons [simp]: "walk get c (k # ks) ms c'"
inductive_simps walk_None [simp]: "walk get None ks ms c'"

lemma walk_length: "walk get c ks ms c' \<Longrightarrow> length ks = length ms"
  by (induction rule: walk.induct) auto

lemma walk_append:
  "length ks1 = length ms1 \<Longrightarrow>
   walk get c (ks1 @ ks2) (ms1 @ ms2) c' \<longleftrightarrow> (\<exists>c1. walk get c ks1 ms1 c1 \<and> walk get c1 ks2 ms2 c')"
  by (induction ks1 ms1 arbitrary: c rule: list_induct2) auto

lemma walk_end: "walk get c ks ms c' \<Longrightarrow> ms \<noteq> [] \<Longrightarrow> c' = parent_id (last ms)"
proof (induction rule: walk.induct)
  case (step k m ks ms c)
  show ?case
  proof (cases "ms = []")
    case True
    then have "ks = []" using walk_length[OF step(2)] by simp
    then show ?thesis using step(2) True by simp
  qed (use step in simp)
qed simp

lemma walk_first:
  "walk get (Some k) ks ms c' \<longleftrightarrow> ks = [] \<and> ms = [] \<and> c' = Some k
     \<or> (\<exists>m ks' ms'. ks = k # ks' \<and> ms = m # ms' \<and> get k = Inr (Some m) \<and> walk get (parent_id m) ks' ms' c')"
  by (cases ks) auto

lemma chain_loop_walk:
  "chain_loop get limit hist visited c = Inr h \<longleftrightarrow>
     (\<exists>ks ms c'. walk get c ks ms c' \<and> distinct ks \<and> set ks \<inter> visited = {} \<and> h = hist @ ms
        \<and> (c' = None \<or> limit \<le> length h) \<and> (ms = [] \<or> length h \<le> limit))"
proof (induction get limit hist visited c rule: chain_loop.induct)
  case (1 get limit hist visited c)
  show ?case
  proof (cases c)
    case None
    then show ?thesis by (subst chain_loop.simps) auto
  next
    case (Some k)
    show ?thesis
    proof (cases "length hist < limit \<and> k \<notin> visited \<and> (\<exists>m. get k = Inr (Some m))")
      case True
      then obtain m where m: "get k = Inr (Some m)" by blast
      have eq: "chain_loop get limit hist visited c = chain_loop get limit (hist @ [m]) (insert k visited) (parent_id m)"
        using True Some m by (subst chain_loop.simps) simp
      have IH: "chain_loop get limit (hist @ [m]) (insert k visited) (parent_id m) = Inr h \<longleftrightarrow>
          (\<exists>ks ms c'. walk get (parent_id m) ks ms c' \<and> distinct ks \<and> set ks \<inter> insert k visited = {}
             \<and> h = (hist @ [m]) @ ms \<and> (c' = None \<or> limit \<le> length h) \<and> (ms = [] \<or> length h \<le> limit))"
        using "1.IH"[OF Some _ _ m refl] True by blast
      show ?thesis
      proof
        assume "chain_loop get limit hist visited c = Inr h"
        then obtain ks ms c' where w: "walk get (parent_id m) ks ms c'" "distinct ks" "set ks \<inter> insert k visited = {}"
            "h = (hist @ [m]) @ ms" "c' = None \<or> limit \<le> length h" "ms = [] \<or> length h \<le> limit"
          using eq IH by auto
        then show "\<exists>ks ms c'. walk get c ks ms c' \<and> distinct ks \<and> set ks \<inter> visited = {} \<and> h = hist @ ms
            \<and> (c' = None \<or> limit \<le> length h) \<and> (ms = [] \<or> length h \<le> limit)"
          using True m Some by (intro exI[of _ "k # ks"] exI[of _ "m # ms"] exI[of _ c']) auto
      next
        assume "\<exists>ks ms c'. walk get c ks ms c' \<and> distinct ks \<and> set ks \<inter> visited = {} \<and> h = hist @ ms
            \<and> (c' = None \<or> limit \<le> length h) \<and> (ms = [] \<or> length h \<le> limit)"
        then show "chain_loop get limit hist visited c = Inr h"
          unfolding eq IH using True m Some unfolding walk_first by (fastforce simp: walk_first)
      qed
    next
      case False
      have "\<not> length hist < limit \<Longrightarrow> chain_loop get limit hist visited c = Inr hist"
        using Some by (subst chain_loop.simps) simp
      moreover have "\<exists>e. chain_loop get limit hist visited c = Inl e" if "length hist < limit"
        using that False Some by (subst chain_loop.simps) (auto split: sum.splits option.splits)
      ultimately show ?thesis
        using False Some by (cases "length hist < limit") (auto simp: walk_first)
    qed
  qed
qed

section \<open>Pages\<close>

abbreviation no_overlay :: "string \<Rightarrow> message option" where
  "no_overlay \<equiv> \<lambda>_. None"

lemma walk_take:
  assumes "walk get c ks ms None"
  shows "\<exists>c1. walk get c (take n ks) (take n ms) c1 \<and> walk get c1 (drop n ks) (drop n ms) None"
  using assms walk_append[of "take n ks" "take n ms" get c "drop n ks" "drop n ms" None] walk_length[OF assms]
  by simp

lemma read_history_page:
  assumes "walk get (Some k) ks ms None" "distinct ks"
  shows "read_history get k n = Inr (take n ms)"
proof -
  obtain c1 where c1: "walk get (Some k) (take n ks) (take n ms) c1" "walk get c1 (drop n ks) (drop n ms) None"
    using walk_take[OF assms(1)] by blast
  have "c1 = None \<or> n \<le> length (take n ms)"
    using c1(2) walk_length[OF assms(1)] by (cases "n \<le> length ms") auto
  then show ?thesis
    using c1(1) assms(2) unfolding read_history_def chain_loop_walk
    by (intro exI[of _ "take n ks"] exI[of _ "take n ms"] exI[of _ c1]) auto
qed

lemma store_step_walk:
  "walk get c ks ms c' \<Longrightarrow> distinct ks \<Longrightarrow> set ks \<inter> V = {} \<Longrightarrow>
   foldR (store_step no_overlay) (c, V, page) ms = Inr (c', V \<union> set ks, page @ ms)"
proof (induction arbitrary: V page rule: walk.induct)
  case (step k m ks ms c)
  have "store_step no_overlay (Some k, V, page) m = Inr (parent_id m, insert k V, page @ [m])"
    using step.prems by (simp add: store_step_def cursor_push_def)
  then show ?case using step.IH[of "insert k V" "page @ [m]"] step.prems by simp
qed simp

text \<open>A cursor stands at \<open>c\<close> with a fresh walk to the root ahead.\<close>

definition cursor_at :: "store_get \<Rightarrow> history_cursor \<Rightarrow> string list \<Rightarrow> message list \<Rightarrow> bool" where
  "cursor_at get cur ks ms =
     (walk get (cursor_next cur) ks ms None \<and> distinct ks \<and> set ks \<inter> cursor_visited cur = {}
      \<and> 0 < page_size cur)"

lemma sat_mul_pos: "0 < n \<Longrightarrow> 0 < sat_mul n 2"
  by (simp add: sat_mul_def usize_max_def)

lemma next_page_done: "cursor_at get cur ks [] \<Longrightarrow> next_page rh overlay cur = Inr (None, cur)"
proof -
  assume a: "cursor_at get cur ks []"
  then have "ks = []" using walk_length[of get "cursor_next cur" ks "[]" None] by (simp add: cursor_at_def)
  then have "cursor_next cur = None" using a by (simp add: cursor_at_def)
  then show ?thesis by (simp add: next_page_def)
qed

lemma next_page_some:
  assumes "cursor_at get cur ks ms" "ms \<noteq> []"
  shows "\<exists>cur'. next_page (read_history get) no_overlay cur = Inr (Some (take (page_size cur) ms), cur')
    \<and> cursor_at get cur' (drop (page_size cur) ks) (drop (page_size cur) ms)
    \<and> cursor_visited cur' = cursor_visited cur \<union> set (take (page_size cur) ks)
    \<and> page_size cur' = sat_mul (page_size cur) 2"
proof -
  let ?n = "page_size cur" and ?V = "cursor_visited cur"
  have at: "walk get (cursor_next cur) ks ms None" "distinct ks" "set ks \<inter> ?V = {}" "0 < ?n"
    using assms(1) by (auto simp: cursor_at_def)
  obtain k where k: "cursor_next cur = Some k"
    using at(1) assms(2) by (cases "cursor_next cur") auto
  obtain c1 where c1: "walk get (Some k) (take ?n ks) (take ?n ms) c1" "walk get c1 (drop ?n ks) (drop ?n ms) None"
    using walk_take[OF at(1)] k by auto
  have page: "read_history get k ?n = Inr (take ?n ms)"
    using read_history_page[of get k ks ms ?n] at(1,2) k by simp
  have fold: "foldR (store_step no_overlay) (Some k, ?V, []) (take ?n ms) = Inr (c1, ?V \<union> set (take ?n ks), take ?n ms)"
    using store_step_walk[OF c1(1), of ?V "[]"] at(2,3) set_take_subset[of ?n ks] by auto
  have ne: "take ?n ms \<noteq> []" using assms(2) at(4) by simp
  have end_: "c1 = parent_id (last (take ?n ms))" using walk_end[OF c1(1) ne] .
  let ?cur' = "cur\<lparr>cursor_next := c1, cursor_visited := ?V \<union> set (take ?n ks), page_size := sat_mul ?n 2\<rparr>"
  have "next_page (read_history get) no_overlay cur = Inr (Some (take ?n ms), ?cur')"
    using k page fold ne end_
    by (simp add: next_page_def overlay_loop.simps Let_def finish_page_def)
  moreover have "cursor_at get ?cur' (drop ?n ks) (drop ?n ms)"
    using c1(2) at sat_mul_pos[OF at(4)] set_drop_subset[of ?n ks] set_take_disj_set_drop_if_distinct[OF at(2), of ?n ?n]
    by (auto simp: cursor_at_def)
  ultimately show ?thesis by (intro exI[of _ ?cur']) simp
qed

lemma collect_pages_walk:
  assumes "cursor_at get cur ks ms" "length ms < n"
  shows "collect_pages n (read_history get) no_overlay cur hist = Some (Inr (hist @ ms))"
  using assms
proof (induction n arbitrary: cur ks ms hist)
  case (Suc n)
  show ?case
  proof (cases "ms = []")
    case True
    then show ?thesis using next_page_done[of get cur ks] Suc.prems(1) by simp
  next
    case False
    obtain cur' where cur': "next_page (read_history get) no_overlay cur = Inr (Some (take (page_size cur) ms), cur')"
        "cursor_at get cur' (drop (page_size cur) ks) (drop (page_size cur) ms)"
      using next_page_some[OF Suc.prems(1) False] by blast
    have "0 < page_size cur" using Suc.prems(1) by (simp add: cursor_at_def)
    then have "length (drop (page_size cur) ms) < n" using Suc.prems(2) False by (cases ms) auto
    from Suc.IH[OF cur'(2) this] show ?thesis using cur'(1) by simp
  qed
qed simp

lemma in_pages_walk:
  assumes "cursor_at get cur ks ms" "length ms < n"
  shows "in_pages n (read_history get) cur target = Some (Inr (target \<in> message_id ` set ms))"
  using assms
proof (induction n arbitrary: cur ks ms)
  case (Suc n)
  show ?case
  proof (cases "ms = []")
    case True
    then show ?thesis using next_page_done[of get cur ks] Suc.prems(1) by simp
  next
    case False
    let ?n = "page_size cur"
    obtain cur' where cur': "next_page (read_history get) no_overlay cur = Inr (Some (take ?n ms), cur')"
        "cursor_at get cur' (drop ?n ks) (drop ?n ms)"
      using next_page_some[OF Suc.prems(1) False] by blast
    have "0 < ?n" using Suc.prems(1) by (simp add: cursor_at_def)
    then have "length (drop ?n ms) < n" using Suc.prems(2) False by (cases ms) auto
    moreover have "target \<in> message_id ` set ms \<longleftrightarrow>
        list_ex (\<lambda>m. message_id m = target) (take ?n ms) \<or> target \<in> message_id ` set (drop ?n ms)"
    proof -
      have "set ms = set (take ?n ms) \<union> set (drop ?n ms)" by (metis append_take_drop_id set_append)
      then show ?thesis by (auto simp: list_ex_iff)
    qed
    ultimately show ?thesis using Suc.IH[OF cur'(2)] cur'(1) by simp
  qed
qed simp

section \<open>Reading from the database\<close>

lemma delta_apply_keeps:
  "delta_apply d m = Inr m' \<Longrightarrow> message_id m' = message_id m \<and> parent_id m' = parent_id m \<and> message_status m' = message_status m"
  by (auto simp: delta_apply_def result_simps split: stream_delta.splits conversation_item.splits option.splits)

lemma apply_deltas_keeps:
  assumes "apply_deltas ds m = Inr m'"
  shows "message_id m' = message_id m \<and> parent_id m' = parent_id m \<and> message_status m' = message_status m"
  using assms unfolding apply_deltas_def
  by (rule foldR_invariant) (auto dest: delta_apply_keeps)

lemma read_message_record:
  assumes "read_message db k = Inr (Some m)"
  shows "\<exists>m0 row. bt_get (records db) (''message'', k) = Some row \<and> record_data_of row = MessageRecord m0
    \<and> message_id m = message_id m0 \<and> parent_id m = parent_id m0 \<and> message_status m = message_status m0"
proof -
  obtain m0 where m0: "read_record as_message db ''message'' k = Inr (Some m0)"
      "message_id m = message_id m0 \<and> parent_id m = parent_id m0 \<and> message_status m = message_status m0"
    using assms by (auto simp: read_message_def result_simps split: option.splits if_splits dest: apply_deltas_keeps)
  obtain row where "bt_get (records db) (''message'', k) = Some row" "as_message (record_data_of row) = Some m0"
    using m0(1) by (auto simp: read_record_def split: option.splits)
  moreover from this have "record_data_of row = MessageRecord m0" by (cases "record_data_of row") auto
  ultimately show ?thesis using m0(2) by blast
qed

lemma read_message_id:
  assumes "db_wf db" "read_message db k = Inr (Some m)"
  shows "message_id m = k"
proof -
  obtain m0 row where row: "bt_get (records db) (''message'', k) = Some row" "record_data_of row = MessageRecord m0"
      "message_id m = message_id m0" using read_message_record[OF assms(2)] by blast
  have "record_row_ok (''message'', k) row" using table_all_get[OF _ row(1)] assms(1) by (auto simp: db_wf_def)
  then show ?thesis using row by (simp add: record_row_ok_def)
qed

definition message_ids :: "database \<Rightarrow> string list" where
  "message_ids db = map (\<lambda>((_, k), _). k) (filter (\<lambda>((kind, _), _). kind = ''message'') (records db))"

lemma walk_ids:
  "db_wf db \<Longrightarrow> walk (read_message db) c ks ms c' \<Longrightarrow> ks = map message_id ms \<and> set ks \<subseteq> set (message_ids db)"
proof (induction ks arbitrary: c ms)
  case Nil
  then show ?case by auto
next
  case (Cons k ks)
  then obtain m ms' where m: "ms = m # ms'" "read_message db k = Inr (Some m)" "walk (read_message db) (parent_id m) ks ms' c'"
    by auto
  obtain row where "bt_get (records db) (''message'', k) = Some row" using read_message_record[OF m(2)] by blast
  then have "k \<in> set (message_ids db)" by (force simp: message_ids_def dest: map_of_SomeD)
  then show ?case using Cons.IH[OF Cons.prems(1) m(3)] read_message_id[OF Cons.prems(1) m(2)] m(1) by auto
qed

lemma chain_reaches_root:
  assumes "read_history get tip limit = Inr ms" "length ms < limit"
  shows "\<exists>ks. walk get (Some tip) ks ms None \<and> distinct ks"
  using assms unfolding read_history_def chain_loop_walk by auto

section \<open>Properties\<close>

text \<open>C34. Reading in pages is reading the chain: when the chain from a tip reaches its root, a
  cursor that starts there collects exactly the chain, tip first, whether pages double from one
  message or everything is asked for at once; its first page of any size is the corresponding
  prefix; and a message is reported in the history exactly when the chain holds it. One page more
  than there are messages is enough for every loop.\<close>

theorem paged_history_is_the_chain:
  assumes "read_history get tip limit = Inr ms" "length ms < limit"
  shows "collect_pages (Suc (length ms)) (read_history get) no_overlay (cursor_new (Some tip)) [] = Some (Inr ms)
    \<and> read_to_root (Suc (length ms)) (read_history get) no_overlay (cursor_new (Some tip)) = Some (Inr ms)
    \<and> (\<exists>older. read_page (read_history get) no_overlay (cursor_new (Some tip)) n = Inr (take (max n 1) ms, older))
    \<and> message_is_in_history (Suc (length ms)) (read_history get) (Some tip) target
        = Some (Inr (target \<in> message_id ` set ms))"
proof -
  obtain ks where ks: "walk get (Some tip) ks ms None" "distinct ks"
    using chain_reaches_root[OF assms] by blast
  have at: "cursor_at get ((cursor_new (Some tip))\<lparr>page_size := p\<rparr>) ks ms" if "0 < p" for p
    using ks that by (simp add: cursor_at_def cursor_new_def)
  have at1: "cursor_at get (cursor_new (Some tip)) ks ms"
    using ks by (simp add: cursor_at_def cursor_new_def)
  have ne: "ms \<noteq> []" using ks(1) walk_length[OF ks(1)] by (cases ms) auto
  have "\<exists>older. read_page (read_history get) no_overlay (cursor_new (Some tip)) n = Inr (take (max n 1) ms, older)"
  proof -
    have "0 < max n 1" by simp
    from next_page_some[OF at[OF this] ne] show ?thesis by (auto simp: read_page_def)
  qed
  then show ?thesis
    using collect_pages_walk[OF at1, of "Suc (length ms)" "[]"] in_pages_walk[OF at1, of "Suc (length ms)" target]
      collect_pages_walk[OF at[of usize_max], of "Suc (length ms)" "[]"]
    by (simp add: read_to_root_def message_is_in_history_def usize_max_def)
qed

definition sample_note :: "string \<Rightarrow> string option \<Rightarrow> message" where
  "sample_note k parent = \<lparr>message_id = k, parent_id = parent, message_content = SystemItem [],
     message_status = MessageComplete, agent_profile_id = None, generation = None\<rparr>"

definition sample_get :: store_get where
  "sample_get k = Inr (if k = ''a'' then Some (sample_note ''a'' None)
     else if k = ''b'' then Some (sample_note ''b'' (Some ''a'')) else None)"

theorem paged_history_is_the_chain_witness:
  "read_to_root 3 (read_history sample_get) no_overlay (cursor_new (Some ''b''))
    = Some (Inr [sample_note ''b'' (Some ''a''), sample_note ''a'' None])"
proof -
  have "read_history sample_get ''b'' 9 = Inr [sample_note ''b'' (Some ''a''), sample_note ''a'' None]"
    by (simp add: read_history_def chain_loop.simps sample_get_def sample_note_def)
  from paged_history_is_the_chain[OF this] show ?thesis by (simp add: eval_nat_numeral)
qed

text \<open>Reading a stored history always ends with the truth: a successful read holds no message
  twice and no more messages than are stored, each message is followed by its parent, and with a
  limit above the number of stored messages it ends at a root. So a cycle in the parent graph, or
  a parent that is gone, is always reported as an error, never followed forever or cut short.\<close>

theorem history_read_ends:
  assumes "db_wf db" "read_history_chain db tip limit = Inr ms" "length (message_ids db) < limit"
  shows "distinct (map message_id ms) \<and> length ms \<le> length (message_ids db) \<and> ms \<noteq> []
    \<and> message_id (hd ms) = tip \<and> parent_id (last ms) = None
    \<and> (\<forall>i. Suc i < length ms \<longrightarrow> parent_id (ms ! i) = Some (message_id (ms ! Suc i)))"
proof -
  obtain ks c' where w: "walk (read_message db) (Some tip) ks ms c'" "distinct ks" "c' = None \<or> limit \<le> length ms"
    using assms(2) unfolding read_history_chain_def chain_loop_walk by auto
  have ids: "ks = map message_id ms" "set ks \<subseteq> set (message_ids db)" using walk_ids[OF assms(1) w(1)] by auto
  have len: "length ms \<le> length (message_ids db)"
  proof -
    have "length ms = card (set ks)" using w(2) ids(1) by (metis distinct_card length_map)
    also have "\<dots> \<le> card (set (message_ids db))" using ids(2) by (intro card_mono) auto
    finally show ?thesis using card_length[of "message_ids db"] by linarith
  qed
  then have root: "c' = None" using w(3) assms(3) by auto
  have ne: "ms \<noteq> []" using w(1) root walk_length[OF w(1)] by (cases ms) auto
  have links: "parent_id (ms ! i) = Some (message_id (ms ! Suc i))" if "Suc i < length ms" for i
  proof -
    have "walk (read_message db) (Some tip) (take (Suc i) ks @ drop (Suc i) ks) (take (Suc i) ms @ drop (Suc i) ms) c'"
      using w(1) by simp
    then obtain c1 where c1: "walk (read_message db) (Some tip) (take (Suc i) ks) (take (Suc i) ms) c1"
        "walk (read_message db) c1 (drop (Suc i) ks) (drop (Suc i) ms) c'"
      using walk_append walk_length[OF w(1)] by (metis length_take)
    have "c1 = parent_id (ms ! i)"
      using walk_end[OF c1(1)] that by (simp add: take_Suc_conv_app_nth)
    moreover have "drop (Suc i) ks = ks ! Suc i # drop (Suc (Suc i)) ks"
      using that walk_length[OF w(1)] by (simp add: Cons_nth_drop_Suc)
    then have "c1 = Some (ks ! Suc i)" using c1(2) by auto
    ultimately show ?thesis using ids(1) that by simp
  qed
  have "parent_id (last ms) = None" using walk_end[OF w(1) ne] root by simp
  moreover have "message_id (hd ms) = tip" using w(1) ids(1) ne by (cases ms) auto
  ultimately show ?thesis using w(2) ids(1) len ne links by auto
qed

theorem history_read_ends_witness:
  "parent_id sample_stream = None \<and> message_id sample_stream = ''m''"
proof -
  have "read_message stream_db ''m'' = Inr (Some sample_stream)"
    by (simp add: read_message_def stream_db_facts(3)) (simp add: stream_db_def delta_rows_def empty_database_def
        sample_stream_def apply_deltas_def)
  then have "read_history_chain stream_db ''m'' 5 = Inr [sample_stream]"
    by (simp add: read_history_chain_def chain_loop.simps) (simp add: sample_stream_def chain_loop.simps)
  moreover have "length (message_ids stream_db) < 5" by (simp add: message_ids_def stream_db_def)
  ultimately show ?thesis using history_read_ends[OF stream_db_facts(1)] by fastforce
qed

end
