(* ===== verification/Queue.thy ===== *)
theory Queue
  imports Leases
begin

text \<open>
  Messages queued while a session is busy (crates/kraai-persistence, queue.rs and the removal of
  sessions.rs): rows numbered per session, appended under the next number, read in order, and
  consumed up to a number. The locale \<open>message_queue\<close> states the queue as a list per session; its
  interpretation on the table is the refinement.
\<close>

section \<open>Operations\<close>

definition queue_rows :: "database \<Rightarrow> string \<Rightarrow> ((string \<times> int) \<times> queued_message) list" where
  "queue_rows db s = filter (\<lambda>((k, _), _). k = s) (queued_messages db)"

text \<open>\<open>COALESCE(MAX(sequence) + 1, 0)\<close>.\<close>

definition next_sequence :: "database \<Rightarrow> string \<Rightarrow> int" where
  "next_sequence db s =
     (case map (\<lambda>((_, n), _). n) (queue_rows db s) of [] \<Rightarrow> 0 | n # ns \<Rightarrow> foldl max n ns + 1)"

definition insert_queued :: "database \<Rightarrow> string \<Rightarrow> queued_message \<Rightarrow> database" where
  "insert_queued db s m =
     db\<lparr>queued_messages := bt_insert (s, next_sequence db s) m (queued_messages db)\<rparr>"

definition enqueue_message ::
  "database \<Rightarrow> lease_tokens \<Rightarrow> string \<Rightarrow> queued_message \<Rightarrow> (store_error, nat \<times> database) result" where
  "enqueue_message db leases s m =
     bindR (assert_owner db leases s) (\<lambda>_.
     let db' = insert_queued db s m in Inr (length (queue_rows db' s), db'))"

definition queued_entries :: "database \<Rightarrow> string \<Rightarrow> queued_entry list" where
  "queued_entries db s =
     map (\<lambda>((_, n), m). \<lparr>entry_sequence = n, entry_message = m\<rparr>) (queue_rows db s)"

definition has_queued_messages :: "database \<Rightarrow> string \<Rightarrow> bool" where
  "has_queued_messages db s = (queue_rows db s \<noteq> [])"

definition delete_queued :: "database \<Rightarrow> string \<Rightarrow> database" where
  "delete_queued db s =
     db\<lparr>queued_messages := bt_retain (\<lambda>(k, _) _. k \<noteq> s) (queued_messages db)\<rparr>"

definition clear_queued_messages ::
  "database \<Rightarrow> lease_tokens \<Rightarrow> string \<Rightarrow> (store_error, bool \<times> database) result" where
  "clear_queued_messages db leases s =
     bindR (assert_owner db leases s) (\<lambda>_. Inr (queue_rows db s \<noteq> [], delete_queued db s))"

definition consume_queued_messages :: "database \<Rightarrow> string \<Rightarrow> int \<Rightarrow> database" where
  "consume_queued_messages db s through =
     db\<lparr>queued_messages := bt_retain (\<lambda>(k, n) _. \<not> (k = s \<and> n \<le> through)) (queued_messages db)\<rparr>"

definition remove_queued_messages ::
  "database \<Rightarrow> lease_tokens \<Rightarrow> string \<Rightarrow> int \<Rightarrow> (store_error, database) result" where
  "remove_queued_messages db leases s through =
     bindR (assert_owner db leases s) (\<lambda>_. Inr (consume_queued_messages db s through))"

section \<open>The queue as a list\<close>

locale message_queue =
  fixes entries :: "'st \<Rightarrow> string \<Rightarrow> (int \<times> 'm) list"
    and push :: "'st \<Rightarrow> string \<Rightarrow> 'm \<Rightarrow> 'st"
    and consume :: "'st \<Rightarrow> string \<Rightarrow> int \<Rightarrow> 'st"
    and wf :: "'st \<Rightarrow> bool"
  assumes numbered: "wf st \<Longrightarrow> sorted_wrt (<) (map fst (entries st s))"
    and entries_push: "wf st \<Longrightarrow>
      \<exists>n. (\<forall>k \<in> fst ` set (entries st s). k < n) \<and> entries (push st s m) s = entries st s @ [(n, m)]"
    and entries_push_other: "wf st \<Longrightarrow> t \<noteq> s \<Longrightarrow> entries (push st s m) t = entries st t"
    and entries_consume: "wf st \<Longrightarrow>
      entries (consume st s n) t = (if t = s then filter (\<lambda>(k, _). n < k) (entries st s) else entries st t)"
    and wf_push: "wf st \<Longrightarrow> wf (push st s m)"
    and wf_consume: "wf st \<Longrightarrow> wf (consume st s n)"
begin

lemma contents_push:
  "wf st \<Longrightarrow> map snd (entries (push st s m) t) = map snd (entries st t) @ (if t = s then [m] else [])"
  using entries_push[of st s m] entries_push_other[of st t s m] by auto

lemma entries_pushes:
  assumes "wf st"
  shows "\<exists>es. entries (foldl (\<lambda>st m. push st s m) st ms) s = entries st s @ es \<and> map snd es = ms
    \<and> (\<forall>k \<in> fst ` set (entries st s). \<forall>n \<in> fst ` set es. k < n)
    \<and> wf (foldl (\<lambda>st m. push st s m) st ms)"
proof (induction ms rule: rev_induct)
  case Nil
  then show ?case using assms by simp
next
  case (snoc m ms)
  let ?st = "foldl (\<lambda>st m. push st s m) st ms"
  from snoc obtain es where es: "entries ?st s = entries st s @ es" "map snd es = ms"
      "\<forall>k \<in> fst ` set (entries st s). \<forall>n \<in> fst ` set es. k < n" "wf ?st" by blast
  then obtain n where "\<forall>k \<in> fst ` set (entries st s @ es). k < n"
      "entries (push ?st s m) s = entries st s @ es @ [(n, m)]"
    using entries_push[of ?st s m] by auto
  then show ?case using es wf_push[of ?st s m] by (intro exI[of _ "es @ [(n, m)]"]) auto
qed

text \<open>What was read is consumed, what came later stays: nothing is lost and nothing delivered twice.\<close>

lemma consume_read:
  assumes "wf st" "entries st s \<noteq> []"
  shows "map snd (entries (consume (foldl (\<lambda>st m. push st s m) st ms) s (fst (last (entries st s)))) s) = ms"
proof -
  let ?st = "foldl (\<lambda>st m. push st s m) st ms" and ?n = "fst (last (entries st s))"
  obtain es where es: "entries ?st s = entries st s @ es" "map snd es = ms"
      "\<forall>k \<in> fst ` set (entries st s). \<forall>n \<in> fst ` set es. k < n" "wf ?st"
    using entries_pushes[OF assms(1)] by blast
  have "filter (\<lambda>(k, _). ?n < k) (entries st s) = []"
  proof -
    have "k \<le> ?n" if "(k, v) \<in> set (entries st s)" for k v
    proof -
      have "sorted (map fst (entries st s))" using numbered[OF assms(1), of s] by (simp add: strict_sorted_iff)
      moreover have "k \<in> set (map fst (entries st s))" using that by force
      ultimately have "k \<le> last (map fst (entries st s))" by (rule sorted_le_last)
      then show ?thesis using assms(2) by (simp add: last_map)
    qed
    then show ?thesis by (fastforce simp: filter_empty_conv)
  qed
  moreover have "filter (\<lambda>(k, _). ?n < k) es = es"
    using es(3) assms(2) last_in_set by (fastforce simp: filter_id_conv)
  ultimately show ?thesis using es entries_consume[OF es(4), of s ?n s] by simp
qed

end

section \<open>The table is a queue\<close>

definition queue_entries :: "database \<Rightarrow> string \<Rightarrow> (int \<times> queued_message) list" where
  "queue_entries db s = map (\<lambda>((_, n), m). (n, m)) (queue_rows db s)"

lemma queue_rows_retain: "queue_rows db s = bt_retain (\<lambda>(k, _) _. k = s) (queued_messages db)"
  by (auto simp: queue_rows_def bt_retain_def intro!: filter_cong)

lemma foldl_max_ge: "(n::int) \<in> set (m # ns) \<Longrightarrow> n \<le> foldl max m ns"
proof (induction ns arbitrary: m n)
  case (Cons a ns)
  have "max m a \<le> foldl max (max m a) ns" by (rule Cons.IH) simp
  then show ?case using Cons by auto
qed simp

lemma next_sequence_above: "((k, n), m) \<in> set (queue_rows db s) \<Longrightarrow> n < next_sequence db s"
proof -
  assume "((k, n), m) \<in> set (queue_rows db s)"
  then have "n \<in> set (map (\<lambda>((_, n), _). n) (queue_rows db s))" by force
  moreover obtain a as where as: "map (\<lambda>((_, n), _). n) (queue_rows db s) = a # as"
    using calculation by (cases "map (\<lambda>((_, n), _). n) (queue_rows db s)") auto
  ultimately have "n \<le> foldl max a as" by (metis foldl_max_ge)
  then show ?thesis unfolding next_sequence_def as by simp
qed

lemma queue_rows_wf: "db_wf db \<Longrightarrow> bt_wf (queue_rows db s)"
  by (auto simp: queue_rows_retain)

lemma queue_rows_key: "((k, n), m) \<in> set (queue_rows db s) \<Longrightarrow> k = s"
  by (auto simp: queue_rows_def)

lemma queue_rows_get:
  "db_wf db \<Longrightarrow> bt_get (queue_rows db s) (k, n) = (if k = s then bt_get (queued_messages db) (k, n) else None)"
  by (auto simp: queue_rows_retain bt_get_retain split: option.splits)

lemma insert_queued_wf: "db_wf db \<Longrightarrow> db_wf (insert_queued db s m)"
  by (simp add: db_wf_def insert_queued_def)

lemma consume_queued_wf: "db_wf db \<Longrightarrow> db_wf (consume_queued_messages db s n)"
  by (simp add: db_wf_def consume_queued_messages_def)

lemma queue_entries_sorted:
  assumes "db_wf db"
  shows "sorted_wrt (<) (map fst (queue_entries db s))"
proof -
  have "sorted_wrt (<) (map fst (queue_rows db s))"
    using queue_rows_wf[OF assms] by (simp add: bt_wf_def)
  then have "sorted_wrt (\<lambda>a b. fst a < fst b) (queue_rows db s)" by (simp add: sorted_wrt_map)
  then have "sorted_wrt (\<lambda>a b. snd (fst a) < snd (fst b)) (queue_rows db s)"
  proof (rule sorted_wrt_mono_rel[rotated])
    fix a b assume ab: "a \<in> set (queue_rows db s)" "b \<in> set (queue_rows db s)" "fst a < fst b"
    obtain k n v k' n' v' where r: "a = ((k, n), v)" "b = ((k', n'), v')" by (metis surj_pair)
    then show "snd (fst a) < snd (fst b)"
      using ab queue_rows_key[of k n v db s] queue_rows_key[of k' n' v' db s] by (auto simp: less_prod_def)
  qed
  then show ?thesis by (simp add: queue_entries_def sorted_wrt_map split_beta)
qed

lemma queue_rows_insert:
  assumes "db_wf db"
  shows "queue_rows (insert_queued db s m) s = queue_rows db s @ [((s, next_sequence db s), m)]"
proof (rule bt_eqI)
  let ?n = "next_sequence db s"
  show "bt_wf (queue_rows (insert_queued db s m) s)"
    using assms by (intro queue_rows_wf insert_queued_wf)
  have "fst r < (s, ?n)" if "r \<in> set (queue_rows db s)" for r
  proof -
    obtain k n v where r: "r = ((k, n), v)" by (metis surj_pair)
    then show ?thesis
      using that next_sequence_above[of k n v db s] queue_rows_key[of k n v db s] by (auto simp: less_prod_def)
  qed
  then show "bt_wf (queue_rows db s @ [((s, ?n), m)])"
    using queue_rows_wf[OF assms, of s] by (auto simp: bt_wf_def sorted_wrt_append)
  have "bt_get (queue_rows db s) (s, ?n) = None"
    using next_sequence_above by (fastforce simp: map_of_eq_None_iff)
  then show "bt_get (queue_rows (insert_queued db s m) s) k
      = bt_get (queue_rows db s @ [((s, ?n), m)]) k" for k
    using assms insert_queued_wf[OF assms, of s m]
    by (cases k) (auto simp: queue_rows_get map_add_def insert_queued_def split: option.splits)
qed

lemma queue_rows_insert_other:
  assumes "db_wf db" "t \<noteq> s"
  shows "queue_rows (insert_queued db s m) t = queue_rows db t"
proof (rule bt_eqI)
  show "bt_wf (queue_rows (insert_queued db s m) t)" "bt_wf (queue_rows db t)"
    using assms(1) by (auto intro: queue_rows_wf insert_queued_wf)
  show "bt_get (queue_rows (insert_queued db s m) t) k = bt_get (queue_rows db t) k" for k
    using assms insert_queued_wf[OF assms(1), of s m]
    by (cases k) (auto simp: queue_rows_get insert_queued_def)
qed

lemma queue_rows_consume:
  "queue_rows (consume_queued_messages db s n) t =
     (if t = s then filter (\<lambda>((_, k), _). n < k) (queue_rows db s) else queue_rows db t)"
  by (auto simp: queue_rows_def consume_queued_messages_def bt_retain_def intro!: filter_cong)

interpretation table_queue: message_queue queue_entries insert_queued consume_queued_messages db_wf
proof unfold_locales
  fix db :: database and s t m n
  assume wf: "db_wf db"
  show "sorted_wrt (<) (map fst (queue_entries db s))" using wf by (rule queue_entries_sorted)
  show "\<exists>n. (\<forall>k \<in> fst ` set (queue_entries db s). k < n) \<and> queue_entries (insert_queued db s m) s = queue_entries db s @ [(n, m)]"
    using queue_rows_insert[OF wf, of s m] next_sequence_above[of _ _ _ db s]
    by (intro exI[of _ "next_sequence db s"]) (auto simp: queue_entries_def)
  show "queue_entries (consume_queued_messages db s n) t
      = (if t = s then filter (\<lambda>(k, _). n < k) (queue_entries db s) else queue_entries db t)"
    by (simp add: queue_entries_def queue_rows_consume filter_map o_def case_prod_beta')
  show "db_wf (insert_queued db s m)" using wf by (rule insert_queued_wf)
  show "db_wf (consume_queued_messages db s n)" using wf by (rule consume_queued_wf)
next
  fix db :: database and s t :: string and m
  assume "db_wf db" "t \<noteq> s"
  then show "queue_entries (insert_queued db s m) t = queue_entries db t"
    by (simp add: queue_entries_def queue_rows_insert_other)
qed

lemma lease_columns_queue [simp]:
  "lease_columns (insert_queued db s m) t = lease_columns db t"
  "lease_columns (delete_queued db s) t = lease_columns db t"
  "lease_columns (consume_queued_messages db s n) t = lease_columns db t"
  by (simp_all add: lease_columns_def insert_queued_def delete_queued_def consume_queued_messages_def)

interpretation enqueue: session_write
  "\<lambda>db leases. state_of (enqueue_message db leases s m)" "\<lambda>_. s" for s m
  by unfold_locales (auto simp: enqueue_message_def Let_def result_simps)

interpretation clear_queue: session_write
  "\<lambda>db leases. state_of (clear_queued_messages db leases s)" "\<lambda>_. s" for s
  by unfold_locales (auto simp: clear_queued_messages_def result_simps)

interpretation remove_queue: session_write
  "\<lambda>db leases. remove_queued_messages db leases s n" "\<lambda>_. s" for s n
  by unfold_locales (auto simp: remove_queued_messages_def result_simps)

section \<open>Properties\<close>

text \<open>Queueing is a list per session: an accepted message goes to the end of its session's
  queue, its reported position is the length of the queue with it, other sessions' queues are
  untouched, and the queue is read in that order.\<close>

theorem enqueue_appends:
  assumes "db_wf db" "enqueue_message db leases s m = Inr (position, db')"
  shows "map entry_message (queued_entries db' s) = map entry_message (queued_entries db s) @ [m]
    \<and> position = length (queued_entries db' s)
    \<and> (t = s \<or> queued_entries db' t = queued_entries db t)
    \<and> sorted_wrt (<) (map entry_sequence (queued_entries db' s)) \<and> db_wf db'"
proof -
  have db': "db' = insert_queued db s m" "position = length (queue_rows db' s)"
    using assms(2) by (auto simp: enqueue_message_def Let_def result_simps)
  have read: "map entry_message (queued_entries d u) = map snd (queue_entries d u)"
      "map entry_sequence (queued_entries d u) = map fst (queue_entries d u)" for d u
    by (simp_all add: queued_entries_def queue_entries_def case_prod_beta')
  have "t = s \<or> queued_entries db' t = queued_entries db t"
    using queue_rows_insert_other[OF assms(1), of t s m] db'(1) by (cases "t = s") (simp_all add: queued_entries_def)
  then show ?thesis
    using table_queue.contents_push[OF assms(1), of s m s] table_queue.wf_push[OF assms(1), of s m]
      queue_entries_sorted[of db' s] db'
    unfolding read by (simp add: queued_entries_def)
qed

definition sample_meta :: "string \<Rightarrow> session_meta" where
  "sample_meta s =
     \<lparr>meta_revision = 1, meta_id = s, tip_id = None, workspace_dir = ''w'', created_at = 0, updated_at = 0,
      title = None, selected_profile_id = None, selected_model = None\<rparr>"

definition sample_db :: database where
  "sample_db = empty_database\<lparr>sessions := [(''s'',
     \<lparr>row_data = sample_meta ''s'', row_tip = None, revision = 1, metadata_revision = 1,
      lease_active = False, lease_expires_at = 0, lease_token = 0, turn_timer = None\<rparr>)]\<rparr>"

definition sample_message :: queued_message where
  "sample_message = \<lparr>queued_content = [TextPart ''hi''],
     queued_selection = \<lparr>selection_provider_id = ''p'', selection_model_id = ''m'', selection_options = []\<rparr>\<rparr>"

lemma sample_db_wf: "db_wf sample_db"
  by (simp add: sample_db_def db_wf_def empty_database_def table_all_def session_row_ok_def valid_id_def
      validate_message_id_def validate_id_def message_id_byte_def is_ascii_alphanumeric_def
      is_ascii_digit_def byte_def sample_meta_def bt_wf_def)

lemma sample_enqueue:
  "enqueue_message sample_db [] ''s'' sample_message
    = Inr (1, sample_db\<lparr>queued_messages := [((''s'', 0), sample_message)]\<rparr>)"
  by (simp add: enqueue_message_def assert_owner_def sample_db_def leases_get_def insert_queued_def
      next_sequence_def queue_rows_def empty_database_def)

theorem enqueue_appends_witness:
  "map entry_message (queued_entries (sample_db\<lparr>queued_messages := [((''s'', 0), sample_message)]\<rparr>) ''s'')
    = [sample_message]"
  using enqueue_appends[OF sample_db_wf sample_enqueue, of "''s''"]
  by (simp add: queued_entries_def queue_rows_def sample_db_def empty_database_def)

text \<open>Consuming what was read loses nothing and repeats nothing: when a non-empty queue is
  read, more messages are queued, and the queue is then consumed up to the last message read,
  exactly the messages queued in between remain, in order.\<close>

theorem consume_exactly_what_was_read:
  assumes "db_wf db" "queued_entries db s \<noteq> []"
  shows "map entry_message (queued_entries
      (consume_queued_messages (foldl (\<lambda>db m. insert_queued db s m) db ms) s
        (entry_sequence (last (queued_entries db s)))) s) = ms"
proof -
  have read: "map entry_message (queued_entries d u) = map snd (queue_entries d u)" for d u
    by (simp add: queued_entries_def queue_entries_def case_prod_beta')
  have ne: "queue_entries db s \<noteq> []" using assms(2) by (simp add: queued_entries_def queue_entries_def)
  have "entry_sequence (last (queued_entries db s)) = fst (last (queue_entries db s))"
    using assms(2) by (simp add: queued_entries_def queue_entries_def last_map case_prod_beta')
  then show ?thesis
    unfolding read using table_queue.consume_read[OF assms(1) ne, of ms] by simp
qed

theorem consume_exactly_what_was_read_witness:
  "map entry_message (queued_entries (consume_queued_messages
      (insert_queued (insert_queued sample_db ''s'' sample_message) ''s'' sample_message) ''s'' 0) ''s'')
    = [sample_message]"
proof -
  let ?db = "insert_queued sample_db ''s'' sample_message"
  have wf: "db_wf ?db" by (rule insert_queued_wf[OF sample_db_wf])
  have entries: "queued_entries ?db ''s'' = [\<lparr>entry_sequence = 0, entry_message = sample_message\<rparr>]"
    by (simp add: insert_queued_def queued_entries_def next_sequence_def queue_rows_def sample_db_def
        empty_database_def)
  then show ?thesis
    using consume_exactly_what_was_read[OF wf, of "''s''" "[sample_message]"] by simp
qed

end
