(* ===== verification/Message_Graph.thy ===== *)
theory Message_Graph
  imports History Queue
begin

text \<open>
  Which sessions a message belongs to (crates/kraai-persistence, message_references.rs and the
  recursive queries of sessions.rs): messages form a forest by their parents, sessions point into
  it, and branches share messages. The recursive queries are iterated until nothing new can
  appear; the bound is the number of stored messages, and the first section shows it is enough.
  A message may be changed only by a runtime that may write every session showing it.
\<close>

section \<open>Recursive queries\<close>

text \<open>\<open>WITH RECURSIVE t AS (seed UNION step)\<close>, \<open>n\<close> times.\<close>

fun cte :: "('a \<Rightarrow> 'a list) \<Rightarrow> nat \<Rightarrow> 'a list \<Rightarrow> 'a list" where
  "cte step 0 seed = seed"
| "cte step (Suc n) seed = cte step n (remdups (seed @ concat (map step seed)))"

definition step_rel :: "('a \<Rightarrow> 'a list) \<Rightarrow> ('a \<times> 'a) set" where
  "step_rel step = {(x, y). y \<in> set (step x)}"

lemma set_cte: "set (cte step n seed) = {y. \<exists>x \<in> set seed. \<exists>i \<le> n. (x, y) \<in> step_rel step ^^ i}"
proof (induction n arbitrary: seed)
  case 0
  then show ?case by auto
next
  case (Suc n)
  let ?R = "step_rel step" and ?seed = "remdups (seed @ concat (map step seed))"
  have mem: "x \<in> set ?seed \<longleftrightarrow> x \<in> set seed \<or> (\<exists>z \<in> set seed. (z, x) \<in> ?R)" for x
    by (auto simp: step_rel_def)
  have "(\<exists>x \<in> set ?seed. \<exists>i \<le> n. (x, y) \<in> ?R ^^ i) \<longleftrightarrow> (\<exists>x \<in> set seed. \<exists>i \<le> Suc n. (x, y) \<in> ?R ^^ i)" for y
  proof
    assume "\<exists>x \<in> set ?seed. \<exists>i \<le> n. (x, y) \<in> ?R ^^ i"
    then obtain x i where x: "x \<in> set ?seed" "i \<le> n" "(x, y) \<in> ?R ^^ i" by blast
    from x(1) mem consider "x \<in> set seed" | z where "z \<in> set seed" "(z, x) \<in> ?R" by blast
    then show "\<exists>x \<in> set seed. \<exists>i \<le> Suc n. (x, y) \<in> ?R ^^ i"
    proof cases
      case 1
      then show ?thesis using x by (meson le_SucI)
    next
      case 2
      then have "(z, y) \<in> ?R ^^ Suc i" using x(3) by (meson relpow_Suc_I2)
      then show ?thesis using 2 x(2) by (meson Suc_le_mono)
    qed
  next
    assume "\<exists>x \<in> set seed. \<exists>i \<le> Suc n. (x, y) \<in> ?R ^^ i"
    then obtain x i where x: "x \<in> set seed" "i \<le> Suc n" "(x, y) \<in> ?R ^^ i" by blast
    show "\<exists>x \<in> set ?seed. \<exists>i \<le> n. (x, y) \<in> ?R ^^ i"
    proof (cases i)
      case 0
      then show ?thesis using x mem by blast
    next
      case (Suc j)
      then obtain z where "(x, z) \<in> ?R" "(z, y) \<in> ?R ^^ j" using x(3) by (meson relpow_Suc_D2)
      then show ?thesis using x mem Suc by (meson Suc_le_mono)
    qed
  qed
  then show ?case by (simp add: Suc.IH)
qed

lemma cte_complete:
  assumes "finite (step_rel step)" "card (step_rel step) \<le> n"
  shows "set (cte step n seed) = (step_rel step)\<^sup>* `` set seed"
proof -
  have "(x, y) \<in> (step_rel step)\<^sup>* \<longleftrightarrow> (\<exists>i \<le> n. (x, y) \<in> step_rel step ^^ i)" for x y
    using rtrancl_finite_eq_relpow[OF assms(1)] assms(2) relpow_imp_rtrancl[of "(x, y)"]
    by (auto intro: le_trans)
  then show ?thesis by (auto simp: set_cte)
qed

section \<open>The parent graph\<close>

definition parent_of :: "database \<Rightarrow> string \<Rightarrow> string option" where
  "parent_of db k =
     Option.bind (bt_get (records db) (''message'', k)) (\<lambda>row.
     Option.bind (as_message (record_data_of row)) parent_id)"

definition ancestors :: "database \<Rightarrow> string list \<Rightarrow> string list" where
  "ancestors db seed =
     cte (\<lambda>k. case parent_of db k of None \<Rightarrow> [] | Some p \<Rightarrow> [p]) (length (message_ids db)) seed"

definition descendants :: "database \<Rightarrow> string \<Rightarrow> string list" where
  "descendants db k =
     cte (\<lambda>p. filter (\<lambda>c. parent_of db c = Some p) (message_ids db)) (length (message_ids db)) [k]"

definition session_tips :: "database \<Rightarrow> (string \<Rightarrow> bool) \<Rightarrow> string list" where
  "session_tips db p = List.map_filter (\<lambda>(s, row). if p s then row_tip row else None) (sessions db)"

definition message_referenced :: "database \<Rightarrow> string \<Rightarrow> bool" where
  "message_referenced db k = (k \<in> set (ancestors db (session_tips db (\<lambda>_. True))))"

section \<open>Owners of a message\<close>

definition shows_message :: "database \<Rightarrow> string \<Rightarrow> string option \<Rightarrow> string \<Rightarrow> session_row \<Rightarrow> bool" where
  "shows_message db k assoc s row =
     ((case row_tip row of None \<Rightarrow> False | Some t \<Rightarrow> t \<in> set (descendants db k))
      \<or> assoc = Some s
      \<or> Option.bind (bt_get (records db) (''message'', k)) record_session_id = Some s)"

definition message_sessions :: "database \<Rightarrow> string \<Rightarrow> string option \<Rightarrow> (store_error, string list) result" where
  "message_sessions db k assoc =
     mapR parse_session_id (map fst (filter (\<lambda>(s, row). shows_message db k assoc s row) (sessions db)))"

definition assert_owners :: "database \<Rightarrow> lease_tokens \<Rightarrow> string list \<Rightarrow> (store_error, unit) result" where
  "assert_owners db leases ss = foldR (\<lambda>_ s. assert_owner db leases s) () ss"

function owners_loop ::
  "database \<Rightarrow> lease_tokens \<Rightarrow> string \<Rightarrow> string option \<Rightarrow> string set \<Rightarrow> (store_error, string list) result" where
  "owners_loop db leases cursor assoc visited =
     (if cursor \<in> visited then Inl (history_cycle cursor)
      else
        bindR (case assoc of None \<Rightarrow> Inr () | Some s \<Rightarrow> assert_owner db leases s) (\<lambda>_.
        bindR (record_session db ''message'' cursor) (\<lambda>owner.
        bindR (case owner of
                 None \<Rightarrow> Inr ()
               | Some s \<Rightarrow> if owner \<noteq> assoc then assert_owner db leases s else Inr ()) (\<lambda>_.
        bindR (message_sessions db cursor assoc) (\<lambda>ss.
        bindR (assert_owners db leases ss) (\<lambda>_.
        if ss \<noteq> [] then Inr ss
        else (case parent_of db cursor of
                None \<Rightarrow> Inr ss
              | Some p \<Rightarrow> owners_loop db leases p None (insert cursor visited))))))))"
  by pat_completeness auto
termination
proof (relation "measure (\<lambda>(db, _, _, _, visited). card (set (message_ids db) - visited))", goal_cases)
  case 1
  then show ?case by simp
next
  case prems: (2 db leases cursor assoc visited)
  have "cursor \<in> set (message_ids db)"
    using prems by (auto simp: parent_of_def message_ids_def bind_eq_Some_conv dest!: map_of_SomeD)
      force
  then have "set (message_ids db) - insert cursor visited \<subset> set (message_ids db) - visited"
    using prems(1) by auto
  then show ?case by (simp add: psubset_card_mono)
qed

declare owners_loop.simps [simp del]

definition assert_message_owners ::
  "database \<Rightarrow> lease_tokens \<Rightarrow> string \<Rightarrow> string option \<Rightarrow> (store_error, string list) result" where
  "assert_message_owners db leases k assoc = owners_loop db leases k assoc {}"

definition write_message_record ::
  "database \<Rightarrow> lease_tokens \<Rightarrow> string \<Rightarrow> string \<Rightarrow> string option \<Rightarrow> record_data \<Rightarrow> (store_error, database) result" where
  "write_message_record db leases kind k assoc v =
     bindR (assert_message_owners db leases k assoc) (\<lambda>ss.
     let db = write_record db kind k assoc v;
         db = (if kind = ''message'' then clear_stream_deltas db k else db)
     in Inr (foldl (\<lambda>db s. if Some s \<noteq> assoc then bump_revision db s else db) db ss))"

definition delete_record :: "database \<Rightarrow> string \<Rightarrow> string \<Rightarrow> database" where
  "delete_record db kind k = db\<lparr>records := bt_remove (kind, k) (records db)\<rparr>"

definition delete_message_record ::
  "database \<Rightarrow> lease_tokens \<Rightarrow> string \<Rightarrow> string \<Rightarrow> (store_error, database) result" where
  "delete_message_record db leases kind k =
     (if bt_get (records db) (kind, k) = None then Inr db
      else
        bindR (record_session db kind k) (\<lambda>assoc.
        bindR (assert_message_owners db leases k assoc) (\<lambda>ss.
        let db = delete_record db kind k;
            db = (if kind = ''message'' then clear_stream_deltas db k else db)
        in Inr (foldl bump_revision db ss))))"

section \<open>Histories as paths in the parent graph\<close>

definition parents :: "database \<Rightarrow> (string \<times> string) set" where
  "parents db = {(k, p). parent_of db k = Some p}"

text \<open>The history of session \<open>s\<close> contains message \<open>k\<close>.\<close>

definition in_history :: "database \<Rightarrow> string \<Rightarrow> string \<Rightarrow> bool" where
  "in_history db s k =
     (\<exists>row t. bt_get (sessions db) s = Some row \<and> row_tip row = Some t \<and> (t, k) \<in> (parents db)\<^sup>*)"

lemma parent_of_stored: "parent_of db k = Some p \<Longrightarrow> k \<in> set (message_ids db)"
  by (force simp: parent_of_def message_ids_def bind_eq_Some_conv dest: map_of_SomeD)

lemma parents_bound: "finite (parents db)" "card (parents db) \<le> length (message_ids db)"
proof -
  let ?f = "\<lambda>k. (k, the (parent_of db k))"
  have sub: "parents db \<subseteq> ?f ` set (message_ids db)"
    using parent_of_stored by (force simp: parents_def)
  then show "finite (parents db)" by (rule finite_subset) simp
  have "card (parents db) \<le> card (?f ` set (message_ids db))" using sub by (intro card_mono) auto
  also have "\<dots> \<le> card (set (message_ids db))" by (rule card_image_le) simp
  also have "\<dots> \<le> length (message_ids db)" by (rule card_length)
  finally show "card (parents db) \<le> length (message_ids db)" .
qed

lemma set_ancestors: "set (ancestors db seed) = (parents db)\<^sup>* `` set seed"
proof -
  have "step_rel (\<lambda>k. case parent_of db k of None \<Rightarrow> [] | Some p \<Rightarrow> [p]) = parents db"
    by (auto simp: step_rel_def parents_def split: option.splits)
  then show ?thesis unfolding ancestors_def using cte_complete parents_bound by metis
qed

lemma set_descendants: "set (descendants db k) = {t. (t, k) \<in> (parents db)\<^sup>*}"
proof -
  have rel: "step_rel (\<lambda>p. filter (\<lambda>c. parent_of db c = Some p) (message_ids db)) = (parents db)\<inverse>"
    using parent_of_stored by (auto simp: step_rel_def parents_def)
  have "set (descendants db k) = ((parents db)\<inverse>)\<^sup>* `` {k}"
    unfolding descendants_def using parents_bound[of db] by (subst cte_complete) (simp_all add: rel)
  then show ?thesis by (auto simp: rtrancl_converse)
qed

lemma set_session_tips:
  "t \<in> set (session_tips db p) \<longleftrightarrow> (\<exists>s row. (s, row) \<in> set (sessions db) \<and> p s \<and> row_tip row = Some t)"
  by (force simp: session_tips_def set_map_filter split: if_splits)

lemma message_referenced_iff:
  assumes "db_wf db"
  shows "message_referenced db k \<longleftrightarrow> (\<exists>s. in_history db s k)"
proof -
  have "t \<in> set (session_tips db (\<lambda>_. True)) \<longleftrightarrow> (\<exists>s row. bt_get (sessions db) s = Some row \<and> row_tip row = Some t)" for t
  proof -
    have "t \<in> set (session_tips db (\<lambda>_. True)) \<longleftrightarrow> (\<exists>s row. (s, row) \<in> set (sessions db) \<and> row_tip row = Some t)"
      by (auto simp: set_session_tips)
    then show ?thesis using bt_get_mem[of "sessions db"] assms by blast
  qed
  then show ?thesis unfolding message_referenced_def set_ancestors in_history_def by blast
qed

lemma message_sessions_iff:
  assumes "db_wf db" "message_sessions db k assoc = Inr ss"
  shows "s \<in> set ss \<longleftrightarrow> (\<exists>row. bt_get (sessions db) s = Some row \<and> shows_message db k assoc s row)"
    "distinct ss"
proof -
  have "ss = map fst (filter (\<lambda>(s, row). shows_message db k assoc s row) (sessions db))"
    using assms(2)
    by (auto simp: message_sessions_def mapR_eq_Inr parse_session_id_iff list_all2_conv_all_nth list_eq_iff_nth_eq)
  then show "s \<in> set ss \<longleftrightarrow> (\<exists>row. bt_get (sessions db) s = Some row \<and> shows_message db k assoc s row)"
    "distinct ss"
    using bt_get_mem[of "sessions db"] bt_wf_distinct[of "sessions db"] assms(1)
    by (force simp: distinct_map_filter)+
qed

lemma assert_owners_iff: "assert_owners db leases ss = Inr () \<longleftrightarrow> (\<forall>s \<in> set ss. assert_owner db leases s = Inr ())"
  by (induction ss) (auto simp: assert_owners_def result_simps)

lemma history_shows_message:
  "in_history db s k \<Longrightarrow> \<exists>row. bt_get (sessions db) s = Some row \<and> shows_message db k assoc s row"
  by (auto simp: in_history_def shows_message_def set_descendants)

section \<open>Changing a message\<close>

lemma bumps_get:
  "distinct ss \<Longrightarrow> bt_get (sessions (foldl (\<lambda>db s. if p s then bump_revision db s else db) db ss)) t =
     map_option (\<lambda>row. row\<lparr>revision := revision row + (if t \<in> set ss \<and> p t then 1 else 0)\<rparr>) (bt_get (sessions db) t)"
proof (induction ss arbitrary: db t)
  case Nil
  then show ?case by (simp add: option.map_ident_strong)
next
  case (Cons s ss)
  show ?case
    by (cases "t = s"; cases "p s"; cases "bt_get (sessions db) t")
      (use Cons.prems in \<open>auto simp: Cons.IH bump_revision_get\<close>)
qed

lemma bumps_keep:
  "records (foldl (\<lambda>db s. if p s then bump_revision db s else db) db ss) = records db"
  "stream_deltas (foldl (\<lambda>db s. if p s then bump_revision db s else db) db ss) = stream_deltas db"
  "queued_messages (foldl (\<lambda>db s. if p s then bump_revision db s else db) db ss) = queued_messages db"
  "execution_output (foldl (\<lambda>db s. if p s then bump_revision db s else db) db ss) = execution_output db"
  "execution_sources (foldl (\<lambda>db s. if p s then bump_revision db s else db) db ss) = execution_sources db"
  "lease_columns (foldl (\<lambda>db s. if p s then bump_revision db s else db) db ss) t = lease_columns db t"
  "db_wf db \<Longrightarrow> db_wf (foldl (\<lambda>db s. if p s then bump_revision db s else db) db ss)"
  by (induction ss arbitrary: db) (auto split: if_splits)

lemma bump_all_if: "foldl bump_revision db ss = foldl (\<lambda>db s. if True then bump_revision db s else db) db ss"
  by simp

lemma clear_stream_deltas_keeps [simp]:
  "sessions (clear_stream_deltas db k) = sessions db"
  "records (clear_stream_deltas db k) = records db"
  "queued_messages (clear_stream_deltas db k) = queued_messages db"
  "execution_output (clear_stream_deltas db k) = execution_output db"
  "execution_sources (clear_stream_deltas db k) = execution_sources db"
  "lease_columns (clear_stream_deltas db k) t = lease_columns db t"
  "db_wf db \<Longrightarrow> db_wf (clear_stream_deltas db k)"
  by (simp_all add: clear_stream_deltas_def lease_columns_def db_wf_def)

text \<open>Success means every session showing the message passed the ownership check.\<close>

lemma owners_loop_first:
  assumes "db_wf db" "owners_loop db leases k assoc visited = Inr ss" "in_history db s k"
  shows "s \<in> set ss" "distinct ss" "assert_owner db leases s = Inr ()"
    "message_sessions db k assoc = Inr ss"
proof -
  have "\<exists>ss1. message_sessions db k assoc = Inr ss1 \<and> assert_owners db leases ss1 = Inr ()
      \<and> (ss1 \<noteq> [] \<longrightarrow> ss = ss1)"
    using assms(2) by (subst (asm) owners_loop.simps) (auto simp: result_simps split: if_splits)
  then obtain ss1 where ss1: "message_sessions db k assoc = Inr ss1" "assert_owners db leases ss1 = Inr ()"
      "ss1 \<noteq> [] \<longrightarrow> ss = ss1" by blast
  have "s \<in> set ss1"
    using message_sessions_iff(1)[OF assms(1) ss1(1)] history_shows_message[OF assms(3)] by blast
  then show "s \<in> set ss" "distinct ss" "assert_owner db leases s = Inr ()" "message_sessions db k assoc = Inr ss"
    using ss1 message_sessions_iff(2)[OF assms(1) ss1(1)] by (auto simp: assert_owners_iff)
qed

lemma owners_loop_associated:
  assumes "owners_loop db leases k (Some s) visited = Inr ss"
  shows "assert_owner db leases s = Inr ()"
  using assms by (subst (asm) owners_loop.simps) (auto simp: result_simps split: if_splits)

lemma owners_loop_distinct:
  "db_wf db \<Longrightarrow> owners_loop db leases k assoc visited = Inr ss \<Longrightarrow> distinct ss"
proof (induction db leases k assoc visited rule: owners_loop.induct)
  case (1 db leases k assoc visited)
  from 1(3) obtain ss1 where ss1: "k \<notin> visited" "message_sessions db k assoc = Inr ss1"
      "ss = ss1 \<or> (\<exists>p. parent_of db k = Some p \<and> ss1 = [] \<and> owners_loop db leases p None (insert k visited) = Inr ss)"
    "(case assoc of None \<Rightarrow> Inr () | Some s \<Rightarrow> assert_owner db leases s) = Inr ()"
    by (subst (asm) owners_loop.simps) (auto simp: result_simps split: if_splits option.splits)
  show ?case
  proof (cases "ss = ss1")
    case True
    then show ?thesis using message_sessions_iff(2)[OF 1(2) ss1(2)] by simp
  next
    case False
    with ss1 obtain p where "parent_of db k = Some p" "ss1 = []"
        "owners_loop db leases p None (insert k visited) = Inr ss" by blast
    moreover obtain x xa xb where "record_session db ''message'' k = Inr x"
      "(case x of None \<Rightarrow> Inr () | Some s \<Rightarrow> if x \<noteq> assoc then assert_owner db leases s else Inr ()) = Inr xa"
      "assert_owners db leases ss1 = Inr xb"
      using 1(3) ss1(1,2) by (subst (asm) owners_loop.simps) (auto simp: result_simps)
    ultimately show ?thesis using 1(1)[of "()" x xa ss1 xb p] 1(2) ss1 by auto
  qed
qed

lemma delete_record_keeps [simp]:
  "sessions (delete_record db kind k) = sessions db"
  "lease_columns (delete_record db kind k) t = lease_columns db t"
  "db_wf db \<Longrightarrow> db_wf (delete_record db kind k)"
  by (simp_all add: delete_record_def lease_columns_def db_wf_def)

lemma write_record_wf:
  assumes "db_wf db" "kind_of v = kind" "case v of MessageRecord m \<Rightarrow> message_id m = k | _ \<Rightarrow> True"
    "case session of None \<Rightarrow> True | Some s \<Rightarrow> valid_id s"
  shows "db_wf (write_record db kind k session v)"
proof -
  define owner where "owner = (case bt_get (records db) (kind, k) of
     Some row \<Rightarrow> (case record_session_id row of Some s \<Rightarrow> Some s | None \<Rightarrow> session) | None \<Rightarrow> session)"
  have "record_row_ok (kind, k) \<lparr>record_session_id = owner, record_data_of = v\<rparr>"
  proof -
    have "case owner of None \<Rightarrow> True | Some s \<Rightarrow> valid_id s"
      using assms(1,4) table_all_get[of record_row_ok "records db" "(kind, k)"]
      by (auto simp: owner_def record_row_ok_def split: option.splits)
    then show ?thesis using assms(2,3) by (cases v) (auto simp: record_row_ok_def)
  qed
  then have "db_wf (db\<lparr>records := bt_insert (kind, k) \<lparr>record_session_id = owner, record_data_of = v\<rparr> (records db)\<rparr>)"
    using assms(1) by (simp add: db_wf_def)
  then show ?thesis
    by (auto simp: write_record_def Let_def owner_def[symmetric] split: option.splits)
qed

lemma write_message_record_iff:
  "write_message_record db leases kind k assoc v = Inr db' \<longleftrightarrow>
     (\<exists>ss. assert_message_owners db leases k assoc = Inr ss
        \<and> db' = foldl (\<lambda>db s. if Some s \<noteq> assoc then bump_revision db s else db)
            (if kind = ''message'' then clear_stream_deltas (write_record db kind k assoc v) k
             else write_record db kind k assoc v) ss)"
  by (auto simp: write_message_record_def Let_def result_simps)

lemma delete_message_record_iff:
  "delete_message_record db leases kind k = Inr db' \<longleftrightarrow>
     (if bt_get (records db) (kind, k) = None then db' = db
      else (\<exists>assoc ss. record_session db kind k = Inr assoc \<and> assert_message_owners db leases k assoc = Inr ss
        \<and> db' = foldl (\<lambda>db s. if True then bump_revision db s else db)
            (if kind = ''message'' then clear_stream_deltas (delete_record db kind k) k
             else delete_record db kind k) ss))"
  by (auto simp: delete_message_record_def Let_def result_simps)

lemma write_message_record_wf:
  assumes "db_wf db" "write_message_record db leases kind k assoc v = Inr db'" "kind_of v = kind"
    "case v of MessageRecord m \<Rightarrow> message_id m = k | _ \<Rightarrow> True" "case assoc of None \<Rightarrow> True | Some s \<Rightarrow> valid_id s"
  shows "db_wf db'"
  using assms(2) write_record_wf[OF assms(1,3,4,5)] by (auto simp: write_message_record_iff intro!: bumps_keep(7))

lemma delete_message_record_wf:
  assumes "db_wf db" "delete_message_record db leases kind k = Inr db'"
  shows "db_wf db'"
  using assms bumps_keep(7)[where p = "\<lambda>_. True"]
  by (auto simp: delete_message_record_iff split: if_splits)

lemma lease_columns_message_record:
  "write_message_record db leases kind k assoc v = Inr db' \<Longrightarrow> lease_columns db' t = lease_columns db t"
  "delete_message_record db leases kind k = Inr db' \<Longrightarrow> lease_columns db' t = lease_columns db t"
  using bumps_keep(6)[where p = "\<lambda>_. True"]
  by (auto simp: write_message_record_iff delete_message_record_iff bumps_keep(6) split: if_splits)

interpretation message_record: session_write
  "\<lambda>db leases. write_message_record db leases kind k (Some s) v" "\<lambda>_. s" for kind k s v
  by unfold_locales
    (auto simp: write_message_record_iff assert_message_owners_def bumps_keep(6) dest: owners_loop_associated)

section \<open>Properties\<close>

text \<open>C19. A message, or its compaction checkpoint, changes only with the consent of every history
  it appears in: when a write or a deletion of it succeeds, then every session whose history
  contains the message, through however many branches, passed the ownership check for this
  runtime, and the revision of that session moved by exactly one, so that its observers notice. This is
  about writes and deletions of the record; deltas streamed into a message are checked against the
  record's own session only.\<close>

theorem message_change_fenced:
  assumes "db_wf db" "in_history db s k"
    and "write_message_record db leases kind k assoc v = Inr db'
      \<or> bt_get (records db) (kind, k) \<noteq> None \<and> delete_message_record db leases kind k = Inr db'"
  shows "assert_owner db leases s = Inr ()
    \<and> (\<exists>row. bt_get (sessions db) s = Some row
         \<and> bt_get (sessions db') s = Some (row\<lparr>revision := revision row + 1\<rparr>))"
proof -
  obtain row where row: "bt_get (sessions db) s = Some row" using assms(2) by (auto simp: in_history_def)
  from assms(3) show ?thesis
  proof
    assume w: "write_message_record db leases kind k assoc v = Inr db'"
    then obtain ss where ss: "assert_message_owners db leases k assoc = Inr ss"
        "db' = foldl (\<lambda>db s. if Some s \<noteq> assoc then bump_revision db s else db)
            (if kind = ''message'' then clear_stream_deltas (write_record db kind k assoc v) k
             else write_record db kind k assoc v) ss"
      unfolding write_message_record_iff by blast
    have own: "s \<in> set ss" "distinct ss" "assert_owner db leases s = Inr ()"
      using owners_loop_first[OF assms(1) _ assms(2)] ss(1) unfolding assert_message_owners_def by blast+
    have "bt_get (sessions db') s = Some (row\<lparr>revision := revision row + 1\<rparr>)"
      using own row unfolding ss(2) bumps_get[OF own(2)]
      by (cases assoc) (auto simp: write_record_sessions bump_revision_get)
    then show ?thesis using own row by simp
  next
    assume d: "bt_get (records db) (kind, k) \<noteq> None \<and> delete_message_record db leases kind k = Inr db'"
    then obtain assoc ss where ss: "assert_message_owners db leases k assoc = Inr ss"
        "db' = foldl (\<lambda>db s. if True then bump_revision db s else db)
            (if kind = ''message'' then clear_stream_deltas (delete_record db kind k) k
             else delete_record db kind k) ss"
      unfolding delete_message_record_iff by auto
    have own: "s \<in> set ss" "distinct ss" "assert_owner db leases s = Inr ()"
      using owners_loop_first[OF assms(1) _ assms(2)] ss(1) unfolding assert_message_owners_def by blast+
    have "bt_get (sessions db') s = Some (row\<lparr>revision := revision row + 1\<rparr>)"
      using own row unfolding ss(2) bumps_get[where p = "\<lambda>_. True", OF own(2)] by simp
    then show ?thesis using own row by simp
  qed
qed

text \<open>A session \<open>s\<close> whose history is \<open>n\<close> after \<open>m\<close>.\<close>

definition graph_db :: database where
  "graph_db = empty_database\<lparr>
     sessions := [(''s'', \<lparr>row_data = (sample_meta ''s'')\<lparr>tip_id := Some ''n''\<rparr>, row_tip = Some ''n'', revision = 1,
        metadata_revision = 1, lease_active = False, lease_expires_at = 0, lease_token = 0, turn_timer = None\<rparr>)],
     records := [((''message'', ''m''), \<lparr>record_session_id = Some ''s'', record_data_of = MessageRecord sample_stream\<rparr>),
       ((''message'', ''n''), \<lparr>record_session_id = Some ''s'', record_data_of =
          MessageRecord (sample_stream\<lparr>message_id := ''n'', parent_id := Some ''m''\<rparr>)\<rparr>)]\<rparr>"

lemma graph_db_wf: "db_wf graph_db"
  by (simp add: graph_db_def empty_database_def db_wf_def bt_wf_def table_all_def session_row_ok_def
      valid_id_s record_row_ok_def sample_stream_def sample_meta_def)

lemma graph_db_history: "in_history graph_db ''s'' ''m''"
proof -
  have "parent_of graph_db ''n'' = Some ''m''"
    by (simp add: parent_of_def graph_db_def sample_stream_def)
  then have "(''n'', ''m'') \<in> (parents graph_db)\<^sup>*" by (simp add: parents_def r_into_rtrancl)
  then show ?thesis by (simp add: in_history_def graph_db_def)
qed

lemma graph_db_owners: "assert_message_owners graph_db [] ''m'' None = Inr [''s'']"
  by (simp add: assert_message_owners_def owners_loop.simps record_session_def graph_db_def empty_database_def
      assert_owner_def leases_get_def message_sessions_def shows_message_def valid_id_s assert_owners_def)

theorem message_change_fenced_witness:
  "\<exists>db' row'. write_message_record graph_db [] ''message'' ''m'' None (MessageRecord sample_stream) = Inr db'
     \<and> bt_get (sessions db') ''s'' = Some row' \<and> revision row' = 2"
proof -
  obtain db' where w: "write_message_record graph_db [] ''message'' ''m'' None (MessageRecord sample_stream) = Inr db'"
    using graph_db_owners by (auto simp: write_message_record_iff)
  from message_change_fenced[OF graph_db_wf graph_db_history, of "[]" "''message''" None "MessageRecord sample_stream" db'] w
  have "\<exists>row. bt_get (sessions graph_db) ''s'' = Some row
      \<and> bt_get (sessions db') ''s'' = Some (row\<lparr>revision := revision row + 1\<rparr>)" by blast
  then show ?thesis using w by (auto simp: graph_db_def)
qed

end
