(* ===== verification/Context_Store.thy ===== *)
theory Context_Store
  imports Message_Graph
begin

text \<open>
  The per-session documents of the store (crates/kraai-persistence, context.rs, compaction.rs and
  usage.rs): the log of context events with its file and instruction snapshots, compaction
  checkpoints and request usage. Event identifiers are generated outside and are an argument.
\<close>

section \<open>The context document\<close>

fun closed_path :: "context_state_mutation \<Rightarrow> string option" where
  "closed_path (UnpinFile path _) = Some path"
| "closed_path (PinFile _ _) = None"

definition push_event :: "context_state_document \<Rightarrow> context_state_event \<Rightarrow> context_state_document" where
  "push_event doc event =
     (let closed = set (List.map_filter closed_path (mutations event))
      in doc\<lparr>snapshots := filter (\<lambda>snapshot. snapshot_path snapshot \<notin> closed) (snapshots doc),
             events := events doc @ [event]\<rparr>)"

definition context_load :: "database \<Rightarrow> string \<Rightarrow> (store_error, context_state_document) result" where
  "context_load db s =
     bindR (read_record as_context db ''context'' s) (\<lambda>found.
     Inr (case found of None \<Rightarrow> empty_document | Some doc \<Rightarrow> doc))"

text \<open>Two commands of one execution clash when they share the sequence number or the invocation.\<close>

fun same_effect :: "context_state_event_source \<Rightarrow> context_state_event_source \<Rightarrow> bool" where
  "same_effect (CommandSource e n i _) (CommandSource e' n' i' _) = (e' = e \<and> (n' = n \<or> i' = i))"
| "same_effect _ _ = False"

definition append_event ::
  "database \<Rightarrow> lease_tokens \<Rightarrow> string \<Rightarrow> string \<Rightarrow> context_state_event_source \<Rightarrow> context_state_mutation list
     \<Rightarrow> (store_error, context_state_event \<times> database) result" where
  "append_event db leases fresh s source ms =
     bindR (ensure (ms \<noteq> []) (Report ''Context state events require at least one mutation'')) (\<lambda>_.
     bindR (assert_owner db leases s) (\<lambda>_.
     bindR (context_load db s) (\<lambda>doc.
     bindR (case source of
              CommandSource execution _ invocation _ \<Rightarrow>
                ensure (\<not> list_ex (\<lambda>event. same_effect source (event_source event)) (events doc))
                  (Report (''Context state effect '' @ invocation @ '' was already persisted for execution '' @ execution))
            | RuntimeSource _ \<Rightarrow> Inr ()) (\<lambda>_.
     let event = \<lparr>event_id = fresh, event_source = source, mutations = ms\<rparr>
     in Inr (event, write_record db ''context'' s (Some s) (ContextRecord (push_event doc event)))))))"

definition append_command ::
  "database \<Rightarrow> lease_tokens \<Rightarrow> string \<Rightarrow> string \<Rightarrow> string \<Rightarrow> nat \<Rightarrow> string \<Rightarrow> string \<Rightarrow> context_state_mutation list
     \<Rightarrow> (store_error, context_state_event \<times> database) result" where
  "append_command db leases fresh s execution sequence invocation command ms =
     append_event db leases fresh s (CommandSource execution sequence invocation command) ms"

definition append_runtime ::
  "database \<Rightarrow> lease_tokens \<Rightarrow> string \<Rightarrow> string \<Rightarrow> string \<Rightarrow> context_state_mutation list
     \<Rightarrow> (store_error, context_state_event \<times> database) result" where
  "append_runtime db leases fresh s component ms = append_event db leases fresh s (RuntimeSource component) ms"

definition check_anchor :: "unit \<Rightarrow> file_context_snapshot \<Rightarrow> (store_error, unit) result" where
  "check_anchor _ snapshot =
     (case id_try_new validate_message_id (anchor snapshot) of Inl e \<Rightarrow> Inl (Report e) | Inr _ \<Rightarrow> Inr ())"

definition save_snapshots ::
  "database \<Rightarrow> lease_tokens \<Rightarrow> string \<Rightarrow> string \<Rightarrow> string option \<Rightarrow> file_context_snapshot list
     \<Rightarrow> context_state_mutation list \<Rightarrow> (store_error, database) result" where
  "save_snapshots db leases fresh s through snaps removals =
     bindR (assert_owner db leases s) (\<lambda>_.
     bindR (context_load db s) (\<lambda>doc.
     bindR (ensure ((if events doc = [] then None else Some (event_id (last (events doc)))) = through)
              (Report ''File context changed while snapshots were being refreshed'')) (\<lambda>_.
     if snapshots doc = snaps \<and> removals = [] then Inr db
     else
       bindR (foldR check_anchor () snaps) (\<lambda>_.
       let doc = doc\<lparr>snapshots := snaps\<rparr>;
           doc = (if removals = [] then doc
                  else push_event doc \<lparr>event_id = fresh, event_source = RuntimeSource ''file-context-refresh'',
                         mutations = removals\<rparr>)
       in Inr (write_record db ''context'' s (Some s) (ContextRecord doc))))))"

definition save_instructions ::
  "database \<Rightarrow> lease_tokens \<Rightarrow> string \<Rightarrow> instruction_snapshot list \<Rightarrow> (store_error, database) result" where
  "save_instructions db leases s new =
     bindR (assert_owner db leases s) (\<lambda>_.
     bindR (context_load db s) (\<lambda>doc.
     if instructions doc = new then Inr db
     else Inr (write_record db ''context'' s (Some s) (ContextRecord (doc\<lparr>instructions := new\<rparr>)))))"

definition context_delete :: "database \<Rightarrow> lease_tokens \<Rightarrow> string \<Rightarrow> (store_error, database) result" where
  "context_delete db leases s =
     bindR (assert_owner db leases s) (\<lambda>_. Inr (bump_revision (delete_record db ''context'' s) s))"

section \<open>Compaction checkpoints\<close>

fun is_compaction :: "conversation_item \<Rightarrow> bool" where
  "is_compaction (Compaction _ _) = True"
| "is_compaction _ = False"

definition compatible_with :: "compaction_checkpoint \<Rightarrow> string \<Rightarrow> string \<Rightarrow> bool" where
  "compatible_with c provider model =
     (\<not> list_ex is_compaction (replacement c)
      \<or> checkpoint_provider_id c = provider \<and> checkpoint_model_id c = model)"

definition check_message_id :: "unit \<Rightarrow> string \<Rightarrow> (store_error, unit) result" where
  "check_message_id _ k =
     (case id_try_new validate_message_id k of Inl e \<Rightarrow> Inl (Report e) | Inr _ \<Rightarrow> Inr ())"

definition checkpoint_validate :: "compaction_checkpoint \<Rightarrow> (store_error, unit) result" where
  "checkpoint_validate c =
     bindR (check_message_id () (covered_through c)) (\<lambda>_.
     bindR (foldR check_message_id () (superseded_usage c)) (\<lambda>_.
     bindR (case previous_boundary c of
              None \<Rightarrow> Inr ()
            | Some previous \<Rightarrow>
                bindR (check_message_id () previous) (\<lambda>_.
                ensure (previous \<noteq> covered_through c) (Report ''Compaction checkpoint cannot reference itself''))) (\<lambda>_.
     bindR (ensure (prompt_version c = 1) (Report ''Unsupported compaction prompt version'')) (\<lambda>_.
     ensure (replacement c \<noteq> []) (Report ''Empty compaction replacement'')))))"

definition checkpoint_get :: "database \<Rightarrow> string \<Rightarrow> (store_error, compaction_checkpoint option) result" where
  "checkpoint_get db boundary =
     bindR (read_record as_compaction db ''compaction'' boundary) (\<lambda>found.
     case found of
       None \<Rightarrow> Inr None
     | Some c \<Rightarrow> bindR (checkpoint_validate c) (\<lambda>_. Inr (Some c)))"

definition collect_checkpoint ::
  "string \<Rightarrow> string \<Rightarrow> (string, compaction_checkpoint) btree \<Rightarrow> record_row
     \<Rightarrow> (store_error, (string, compaction_checkpoint) btree) result" where
  "collect_checkpoint provider model found row =
     bindR (ok_or (as_compaction (record_data_of row)) StoredData) (\<lambda>c.
     bindR (checkpoint_validate c) (\<lambda>_.
     Inr (if compatible_with c provider model then bt_insert (covered_through c) c found else found)))"

definition compatible_checkpoints ::
  "database \<Rightarrow> string list \<Rightarrow> string \<Rightarrow> string \<Rightarrow> (store_error, (string, compaction_checkpoint) btree) result" where
  "compatible_checkpoints db boundaries provider model =
     foldR (collect_checkpoint provider model) []
       (map snd (filter (\<lambda>((kind, k), _). kind = ''compaction'' \<and> k \<in> set boundaries) (records db)))"

definition checkpoint_save ::
  "database \<Rightarrow> lease_tokens \<Rightarrow> compaction_checkpoint \<Rightarrow> (store_error, database) result" where
  "checkpoint_save db leases c =
     bindR (checkpoint_validate c) (\<lambda>_.
     bindR (record_session db ''message'' (covered_through c)) (\<lambda>session.
     write_message_record db leases ''compaction'' (covered_through c) session (CompactionRecord c)))"

definition checkpoint_delete :: "database \<Rightarrow> lease_tokens \<Rightarrow> string \<Rightarrow> (store_error, database) result" where
  "checkpoint_delete db leases boundary = delete_message_record db leases ''compaction'' boundary"

section \<open>Request usage\<close>

definition usage_save ::
  "database \<Rightarrow> lease_tokens \<Rightarrow> string \<Rightarrow> request_usage \<Rightarrow> (store_error, database) result" where
  "usage_save db leases s request =
     bindR (assert_owner db leases s) (\<lambda>_.
     Inr (write_record db ''usage'' (usage_message_id request) (Some s) (UsageRecord request)))"

definition usage_delete :: "database \<Rightarrow> lease_tokens \<Rightarrow> string \<Rightarrow> (store_error, database) result" where
  "usage_delete db leases s =
     bindR (assert_owner db leases s) (\<lambda>_.
     Inr (bump_revision (db\<lparr>records := bt_retain
       (\<lambda>(kind, _) row. \<not> (kind = ''usage'' \<and> record_session_id row = Some s)) (records db)\<rparr>) s))"

definition usage_load :: "database \<Rightarrow> string \<Rightarrow> (store_error, (string, request_usage) btree) result" where
  "usage_load db s =
     bindR (list_records as_usage db ''usage'' (Some s)) (\<lambda>requests.
     Inr (bt_of_list (map (\<lambda>r. (usage_message_id r, r)) requests)))"

section \<open>The event log\<close>

datatype context_op =
  AppendCommand string string string nat string string "context_state_mutation list"
| AppendRuntime string string string "context_state_mutation list"
| SaveSnapshots string string "string option" "file_context_snapshot list" "context_state_mutation list"
| SaveInstructions string "instruction_snapshot list"

fun context_apply :: "lease_tokens \<Rightarrow> context_op \<Rightarrow> database \<Rightarrow> (store_error, database) result" where
  "context_apply leases (AppendCommand fresh s e n i c ms) db = state_of (append_command db leases fresh s e n i c ms)"
| "context_apply leases (AppendRuntime fresh s c ms) db = state_of (append_runtime db leases fresh s c ms)"
| "context_apply leases (SaveSnapshots fresh s through snaps removals) db =
     save_snapshots db leases fresh s through snaps removals"
| "context_apply leases (SaveInstructions s new) db = save_instructions db leases s new"

text \<open>A document changes or is deleted. A failed operation is rolled back; each comes with the leases of
  the runtime that issues it. The run gives the operations that succeeded, and the database.\<close>

datatype context_change = ChangeDocument context_op | DeleteDocument string

fun context_change_apply :: "lease_tokens \<Rightarrow> context_change \<Rightarrow> database \<Rightarrow> (store_error, database) result" where
  "context_change_apply leases (ChangeDocument c) db = context_apply leases c db"
| "context_change_apply leases (DeleteDocument s) db = context_delete db leases s"

fun context_run :: "(lease_tokens \<times> context_change) list \<Rightarrow> database \<Rightarrow> context_change list \<times> database" where
  "context_run [] db = ([], db)"
| "context_run ((leases, c) # ops) db =
     (case context_change_apply leases c db of
        Inl _ \<Rightarrow> context_run ops db
      | Inr db' \<Rightarrow> (case context_run ops db' of (accepted, db'') \<Rightarrow> (c # accepted, db'')))"

definition effects_once :: "context_state_document \<Rightarrow> bool" where
  "effects_once doc = sorted_wrt (\<lambda>a b. \<not> same_effect (event_source b) (event_source a)) (events doc)"

text \<open>What an operation that succeeds means for the log of session \<open>s\<close>: it appends the event it was
  called with, a refresh with removals appends one that says so, and a deletion empties the log.\<close>

definition log_append :: "string \<Rightarrow> context_state_event list \<Rightarrow> string \<Rightarrow> string \<Rightarrow> context_state_event_source
    \<Rightarrow> context_state_mutation list \<Rightarrow> context_state_event list" where
  "log_append s evs t fresh source ms =
     (if t = s then evs @ [\<lparr>event_id = fresh, event_source = source, mutations = ms\<rparr>] else evs)"

fun log_step :: "string \<Rightarrow> context_state_event list \<Rightarrow> context_change \<Rightarrow> context_state_event list" where
  "log_step s evs (ChangeDocument (AppendCommand fresh t e n i cmd ms)) =
     log_append s evs t fresh (CommandSource e n i cmd) ms"
| "log_step s evs (ChangeDocument (AppendRuntime fresh t component ms)) =
     log_append s evs t fresh (RuntimeSource component) ms"
| "log_step s evs (ChangeDocument (SaveSnapshots fresh t _ _ removals)) =
     (if removals = [] then evs else log_append s evs t fresh (RuntimeSource ''file-context-refresh'') removals)"
| "log_step s evs (ChangeDocument (SaveInstructions _ _)) = evs"
| "log_step s evs (DeleteDocument t) = (if t = s then [] else evs)"

lemma push_event_events [simp]: "events (push_event doc e) = events doc @ [e]"
  by (simp add: push_event_def Let_def)

lemma effects_once_push:
  assumes "effects_once doc" "\<not> list_ex (\<lambda>old. same_effect source (event_source old)) (events doc)"
  shows "effects_once (push_event doc \<lparr>event_id = fresh, event_source = source, mutations = ms\<rparr>)"
  using assms by (auto simp: effects_once_def sorted_wrt_append list_ex_iff)

lemma effects_once_other [simp]:
  "effects_once (doc\<lparr>snapshots := snaps\<rparr>) = effects_once doc"
  "effects_once (doc\<lparr>instructions := new\<rparr>) = effects_once doc"
  by (simp_all add: effects_once_def)

lemma context_load_written:
  "context_load (write_record db ''context'' s (Some s) (ContextRecord doc)) t =
     (if t = s then Inr doc else context_load db t)"
  by (auto simp: context_load_def read_record_def write_record_records)

lemma context_load_deleted:
  assumes "bt_wf (records db)"
  shows "context_load (bump_revision (delete_record db ''context'' s) s) t =
     (if t = s then Inr empty_document else context_load db t)"
  using assms by (auto simp: context_load_def read_record_def delete_record_def)

lemma runtime_no_effect [simp]: "\<not> same_effect (RuntimeSource c) x"
  by simp

lemma context_apply_logs:
  assumes "context_change_apply leases c db = Inr db'" "context_load db s = Inr doc" "bt_wf (records db)"
  shows "\<exists>doc'. context_load db' s = Inr doc' \<and> events doc' = log_step s (events doc) c
    \<and> (effects_once doc \<longrightarrow> effects_once doc')"
proof (cases c)
  case (DeleteDocument t)
  then show ?thesis
    using assms by (auto simp: context_delete_def result_simps context_load_deleted empty_document_def effects_once_def)
next
  case (ChangeDocument x)
  show ?thesis
  proof (cases x)
    case (AppendCommand fresh t e n i cmd ms)
    then show ?thesis
      using assms ChangeDocument
      by (auto simp: append_command_def append_event_def Let_def result_simps context_load_written log_append_def
          intro: effects_once_push)
  next
    case (AppendRuntime fresh t cmp ms)
    then show ?thesis
      using assms ChangeDocument
      by (auto simp: append_runtime_def append_event_def Let_def result_simps context_load_written log_append_def list_ex_iff
          intro!: effects_once_push)
  next
    case (SaveSnapshots fresh t through snaps removals)
    then show ?thesis
      using assms ChangeDocument
      by (auto simp: save_snapshots_def Let_def result_simps context_load_written log_append_def list_ex_iff split: if_splits
          intro!: effects_once_push)
  next
    case (SaveInstructions t new)
    then show ?thesis
      using assms ChangeDocument
      by (auto simp: save_instructions_def result_simps context_load_written split: if_splits)
  qed
qed

lemma context_change_wf:
  assumes "context_change_apply leases c db = Inr db'" "bt_wf (records db)"
  shows "bt_wf (records db')"
proof (cases c)
  case (ChangeDocument x)
  then show ?thesis
    using assms
    by (cases x) (auto simp: append_command_def append_runtime_def append_event_def save_snapshots_def
        save_instructions_def Let_def result_simps write_record_records split: if_splits)
qed (use assms in \<open>auto simp: context_delete_def delete_record_def result_simps\<close>)

section \<open>Contracts\<close>

interpretation context_event: session_write
  "\<lambda>db leases. state_of (append_event db leases fresh s source ms)" "\<lambda>_. s" for fresh s source ms
  by unfold_locales (auto simp: append_event_def Let_def result_simps)

interpretation snapshot_write: session_write
  "\<lambda>db leases. save_snapshots db leases fresh s through snaps removals" "\<lambda>_. s" for fresh s through snaps removals
  by unfold_locales (auto simp: save_snapshots_def Let_def result_simps split: if_splits)

interpretation instruction_write: session_write
  "\<lambda>db leases. save_instructions db leases s new" "\<lambda>_. s" for s new
  by unfold_locales (auto simp: save_instructions_def result_simps split: if_splits)

interpretation context_removal: session_write "\<lambda>db leases. context_delete db leases s" "\<lambda>_. s" for s
  by unfold_locales (auto simp: context_delete_def result_simps)

interpretation usage_write: session_write "\<lambda>db leases. usage_save db leases s r" "\<lambda>_. s" for s r
  by unfold_locales (auto simp: usage_save_def result_simps)

lemma lease_columns_retained [simp]: "lease_columns (db\<lparr>records := rs\<rparr>) t = lease_columns db t"
  by (simp add: lease_columns_def)

interpretation usage_removal: session_write "\<lambda>db leases. usage_delete db leases s" "\<lambda>_. s" for s
  by unfold_locales (auto simp: usage_delete_def result_simps)

section \<open>Looking up checkpoints\<close>

text \<open>Checkpoints are stored under the message they cover the conversation through.\<close>

definition checkpoints_keyed :: "database \<Rightarrow> bool" where
  "checkpoints_keyed db =
     table_all (\<lambda>(kind, k) row. case record_data_of row of
       CompactionRecord c \<Rightarrow> kind = ''compaction'' \<and> covered_through c = k | _ \<Rightarrow> kind \<noteq> ''compaction'') (records db)"

lemma collect_checkpoints:
  assumes "foldR (collect_checkpoint provider model) found rows = Inr found'"
    and "distinct (List.map_filter (\<lambda>row. map_option covered_through (as_compaction (record_data_of row))) rows)"
  shows "bt_get found' k = Some c \<longleftrightarrow>
    (\<exists>row \<in> set rows. as_compaction (record_data_of row) = Some c \<and> covered_through c = k \<and> compatible_with c provider model)
    \<or> bt_get found k = Some c
      \<and> (\<forall>row \<in> set rows. \<forall>c'. as_compaction (record_data_of row) = Some c' \<longrightarrow> covered_through c' = k
           \<longrightarrow> \<not> compatible_with c' provider model)"
  using assms
proof (induction rows arbitrary: found)
  case Nil
  then show ?case by simp
next
  case (Cons row rows)
  obtain a where a: "as_compaction (record_data_of row) = Some a"
    and rest: "foldR (collect_checkpoint provider model)
      (if compatible_with a provider model then bt_insert (covered_through a) a found else found) rows = Inr found'"
  proof -
    obtain mid where "collect_checkpoint provider model found row = Inr mid"
        "foldR (collect_checkpoint provider model) mid rows = Inr found'"
      using Cons.prems(1) by (auto simp: result_simps)
    then show ?thesis using that by (auto simp: collect_checkpoint_def[of _ _ found row] result_simps)
  qed
  have d: "distinct (List.map_filter (\<lambda>row. map_option covered_through (as_compaction (record_data_of row))) rows)"
      "\<And>r c'. r \<in> set rows \<Longrightarrow> as_compaction (record_data_of r) = Some c' \<Longrightarrow> covered_through c' \<noteq> covered_through a"
    using Cons.prems(2) a by (auto simp: List.map_filter_simps set_map_filter)
  show ?case
    using Cons.IH[OF rest d(1)] a d(2) by (cases "covered_through a = k") (auto split: if_splits)
qed

lemma map_filter_snd:
  "(\<And>r. r \<in> set rs \<Longrightarrow> f (snd r) = Some (g r)) \<Longrightarrow> List.map_filter f (map snd rs) = map g rs"
  by (induction rs) (auto simp: List.map_filter_simps)

lemma keyed_rows:
  fixes bs :: "string list"
  assumes "db_wf db" "checkpoints_keyed db"
  defines "rows \<equiv> map snd (filter (\<lambda>((kind, k), _). kind = ''compaction'' \<and> k \<in> set bs) (records db))"
  shows "distinct (List.map_filter (\<lambda>row. map_option covered_through (as_compaction (record_data_of row))) rows)"
    "row \<in> set rows \<and> as_compaction (record_data_of row) = Some c \<longleftrightarrow>
       covered_through c \<in> set bs \<and> bt_get (records db) (''compaction'', covered_through c) = Some row
       \<and> record_data_of row = CompactionRecord c"
proof -
  let ?rs = "filter (\<lambda>((kind, k), _). kind = ''compaction'' \<and> k \<in> set bs) (records db)"
  have keyed: "map_option covered_through (as_compaction (record_data_of (snd r))) = Some (snd (fst r))" if "r \<in> set ?rs" for r
  proof -
    obtain kind k row where r: "r = ((kind, k), row)" by (metis surj_pair)
    then show ?thesis
      using that assms(2) by (cases "record_data_of row") (auto simp: checkpoints_keyed_def table_all_def list_all_iff)
  qed
  have eq: "List.map_filter (\<lambda>row. map_option covered_through (as_compaction (record_data_of row))) rows = map (snd \<circ> fst) ?rs"
    unfolding rows_def using keyed by (intro map_filter_snd) simp
  have "distinct (map fst (records db))" using assms(1) bt_wf_distinct by blast
  then have "distinct (map fst ?rs)" by (simp add: distinct_map_filter)
  moreover have "inj_on snd (set (map fst ?rs))" by (auto simp: inj_on_def)
  ultimately have "distinct (map snd (map fst ?rs))" by (simp only: distinct_map)
  then show "distinct (List.map_filter (\<lambda>row. map_option covered_through (as_compaction (record_data_of row))) rows)"
    unfolding eq by (simp add: comp_def)
  have mem: "bt_get (records db) key = Some row \<longleftrightarrow> (key, row) \<in> set (records db)" for key
    using bt_get_mem[of "records db"] assms(1) by blast
  have "as_compaction (record_data_of row) = Some c \<longleftrightarrow> record_data_of row = CompactionRecord c"
    by (cases "record_data_of row") auto
  moreover have "covered_through c = k" if "((''compaction'', k), row) \<in> set (records db)" "record_data_of row = CompactionRecord c" for k
    using that assms(2) by (auto simp: checkpoints_keyed_def table_all_def list_all_iff)
  ultimately show "row \<in> set rows \<and> as_compaction (record_data_of row) = Some c \<longleftrightarrow>
       covered_through c \<in> set bs \<and> bt_get (records db) (''compaction'', covered_through c) = Some row
       \<and> record_data_of row = CompactionRecord c"
  proof -
    assume iff: "as_compaction (record_data_of row) = Some c \<longleftrightarrow> record_data_of row = CompactionRecord c"
      and cov: "\<And>k. ((''compaction'', k), row) \<in> set (records db) \<Longrightarrow> record_data_of row = CompactionRecord c \<Longrightarrow> covered_through c = k"
    have "row \<in> set rows \<longleftrightarrow> (\<exists>k. k \<in> set bs \<and> ((''compaction'', k), row) \<in> set (records db))"
      unfolding rows_def by force
    then show ?thesis unfolding mem iff using cov by blast
  qed
qed

section \<open>Properties\<close>

text \<open>C29. The context log holds what happened to it, and every command effect once. Whatever sequence
  of operations runs on the documents, by whatever runtimes and with failing ones rolled back, the
  log of a session is what it was, followed by the event of every operation on it that succeeded, in
  order and as it was called; it starts anew where the document was deleted, and is otherwise never
  changed. And if no two of its events were effects of one execution with the same sequence number
  or invocation, none are afterwards.\<close>

theorem context_log_append_only:
  assumes "bt_wf (records db)" "context_load db s = Inr doc" "context_run ops db = (accepted, db')"
  shows "\<exists>doc'. context_load db' s = Inr doc' \<and> events doc' = foldl (log_step s) (events doc) accepted
    \<and> (effects_once doc \<longrightarrow> effects_once doc')"
  using assms
proof (induction ops arbitrary: db doc accepted)
  case (Cons lc ops)
  obtain leases c where lc: "lc = (leases, c)" by (cases lc)
  show ?case
  proof (cases "context_change_apply leases c db")
    case (Inl e)
    then show ?thesis using Cons.IH[OF Cons.prems(1,2)] Cons.prems(3) lc by simp
  next
    case (Inr mid)
    then obtain later where later: "context_run ops mid = (later, db')" "accepted = c # later"
      using Cons.prems(3) lc by (auto split: prod.splits)
    obtain doc1 where doc1: "context_load mid s = Inr doc1" "events doc1 = log_step s (events doc) c"
        "effects_once doc \<longrightarrow> effects_once doc1"
      using context_apply_logs[OF Inr Cons.prems(2,1)] by blast
    from Cons.IH[OF context_change_wf[OF Inr Cons.prems(1)] doc1(1) later(1)] doc1(2,3) later(2) show ?thesis by auto
  qed
qed simp

text \<open>The same effect twice: the second is refused.\<close>

definition pin_twice :: "(lease_tokens \<times> context_change) list" where
  "pin_twice =
     [([], ChangeDocument (AppendCommand ''e'' ''s'' ''x'' 0 ''i'' ''open'' [PinFile ''f'' HostScope])),
      ([], ChangeDocument (AppendCommand ''g'' ''s'' ''x'' 0 ''j'' ''open'' [PinFile ''f'' HostScope]))]"

theorem context_log_append_only_witness:
  "\<exists>doc'. context_load (snd (context_run pin_twice sample_db)) ''s'' = Inr doc'
     \<and> length (events doc') = 1 \<and> effects_once doc'"
proof -
  have load: "context_load sample_db ''s'' = Inr empty_document"
    by (simp add: context_load_def read_record_def sample_db_def empty_database_def)
  have wf: "bt_wf (records sample_db)" by (simp add: sample_db_def empty_database_def)
  have owner: "assert_owner sample_db [] ''s'' = Inr ()"
    by (simp add: assert_owner_def sample_db_def leases_get_def)
  obtain db1 where first: "context_change_apply [] (snd (hd pin_twice)) sample_db = Inr db1"
    by (simp add: pin_twice_def append_command_def append_event_def load owner empty_document_def Let_def state_of_def)
  then obtain doc1 where doc1: "context_load db1 ''s'' = Inr doc1" "events doc1 = log_step ''s'' [] (snd (hd pin_twice))"
    using context_apply_logs[OF first load wf] by (auto simp: empty_document_def)
  then have "\<exists>e. context_change_apply [] (snd (pin_twice ! 1)) db1 = Inl e"
    by (cases "assert_owner db1 [] ''s''")
      (auto simp: pin_twice_def append_command_def append_event_def log_append_def state_of_def)
  then have "fst (context_run pin_twice sample_db) = [snd (hd pin_twice)]"
    using first by (auto simp: pin_twice_def)
  moreover have "effects_once empty_document" by (simp add: effects_once_def empty_document_def)
  ultimately show ?thesis
    using context_log_append_only[OF wf load, of pin_twice] 
    by (cases "context_run pin_twice sample_db") (auto simp: pin_twice_def empty_document_def log_append_def)
qed

lemma checkpoint_get_saved:
  assumes "checkpoint_save db leases c = Inr db'"
  shows "checkpoint_get db' k = (if k = covered_through c then Inr (Some c) else checkpoint_get db k)"
proof -
  obtain session where valid: "checkpoint_validate c = Inr ()"
    and w: "write_message_record db leases ''compaction'' (covered_through c) session (CompactionRecord c) = Inr db'"
    using assms by (auto simp: checkpoint_save_def result_simps)
  obtain ss where "db' = foldl (\<lambda>db s. if Some s \<noteq> session then bump_revision db s else db)
      (write_record db ''compaction'' (covered_through c) session (CompactionRecord c)) ss"
    using w by (auto simp: write_message_record_iff)
  then have "records db' = records (write_record db ''compaction'' (covered_through c) session (CompactionRecord c))"
    by (simp add: bumps_keep)
  then show ?thesis
    using valid by (auto simp: checkpoint_get_def read_record_def write_record_records)
qed

text \<open>A saved checkpoint is found again: it reads back as saved and every other checkpoint as it was.\<close>

theorem checkpoint_roundtrip:
  assumes "checkpoint_save db leases c = Inr db'"
  shows "checkpoint_get db' k = (if k = covered_through c then Inr (Some c) else checkpoint_get db k)"
  using assms by (rule checkpoint_get_saved)

lemma compatible_checkpoints_get:
  assumes "db_wf db" "checkpoints_keyed db" "compatible_checkpoints db boundaries provider model = Inr found"
  shows "bt_get found k = Some c \<longleftrightarrow>
    k \<in> set boundaries \<and> covered_through c = k \<and> read_record as_compaction db ''compaction'' k = Inr (Some c)
    \<and> (list_ex is_compaction (replacement c) = False
       \<or> checkpoint_provider_id c = provider \<and> checkpoint_model_id c = model)"
proof -
  note rows = keyed_rows[OF assms(1,2), where bs = boundaries]
  have "bt_get found k = Some c \<longleftrightarrow> (\<exists>row. (row \<in> set (map snd (filter (\<lambda>((kind, k), _). kind = ''compaction'' \<and> k \<in> set boundaries) (records db)))
        \<and> as_compaction (record_data_of row) = Some c) \<and> covered_through c = k \<and> compatible_with c provider model)"
    using collect_checkpoints[OF assms(3)[unfolded compatible_checkpoints_def] rows(1)] by auto
  also have "\<dots> \<longleftrightarrow> k \<in> set boundaries \<and> covered_through c = k
      \<and> (\<exists>row. bt_get (records db) (''compaction'', k) = Some row \<and> record_data_of row = CompactionRecord c)
      \<and> compatible_with c provider model"
    unfolding rows(2) by blast
  also have "(\<exists>row. bt_get (records db) (''compaction'', k) = Some row \<and> record_data_of row = CompactionRecord c)
      \<longleftrightarrow> read_record as_compaction db ''compaction'' k = Inr (Some c)"
  proof (cases "bt_get (records db) (''compaction'', k)")
    case (Some row)
    then show ?thesis by (cases "record_data_of row") (simp_all add: read_record_def)
  qed (simp add: read_record_def)
  finally show ?thesis by (auto simp: compatible_with_def)
qed

text \<open>The checkpoints offered to a model are exactly the usable ones: when the lookup succeeds, it
  holds a checkpoint under a boundary exactly when the boundary was asked for, the checkpoint is
  the one stored for it, and it is portable text or was made by this provider and model.\<close>

theorem compatible_checkpoints_exact:
  assumes "db_wf db" "checkpoints_keyed db" "compatible_checkpoints db boundaries provider model = Inr found"
  shows "bt_get found k = Some c \<longleftrightarrow>
    k \<in> set boundaries \<and> covered_through c = k \<and> read_record as_compaction db ''compaction'' k = Inr (Some c)
    \<and> (list_ex is_compaction (replacement c) = False
       \<or> checkpoint_provider_id c = provider \<and> checkpoint_model_id c = model)"
  using assms by (rule compatible_checkpoints_get)

definition sample_checkpoint :: compaction_checkpoint where
  "sample_checkpoint = \<lparr>covered_through = ''m'', superseded_usage = [], previous_boundary = None,
     replacement = [SystemItem ''x''], checkpoint_model_id = ''a'', checkpoint_provider_id = ''b'',
     prompt_version = 1, checkpoint_usage = None\<rparr>"

lemma valid_id_m: "validate_message_id ''m'' = Inr ()"
  by (simp add: validate_message_id_def validate_id_def message_id_byte_def
      is_ascii_alphanumeric_def is_ascii_digit_def byte_def)

lemma sample_checkpoint_valid: "checkpoint_validate sample_checkpoint = Inr ()"
  by (simp add: checkpoint_validate_def sample_checkpoint_def check_message_id_def id_try_new_def valid_id_m)

theorem checkpoint_roundtrip_witness:
  "\<exists>db'. checkpoint_save graph_db [] sample_checkpoint = Inr db' \<and> checkpoint_get db' ''m'' = Inr (Some sample_checkpoint)"
proof -
  have m: "covered_through sample_checkpoint = ''m''" by (simp add: sample_checkpoint_def)
  have "assert_message_owners graph_db [] ''m'' (Some ''s'') = Inr [''s'']"
    by (simp add: assert_message_owners_def owners_loop.simps record_session_def graph_db_def empty_database_def
        assert_owner_def leases_get_def message_sessions_def shows_message_def valid_id_s assert_owners_def)
  moreover have "record_session graph_db ''message'' ''m'' = Inr (Some ''s'')"
    by (simp add: record_session_def graph_db_def valid_id_s)
  ultimately obtain db' where "checkpoint_save graph_db [] sample_checkpoint = Inr db'"
    by (auto simp: checkpoint_save_def sample_checkpoint_valid m write_message_record_iff)
  then show ?thesis using checkpoint_roundtrip[of graph_db "[]" sample_checkpoint db' "''m''"] m by simp
qed

theorem compatible_checkpoints_exact_witness:
  "\<exists>db found. compatible_checkpoints db [''m''] ''p'' ''q'' = Inr found \<and> bt_get found ''m'' = Some sample_checkpoint"
proof -
  define db where "db = empty_database\<lparr>records := [((''compaction'', ''m''),
     \<lparr>record_session_id = None, record_data_of = CompactionRecord sample_checkpoint\<rparr>)]\<rparr>"
  have wf: "db_wf db" "checkpoints_keyed db"
    by (simp_all add: db_def empty_database_def db_wf_def bt_wf_def table_all_def record_row_ok_def checkpoints_keyed_def
        sample_checkpoint_def)
  obtain found where f: "compatible_checkpoints db [''m''] ''p'' ''q'' = Inr found"
    by (simp add: compatible_checkpoints_def db_def collect_checkpoint_def sample_checkpoint_valid)
  have "read_record as_compaction db ''compaction'' ''m'' = Inr (Some sample_checkpoint)"
    by (simp add: read_record_def db_def)
  then show ?thesis
    using compatible_checkpoints_exact[OF wf f, of "''m''" sample_checkpoint] f by (auto simp: sample_checkpoint_def)
qed

end
