(* ===== verification/File_Context.thy ===== *)
theory File_Context
  imports Requests Context_Store Edits
begin

text \<open>
  The files and instructions shown to the model (crates/kraai-agent context_state.rs): the log of
  context events says which files are open, every request reads them again, numbers their lines and
  anchors each text in the conversation so that unchanged texts stay where they were. Reading a file
  is an argument, with the errors of kraai-io; paths are UTF-8 strings. The document is loaded in one
  transaction and saved in another, so the database it is loaded from is an argument of its own.
\<close>

section \<open>Open files\<close>

record pinned_file =
  pinned_path :: string
  pinned_scope :: pinned_file_scope
  pinned_event :: string

text \<open>\<open>iter_mut().find(..)\<close>: the first file with the path gets the new scope.\<close>

fun rescope :: "string \<Rightarrow> pinned_file_scope \<Rightarrow> pinned_file list \<Rightarrow> pinned_file list option" where
  "rescope path scope [] = None"
| "rescope path scope (f # fs) =
     (if pinned_path f = path then Some (f\<lparr>pinned_scope := scope\<rparr> # fs)
      else map_option ((#) f) (rescope path scope fs))"

fun apply_mutation :: "string \<Rightarrow> pinned_file list \<Rightarrow> context_state_mutation \<Rightarrow> pinned_file list" where
  "apply_mutation event fs (PinFile path scope) =
     (case rescope path scope fs of
        Some fs' \<Rightarrow> fs'
      | None \<Rightarrow> fs @ [\<lparr>pinned_path = path, pinned_scope = scope, pinned_event = event\<rparr>])"
| "apply_mutation event fs (UnpinFile path _) = filter (\<lambda>f. pinned_path f \<noteq> path) fs"

definition opened_files :: "context_state_event list \<Rightarrow> pinned_file list" where
  "opened_files evs = foldl (\<lambda>fs e. foldl (apply_mutation (event_id e)) fs (mutations e)) [] evs"

section \<open>Reading and rendering\<close>

text \<open>An I/O error as far as it is read: whether it is \<open>NotFound\<close>, and its text.\<close>

record io_error =
  io_not_found :: bool
  io_text :: string

datatype scoped_read_error =
    ScopedNotFound string
  | OutsideRoot string
  | ScopedNotFile string
  | OpenRoot string io_error
  | OpenScoped string io_error
  | InspectScoped string io_error
  | ReadScopedText string io_error
  | UnsupportedPlatform string

fun scoped_error_text :: "scoped_read_error \<Rightarrow> string" where
  "scoped_error_text (ScopedNotFound p) = ''path no longer exists: '' @ p"
| "scoped_error_text (OutsideRoot p) = ''path resolves outside its authorized root: '' @ p"
| "scoped_error_text (ScopedNotFile p) = ''path is not a regular file: '' @ p"
| "scoped_error_text (OpenRoot p e) = ''unable to open authorized root '' @ p @ '': '' @ io_text e"
| "scoped_error_text (OpenScoped p e) = ''unable to open '' @ p @ '': '' @ io_text e"
| "scoped_error_text (InspectScoped p e) = ''unable to inspect '' @ p @ '': '' @ io_text e"
| "scoped_error_text (ReadScopedText p e) = ''file is not readable UTF-8 text at '' @ p @ '': '' @ io_text e"
| "scoped_error_text (UnsupportedPlatform p) = ''scoped pinned-file reads are unsupported on this platform: '' @ p"

text \<open>The file system: reading below a root, and reading any regular file.\<close>

record file_reader =
  read_scoped :: "string \<Rightarrow> string \<Rightarrow> (scoped_read_error, string) result"
  read_regular :: "string \<Rightarrow> (io_error, string) result"

datatype pinned_read_failure = RemovePin string | Unavailable string

definition scoped_failure :: "scoped_read_error \<Rightarrow> pinned_read_failure" where
  "scoped_failure e = (case e of
     ScopedNotFound _ \<Rightarrow> RemovePin ''it no longer exists''
   | OutsideRoot _ \<Rightarrow> RemovePin ''it no longer resolves within its authorized workspace''
   | ScopedNotFile _ \<Rightarrow> RemovePin ''it is no longer a regular file''
   | OpenRoot _ source \<Rightarrow>
       if io_not_found source then RemovePin ''its authorized workspace no longer exists''
       else Unavailable (scoped_error_text e)
   | _ \<Rightarrow> Unavailable (scoped_error_text e))"

definition read_pinned_file :: "file_reader \<Rightarrow> pinned_file \<Rightarrow> (pinned_read_failure, string) result" where
  "read_pinned_file fs pinned = (case pinned_scope pinned of
     WorkspaceScope root \<Rightarrow>
       (case read_scoped fs root (pinned_path pinned) of
          Inr contents \<Rightarrow> Inr contents | Inl e \<Rightarrow> Inl (scoped_failure e))
   | HostScope \<Rightarrow>
       (case read_regular fs (pinned_path pinned) of
          Inr contents \<Rightarrow> Inr contents
        | Inl e \<Rightarrow> Inl (if io_not_found e then RemovePin ''it no longer exists'' else Unavailable (io_text e))))"

definition numbered_line :: "nat \<times> string \<Rightarrow> string" where
  "numbered_line l = nat_digits (sat_add (fst l) 1) @ ''|'' @ snd l"

definition text_with_line_numbers :: "string \<Rightarrow> string" where
  "text_with_line_numbers contents = concat (map numbered_line (enumerate 0 (lines_of contents)))"

definition unterminated :: "string \<Rightarrow> bool" where
  "unterminated contents = (contents \<noteq> [] \<and> last contents \<noteq> newline)"

abbreviation fence :: string where
  "fence \<equiv> [CHR 0x60, CHR 0x60, CHR 0x60]"

definition render_file :: "string \<Rightarrow> string \<Rightarrow> string" where
  "render_file path contents =
     ''Opened file: '' @ path @ [newline] @ ''Format: <line>|<content>.'' @ [newline] @ fence @ ''text'' @ [newline]
     @ text_with_line_numbers contents
     @ (if unterminated contents then [newline] else [])
     @ fence
     @ (if unterminated contents then newline # ''No newline at end of file.'' else [])"

text \<open>One file of the refresh: a snapshot, or a note and the removal.\<close>

definition refresh_file ::
  "file_reader \<Rightarrow> string \<Rightarrow> pinned_file \<Rightarrow> (string \<times> context_state_mutation, file_context_snapshot) result" where
  "refresh_file fs at pinned =
     (let snapshot = (\<lambda>txt. \<lparr>snapshot_path = pinned_path pinned, opened_event = pinned_event pinned,
                            anchor = at, snapshot_text = txt\<rparr>)
      in case read_pinned_file fs pinned of
           Inr contents \<Rightarrow> Inr (snapshot (render_file (pinned_path pinned) contents))
         | Inl (RemovePin reason) \<Rightarrow>
             Inl (pinned_path pinned @ '' was automatically unpinned because '' @ reason @ ''.'',
                  UnpinFile (pinned_path pinned) (Some reason))
         | Inl (Unavailable e) \<Rightarrow>
             Inr (snapshot (''Opened file: '' @ pinned_path pinned @ [newline]
                    @ ''[temporarily unavailable: '' @ e @ '']'')))"

definition snapshots_of :: "(('n \<times> 'm) + 's) list \<Rightarrow> 's list" where
  "snapshots_of rs = List.map_filter (\<lambda>r. case r of Inr s \<Rightarrow> Some s | Inl _ \<Rightarrow> None) rs"

definition removals_of :: "(('n \<times> 'm) + 's) list \<Rightarrow> ('n \<times> 'm) list" where
  "removals_of rs = List.map_filter (\<lambda>r. case r of Inr _ \<Rightarrow> None | Inl p \<Rightarrow> Some p) rs"

definition refresh_pinned_files ::
  "file_reader \<Rightarrow> context_state_event list \<Rightarrow> string
     \<Rightarrow> file_context_snapshot list \<times> string list \<times> context_state_mutation list" where
  "refresh_pinned_files fs evs at =
     (let rs = map (refresh_file fs at) (opened_files evs)
      in (snapshots_of rs, map fst (removals_of rs), map snd (removals_of rs)))"

section \<open>Instructions\<close>

record instruction_section =
  section_key :: string
  section_label :: string
  section_text :: string

definition old_instruction :: "instruction_snapshot list \<Rightarrow> instruction_section \<Rightarrow> instruction_snapshot option" where
  "old_instruction previous sec = find (\<lambda>old. instruction_key old = section_key sec) previous"

definition refresh_section ::
  "instruction_snapshot list \<Rightarrow> string \<Rightarrow> string set \<Rightarrow> bool \<Rightarrow> instruction_section
     \<Rightarrow> instruction_snapshot \<times> string list" where
  "refresh_section previous latest retained first_request sec =
     (let (at, notes) =
        (case old_instruction previous sec of
           Some old \<Rightarrow>
             if instruction_text old = section_text sec
             then (case instruction_anchor old of
                     Some a \<Rightarrow> if a \<in> retained then Some a else None | None \<Rightarrow> None, [])
             else (Some latest, [section_label sec @ '' changed; the version below replaces the earlier one.''])
         | None \<Rightarrow>
             if first_request then (None, [])
             else (Some latest, [section_label sec @ '' was added.'']))
      in (\<lparr>instruction_key = section_key sec, instruction_label = section_label sec,
           instruction_anchor = at, instruction_text = section_text sec\<rparr>, notes))"

fun is_assistant :: "conversation_item \<Rightarrow> bool" where
  "is_assistant (AssistantItems _) = True"
| "is_assistant _ = False"

definition refresh_instructions ::
  "instruction_snapshot list \<Rightarrow> instruction_section list \<Rightarrow> string \<Rightarrow> message list
     \<Rightarrow> instruction_snapshot list \<times> string list" where
  "refresh_instructions previous current latest history =
     (let first_request = (\<not> list_ex (\<lambda>m. is_assistant (message_content m)) history);
          removed = filter (\<lambda>old. \<not> list_ex (\<lambda>sec. section_key sec = instruction_key old) current) previous;
          refreshed = map (refresh_section previous latest (set (map message_id history)) first_request) current
      in (map fst refreshed,
          map (\<lambda>old. instruction_label old @ '' was removed; its instructions no longer apply.'') removed
          @ concat (map snd refreshed)))"

section \<open>Anchors\<close>

text \<open>The map from paths to the previous snapshots: a later entry replaces an earlier one.\<close>

definition previous_of :: "file_context_snapshot list \<Rightarrow> string \<Rightarrow> (nat \<times> file_context_snapshot) option" where
  "previous_of previous path =
     (case filter (\<lambda>(_, s). snapshot_path s = path) (enumerate 0 previous) of
        [] \<Rightarrow> None | found \<Rightarrow> Some (last found))"

definition unchanged ::
  "file_context_snapshot list \<Rightarrow> file_context_snapshot \<Rightarrow> (nat \<times> file_context_snapshot) option" where
  "unchanged previous snapshot =
     (case previous_of previous (snapshot_path snapshot) of
        Some (i, old) \<Rightarrow>
          if opened_event old = opened_event snapshot \<and> snapshot_text old = snapshot_text snapshot
          then Some (i, old) else None
      | None \<Rightarrow> None)"

definition anchored ::
  "file_context_snapshot list \<Rightarrow> string set \<Rightarrow> string option \<Rightarrow> string \<Rightarrow> file_context_snapshot
     \<Rightarrow> file_context_snapshot" where
  "anchored previous retained compacted latest snapshot =
     snapshot\<lparr>anchor := (case unchanged previous snapshot of
        Some (_, old) \<Rightarrow>
          if anchor old \<in> retained then anchor old
          else (case compacted of Some c \<Rightarrow> c | None \<Rightarrow> latest)
      | None \<Rightarrow> latest)\<rparr>"

definition position_key :: "file_context_snapshot list \<Rightarrow> file_context_snapshot \<Rightarrow> nat" where
  "position_key previous snapshot = (case unchanged previous snapshot of None \<Rightarrow> usize_max | Some (i, _) \<Rightarrow> i)"

definition refreshed_snapshots ::
  "file_context_snapshot list \<Rightarrow> string set \<Rightarrow> string option \<Rightarrow> string \<Rightarrow> file_context_snapshot list
     \<Rightarrow> file_context_snapshot list" where
  "refreshed_snapshots previous retained compacted latest snaps =
     sort_key (position_key previous) (map (anchored previous retained compacted latest) snaps)"

section \<open>The refresh\<close>

definition refresh_context_state ::
  "file_reader \<Rightarrow> database \<Rightarrow> database \<Rightarrow> lease_tokens \<Rightarrow> string \<Rightarrow> string \<Rightarrow> string \<Rightarrow> message list
     \<Rightarrow> string option \<Rightarrow> instruction_section list \<Rightarrow> (store_error, refreshed_context_state \<times> database) result" where
  "refresh_context_state fs seen db leases fresh s latest history compacted secs =
     bindR (context_load seen s) (\<lambda>doc.
     let through = (if events doc = [] then None else Some (event_id (last (events doc))));
         (snaps, notes, removals) = refresh_pinned_files fs (events doc) latest;
         retained = set (map message_id history);
         snaps = refreshed_snapshots (snapshots doc) retained compacted latest snaps
     in bindR (save_snapshots db leases fresh s through snaps removals) (\<lambda>db.
        let (new, new_notes) = refresh_instructions (instructions doc) secs latest history;
            refreshed = \<lparr>ctx_snapshots = snaps, ctx_instructions = new, ctx_notifications = notes @ new_notes\<rparr>
        in if new \<noteq> instructions doc
           then bindR (save_instructions db leases s new) (\<lambda>db. Inr (refreshed, db))
           else Inr (refreshed, db)))"

section \<open>The log decides what is open\<close>

text \<open>The reference: the last word on each path.\<close>

fun pin_step :: "(string \<rightharpoonup> pinned_file_scope) \<Rightarrow> context_state_mutation \<Rightarrow> (string \<rightharpoonup> pinned_file_scope)" where
  "pin_step m (PinFile path scope) = m(path \<mapsto> scope)"
| "pin_step m (UnpinFile path _) = m(path := None)"

definition scopes :: "pinned_file list \<Rightarrow> (string \<rightharpoonup> pinned_file_scope)" where
  "scopes fs = map_of (map (\<lambda>f. (pinned_path f, pinned_scope f)) fs)"

lemma rescope_None: "rescope path scope fs = None \<longleftrightarrow> path \<notin> pinned_path ` set fs"
  by (induction fs) auto

lemma rescope_Some:
  "rescope path scope fs = Some fs' \<Longrightarrow>
     map pinned_path fs' = map pinned_path fs \<and> scopes fs' = (scopes fs)(path \<mapsto> scope)
     \<and> map pinned_event fs' = map pinned_event fs"
  by (induction fs arbitrary: fs') (auto simp: scopes_def split: if_splits)

lemma scopes_append: "scopes (fs @ gs) = scopes gs ++ scopes fs"
  by (simp add: scopes_def)

lemma scopes_None: "scopes fs path = None \<longleftrightarrow> path \<notin> pinned_path ` set fs"
  by (auto simp: scopes_def map_of_eq_None_iff image_image)

lemma scopes_filter: "scopes (filter (\<lambda>f. pinned_path f \<noteq> path) fs) = (scopes fs)(path := None)"
  by (induction fs) (auto simp: scopes_def fun_eq_iff)

lemma apply_mutation_scopes:
  assumes "distinct (map pinned_path fs)"
  shows "distinct (map pinned_path (apply_mutation e fs mu)) \<and> scopes (apply_mutation e fs mu) = pin_step (scopes fs) mu"
proof (cases mu)
  case (PinFile path scope)
  show ?thesis
  proof (cases "rescope path scope fs")
    case None
    then have new: "path \<notin> pinned_path ` set fs" by (simp add: rescope_None)
    then have "scopes fs path = None" by (simp add: scopes_None)
    then have "scopes (fs @ [\<lparr>pinned_path = path, pinned_scope = scope, pinned_event = e\<rparr>]) = (scopes fs)(path \<mapsto> scope)"
      by (auto simp: scopes_append fun_eq_iff map_add_def scopes_def split: option.splits)
    then show ?thesis using PinFile None new assms by simp
  next
    case (Some fs')
    then show ?thesis using PinFile rescope_Some[OF Some] assms by simp
  qed
next
  case (UnpinFile path reason)
  then show ?thesis using assms by (simp add: scopes_filter distinct_map_filter)
qed

lemma foldl_mutations_scopes:
  "distinct (map pinned_path fs) \<Longrightarrow>
     distinct (map pinned_path (foldl (apply_mutation e) fs mus))
     \<and> scopes (foldl (apply_mutation e) fs mus) = foldl pin_step (scopes fs) mus"
proof (induction mus arbitrary: fs)
  case (Cons mu mus)
  then show ?case using apply_mutation_scopes[OF Cons.prems, of e mu] by simp
qed simp

lemma foldl_events_scopes:
  "distinct (map pinned_path fs) \<Longrightarrow>
     distinct (map pinned_path (foldl (\<lambda>fs e. foldl (apply_mutation (event_id e)) fs (mutations e)) fs evs))
     \<and> scopes (foldl (\<lambda>fs e. foldl (apply_mutation (event_id e)) fs (mutations e)) fs evs) =
         foldl pin_step (scopes fs) (concat (map mutations evs))"
proof (induction evs arbitrary: fs)
  case (Cons e evs)
  then show ?case using foldl_mutations_scopes[OF Cons.prems, of "event_id e" "mutations e"] by simp
qed simp

lemma opened_files_distinct: "distinct (map pinned_path (opened_files evs))"
  using foldl_events_scopes[of "[]" evs] by (simp add: opened_files_def)

text \<open>
  The files shown to the model are the ones the log says: a path is open exactly when its last
  mutation opened it, with the scope that mutation granted, and no path is open twice.
\<close>

theorem opened_files_follow_the_log:
  "distinct (map pinned_path (opened_files evs))
   \<and> scopes (opened_files evs) = foldl pin_step Map.empty (concat (map mutations evs))"
  using foldl_events_scopes[of "[]" evs] by (simp add: opened_files_def scopes_def)

section \<open>Numbered lines\<close>

text \<open>Lines as \<open>split_inclusive\<close> gives them: newline only at the end, and at the end of all but the last.\<close>

fun proper_lines :: "string list \<Rightarrow> bool" where
  "proper_lines [] = True"
| "proper_lines (l # ls) =
     (l \<noteq> [] \<and> newline \<notin> set (butlast l) \<and> (ls \<noteq> [] \<longrightarrow> last l = newline) \<and> proper_lines ls)"

lemma proper_lines_of: "proper_lines (lines_of s)"
proof (induction s)
  case (Cons c s)
  then show ?case by (cases "lines_of s") auto
qed simp

lemma lines_of_concat: "proper_lines ls \<Longrightarrow> lines_of (concat ls) = ls"
proof (induction ls)
  case (Cons l ls)
  then have l: "l = butlast l @ [last l]" "newline \<notin> set (butlast l)" by auto
  show ?case
  proof (cases "last l = newline")
    case True
    have "lines_of (concat (l # ls)) = lines_of (butlast l @ newline # concat ls)"
      using l(1) True by (metis append.assoc append_Cons append_Nil concat.simps(2))
    also have "\<dots> = (butlast l @ [newline]) # lines_of (concat ls)" using l(2) by (rule lines_of_prefix)
    finally show ?thesis using Cons l(1) True by simp
  next
    case False
    then have "ls = []" "newline \<notin> set l" using Cons.prems l by (auto, metis UnE l(1) list.set(1) list.set(2) set_append insertE empty_iff)
    then show ?thesis using Cons.prems by (simp add: lines_of_newline_free)
  qed
qed simp

definition number_prefix :: "nat \<Rightarrow> string" where
  "number_prefix n = nat_digits (sat_add n 1) @ ''|''"

lemma digit_not_special: "is_ascii_digit c \<Longrightarrow> c \<noteq> newline \<and> c \<noteq> CHR ''|''"
  by (auto simp: is_ascii_digit_def byte_def)

lemma number_prefix_plain: "newline \<notin> set (number_prefix n)"
  using nat_digits_ascii[of "sat_add n 1"] by (auto simp: number_prefix_def list_all_iff dest: digit_not_special)

text \<open>\<open>line.split_once('|')\<close>: what follows the first bar.\<close>

definition strip_number :: "string \<Rightarrow> string" where
  "strip_number line = tl (dropWhile (\<lambda>c. c \<noteq> CHR ''|'') line)"

lemma strip_numbered: "strip_number (numbered_line (n, l)) = l"
proof -
  have "\<forall>c \<in> set (nat_digits (sat_add n 1)). c \<noteq> CHR ''|''"
    using nat_digits_ascii[of "sat_add n 1"] by (auto simp: list_all_iff dest: digit_not_special)
  then show ?thesis by (simp add: strip_number_def numbered_line_def dropWhile_append)
qed

lemma proper_numbered: "proper_lines ls \<Longrightarrow> proper_lines (map numbered_line (enumerate n ls))"
proof (induction ls arbitrary: n)
  case (Cons l ls)
  have "numbered_line (n, l) = number_prefix n @ l" by (simp add: numbered_line_def number_prefix_def)
  then show ?case
    using Cons number_prefix_plain[of n] by (auto simp: butlast_append)
qed simp

lemma shown_lines: "lines_of (text_with_line_numbers c) = map numbered_line (enumerate 0 (lines_of c))"
  unfolding text_with_line_numbers_def
  by (rule lines_of_concat) (rule proper_numbered, rule proper_lines_of)

text \<open>A shown line has a number, then a bar, then the line of the file.\<close>

definition shown_number :: "string \<Rightarrow> nat option" where
  "shown_number line = (if CHR ''|'' \<in> set line then parse_u64 (takeWhile (\<lambda>c. c \<noteq> CHR ''|'') line) else None)"

definition shown_line :: "string \<Rightarrow> nat \<Rightarrow> string option" where
  "shown_line rendered n = map_option strip_number (find (\<lambda>line. shown_number line = Some n) (lines_of rendered))"

text \<open>Copying the lines shown with the numbers \<open>i\<close> to \<open>j\<close>, without the numbers; the last line of the
  file has no newline when the text ends by saying so.\<close>

definition no_newline_note :: string where
  "no_newline_note = ''No newline at end of file.''"

definition says_unterminated :: "string \<Rightarrow> bool" where
  "says_unterminated rendered = (drop (length rendered - length no_newline_note) rendered = no_newline_note)"

definition copied_lines :: "string \<Rightarrow> nat \<Rightarrow> nat \<Rightarrow> string" where
  "copied_lines rendered i j =
     (let copied = concat (List.map_filter (shown_line rendered) [i..<Suc j])
      in if says_unterminated rendered \<and> shown_line rendered (Suc j) = None then butlast copied else copied)"

definition closed :: "string \<Rightarrow> string" where
  "closed c = (if unterminated c then c @ [newline] else c)"

lemma lines_of_nonempty [simp]: "lines_of s = [] \<longleftrightarrow> s = []"
  by (cases s) (auto split: list.splits)

lemma lines_of_append: "s = [] \<or> last s = newline \<Longrightarrow> lines_of (s @ t) = lines_of s @ lines_of t"
proof (induction s)
  case (Cons a s)
  show ?case
  proof (cases "s = []")
    case False
    then obtain l ls where "lines_of s = l # ls" by (cases "lines_of s") auto
    then show ?thesis using Cons False by simp
  qed (use Cons in simp)
qed simp

lemma lines_of_unterminated:
  "unterminated c \<Longrightarrow> lines_of (c @ [newline]) = butlast (lines_of c) @ [last (lines_of c) @ [newline]]"
proof (induction c)
  case (Cons a c)
  show ?case
  proof (cases "c = []")
    case True
    then show ?thesis using Cons.prems by (simp add: unterminated_def)
  next
    case False
    then have u: "unterminated c" using Cons.prems by (simp add: unterminated_def)
    obtain l ls where "lines_of c = l # ls" using False by (cases "lines_of c") auto
    then show ?thesis using Cons.IH[OF u] by (cases ls) auto
  qed
qed (simp add: unterminated_def)

lemma closed_lines:
  "unterminated c \<Longrightarrow> lines_of (closed c) = butlast (lines_of c) @ [last (lines_of c) @ [newline]]"
  "\<not> unterminated c \<Longrightarrow> lines_of (closed c) = lines_of c"
  "length (lines_of (closed c)) = length (lines_of c)"
  by (auto simp: closed_def lines_of_unterminated) (auto simp: unterminated_def)

lemma closed_last: "closed c = [] \<or> last (closed c) = newline"
  by (auto simp: closed_def unterminated_def)

lemma numbers_closed: "text_with_line_numbers c @ (if unterminated c then [newline] else []) = text_with_line_numbers (closed c)"
proof (cases "unterminated c")
  case True
  then have "lines_of c \<noteq> []" by (auto simp: unterminated_def)
  then obtain ls l where ls: "lines_of c = ls @ [l]" by (metis append_butlast_last_id)
  show ?thesis
    using True closed_lines(1)[OF True]
    by (simp add: text_with_line_numbers_def ls enumerate_append_eq numbered_line_def)
qed (simp add: closed_def)

lemma proper_lines_last: "proper_lines (ls @ [l]) \<Longrightarrow> l \<noteq> []"
  by (induction ls) auto

lemma render_lines:
  assumes "newline \<notin> set path"
  shows "\<exists>before after. lines_of (render_file path c) = before @ map numbered_line (enumerate 0 (lines_of (closed c))) @ after
    \<and> (\<forall>line \<in> set before \<union> set after. shown_number line = None)"
proof -
  let ?h = "[''Opened file: '' @ path @ [newline], ''Format: <line>|<content>.'' @ [newline], fence @ ''text'' @ [newline]]"
  let ?t = "fence @ (if unterminated c then newline # no_newline_note else [])"
  let ?n = "text_with_line_numbers (closed c)"
  have r: "render_file path c = concat ?h @ ?n @ ?t"
    using numbers_closed[of c, symmetric] by (simp add: render_file_def no_newline_note_def)
  have h: "lines_of (concat ?h) = ?h"
    by (rule lines_of_concat) (use assms in \<open>auto simp: butlast_append\<close>)
  have n: "?n = [] \<or> last ?n = newline"
  proof (cases "lines_of (closed c)" rule: rev_cases)
    case (snoc ls l)
    then have "closed c = concat ls @ l" "l \<noteq> []"
      using concat_lines_of[of "closed c"] proper_lines_of[of "closed c"] by (simp, simp add: proper_lines_last)
    then have "last l = newline" using closed_last[of c] by (cases "concat ls") auto
    then show ?thesis using snoc \<open>l \<noteq> []\<close> by (simp add: text_with_line_numbers_def enumerate_append_eq numbered_line_def)
  qed (simp add: text_with_line_numbers_def)
  have "lines_of (render_file path c) = ?h @ lines_of ?n @ lines_of ?t"
    unfolding r using lines_of_append[of "concat ?h" "?n @ ?t"] lines_of_append[OF n, of ?t] h by simp
  moreover have "\<forall>line \<in> set ?h \<union> set (lines_of ?t). shown_number line = None"
    by (auto simp: shown_number_def parse_u64_def is_ascii_digit_def byte_def no_newline_note_def Let_def)
  ultimately show ?thesis unfolding shown_lines by blast
qed

lemma shown_number_numbered: "k < u64_max \<Longrightarrow> shown_number (numbered_line (k, l)) = Some (Suc k)"
proof -
  assume k: "k < u64_max"
  have bars: "\<forall>c \<in> set (nat_digits (sat_add k 1)). c \<noteq> CHR ''|''"
    using nat_digits_ascii[of "sat_add k 1"] by (auto simp: list_all_iff dest: digit_not_special)
  then have "takeWhile (\<lambda>c. c \<noteq> CHR ''|'') (numbered_line (k, l)) = nat_digits (sat_add k 1)"
    by (simp add: numbered_line_def)
  moreover have "sat_add k 1 = Suc k" using k by (simp add: sat_add_def u64_max_def usize_max_def)
  ultimately show ?thesis using k parse_u64_nat_digits[of "Suc k"] by (simp add: shown_number_def numbered_line_def)
qed

lemma find_numbered:
  "m + length ls \<le> u64_max \<Longrightarrow>
     find (\<lambda>line. shown_number line = Some n) (map numbered_line (enumerate m ls)) =
       (if m < n \<and> n \<le> m + length ls then Some (numbered_line (n - 1, ls ! (n - 1 - m))) else None)"
proof (induction ls arbitrary: m)
  case (Cons l ls)
  have "shown_number (numbered_line (m, l)) = Some (Suc m)" using Cons.prems by (intro shown_number_numbered) simp
  then show ?case using Cons.IH[of "Suc m"] Cons.prems by (auto simp: nth_Cons' not_less_eq_eq diff_diff_eq)
qed simp

lemma shown_line_render:
  assumes "newline \<notin> set path" "length (lines_of c) \<le> u64_max"
  shows "shown_line (render_file path c) n =
    (if 1 \<le> n \<and> n \<le> length (lines_of c) then Some (lines_of (closed c) ! (n - 1)) else None)"
proof -
  obtain before after where r: "lines_of (render_file path c) = before @ map numbered_line (enumerate 0 (lines_of (closed c))) @ after"
      "\<forall>line \<in> set before \<union> set after. shown_number line = None"
    using render_lines[OF assms(1)] by blast
  have "find (\<lambda>line. shown_number line = Some n) before = None" "find (\<lambda>line. shown_number line = Some n) after = None"
    using r(2) by (auto simp: find_None_iff)
  then show ?thesis
    using find_numbered[of 0 "lines_of (closed c)" n] assms(2) closed_lines(3)[of c]
    by (auto simp: shown_line_def r(1) find_append strip_numbered)
qed

lemma says_unterminated_render: "says_unterminated (render_file path c) \<longleftrightarrow> unterminated c"
proof -
  have r: "last (render_file path c) = (if unterminated c then CHR ''.'' else CHR 0x60)"
    by (simp add: render_file_def)
  have l: "last s = CHR ''.''" if "says_unterminated s" for s
  proof -
    let ?k = "length s - length no_newline_note"
    have d: "drop ?k s = no_newline_note" using that by (simp add: says_unterminated_def)
    then have "?k < length s" by (cases "?k < length s") (auto simp: no_newline_note_def)
    then have "last s = last no_newline_note" using last_drop[of ?k s] d by simp
    then show ?thesis by (simp add: no_newline_note_def)
  qed
  have n: "says_unterminated (s @ no_newline_note)" for s
    by (simp add: says_unterminated_def)
  have e: "\<exists>s. render_file path c = s @ no_newline_note" if "unterminated c"
    using that by (intro exI[of _ "''Opened file: '' @ path @ [newline] @ ''Format: <line>|<content>.'' @ [newline] @ fence
        @ ''text'' @ [newline] @ text_with_line_numbers c @ [newline] @ fence @ [newline]"])
      (simp add: render_file_def no_newline_note_def)
  show ?thesis
  proof
    assume "says_unterminated (render_file path c)"
    from l[OF this] r show "unterminated c" by (auto split: if_splits)
  next
    assume "unterminated c"
    from e[OF this] n show "says_unterminated (render_file path c)" by auto
  qed
qed

lemma copied_shown:
  assumes "newline \<notin> set path" "length (lines_of c) \<le> u64_max" "1 \<le> i" "i \<le> j" "j \<le> length (lines_of c)"
  shows "copied_lines (render_file path c) i j = concat (take (Suc j - i) (drop (i - 1) (lines_of c)))"
proof -
  let ?l = "lines_of (closed c)"
  have "List.map_filter (shown_line (render_file path c)) [i..<Suc j] = map (\<lambda>n. ?l ! (n - 1)) [i..<Suc j]"
    using assms(3,5) by (auto simp: List.map_filter_def shown_line_render[OF assms(1,2)] intro!: filter_True)
  also have "\<dots> = take (Suc j - i) (drop (i - 1) ?l)"
    using assms(3-5) closed_lines(3)[of c] by (intro nth_equalityI) (simp_all del: upt_Suc)
  finally have all: "concat (List.map_filter (shown_line (render_file path c)) [i..<Suc j]) = concat (take (Suc j - i) (drop (i - 1) ?l))"
    by simp
  show ?thesis
  proof (cases "unterminated c")
    case False
    then show ?thesis using all closed_lines(2)[OF False] by (simp add: copied_lines_def says_unterminated_render Let_def)
  next
    case True
    then obtain ls l where ls: "lines_of c = ls @ [l]" "?l = ls @ [l @ [newline]]"
      using closed_lines(1)[OF True] by (metis append_butlast_last_id butlast_snoc last_snoc lines_of_nonempty unterminated_def)
    have next_line: "shown_line (render_file path c) (Suc j) = None \<longleftrightarrow> j = length (lines_of c)"
      using assms(5) by (auto simp: shown_line_render[OF assms(1,2)])
    show ?thesis
    proof (cases "j = length (lines_of c)")
      case True
      then show ?thesis
        using \<open>unterminated c\<close> all next_line ls assms(3,4)
        by (simp add: copied_lines_def says_unterminated_render butlast_append flip: append_assoc)
    next
      case False
      then show ?thesis
        using \<open>unterminated c\<close> all next_line ls assms(3-5) by (auto simp: copied_lines_def says_unterminated_render Let_def)
    qed
  qed
qed

lemma lines_of_length: "length (lines_of c) \<le> length c"
  by (induction c) (auto split: list.splits)

text \<open>C37. 
  What the model is shown can be edited. Take any range of the line numbers that the rendered file
  shows, copy the lines shown with these numbers, without number and bar, and without the newline
  after the last line of the file when the rendering says there is none: an edit of the lines with
  these numbers that expects this text is accepted, and replaces exactly them.
\<close>

theorem shown_lines_can_be_edited:
  assumes "utf8_valid c" and "newline \<notin> set path" and "1 \<le> i" and "i \<le> j"
    and "shown_line (render_file path c) j \<noteq> None" and "length c + length new \<le> isize_max"
  shows "apply_exact_edits target c
      [\<lparr>edit_start_line = i, edit_end_line = j, old_text = copied_lines (render_file path c) i j, new_text = new\<rparr>]
    = Inr (concat (take (i - 1) (lines_of c)) @ new @ concat (drop j (lines_of c)))"
proof -
  let ?e = "\<lparr>edit_start_line = i, edit_end_line = j, old_text = copied_lines (render_file path c) i j, new_text = new\<rparr>"
  have len: "length (lines_of c) \<le> u64_max"
    using assms(6) lines_of_length[of c] by (simp add: isize_max_def u64_max_def)
  have j: "j \<le> length (lines_of c)"
    using assms(5) by (auto simp: shown_line_render[OF assms(2) len] split: if_splits)
  then have "c \<noteq> []" using assms by auto
  then have ls: "text_lines c = lines_of c" by (simp add: text_lines_def)
  have fits: "edit_fits (text_lines c) ?e"
    using assms j by (simp add: edit_fits_def ls copied_shown[OF assms(2) len])
  have "text_ok c" using assms by (simp add: text_ok_def isize_max_def usize_max_def)
  then have "apply_exact_edits target c [?e] = Inr (replaced_lines (text_lines c) [?e])"
    using apply_exact_edits_ok[of c "[?e]" target] fits assms(6) by (simp add: new_len_def)
  moreover have "replaced_lines (lines_of c) [?e] = spliced (lines_of c) 0 [?e]"
    unfolding replaced_lines_def One_nat_def
    by (rule spliced_lines[symmetric]) (use assms j in \<open>auto simp: in_order_def\<close>)
  ultimately show ?thesis by (simp add: ls)
qed

text \<open>A file without a final newline.\<close>

theorem shown_lines_can_be_edited_witness:
  "copied_lines (render_file ''f'' (''a'' @ [newline] @ ''b'')) 2 2 = ''b''
   \<and> apply_exact_edits ''f'' (''a'' @ [newline] @ ''b'')
      [\<lparr>edit_start_line = 2, edit_end_line = 2,
        old_text = copied_lines (render_file ''f'' (''a'' @ [newline] @ ''b'')) 2 2, new_text = ''z''\<rparr>]
     = Inr (''a'' @ [newline] @ ''z'')"
proof -
  let ?c = "''a'' @ [newline] @ ''b''"
  have u: "utf8_valid ?c" by (simp add: utf8_valid.simps scalar_len_def byte_def)
  have l: "lines_of ?c = [''a'' @ [newline], ''b'']" by simp
  have "newline \<notin> set ''f''" by simp
  note shown = shown_line_render[OF this, of ?c] copied_shown[OF this, of ?c 2 2]
  have "shown_line (render_file ''f'' ?c) 2 \<noteq> None"
    using shown(1) by (simp add: l u64_max_def)
  then show ?thesis
    using shown_lines_can_be_edited[OF u, of "''f''" 2 2 "''z''" "''f''"] shown(2)
    by (simp add: l isize_max_def u64_max_def numeral_2_eq_2)
qed

section \<open>A refresh that changes nothing\<close>

lemma enumerate_filter_unique:
  assumes "distinct (map snapshot_path ss)" "i < length ss"
  shows "previous_of ss (snapshot_path (ss ! i)) = Some (i, ss ! i)"
proof -
  have "filter (\<lambda>(_, s). snapshot_path s = snapshot_path (ss ! i)) (enumerate n ss) = [(n + i, ss ! i)]" for n
    using assms
  proof (induction ss arbitrary: i n)
    case (Cons s ss)
    show ?case
    proof (cases i)
      case 0
      have "filter (\<lambda>(_, s'). snapshot_path s' = snapshot_path s) (enumerate (Suc n) ss) = []"
        using Cons.prems(1) by (auto simp: filter_empty_conv enumerate_eq_zip image_iff dest!: set_zip_rightD)
      then show ?thesis using 0 by simp
    next
      case (Suc k)
      then have "snapshot_path s \<noteq> snapshot_path (ss ! k)" using Cons.prems by auto
      then show ?thesis using Suc Cons.IH[of k "Suc n"] Cons.prems by simp
    qed
  qed simp
  from this[of 0] show ?thesis by (simp add: previous_of_def)
qed

text \<open>Two snapshots of the same text of the same file.\<close>

definition same_snapshot :: "file_context_snapshot \<Rightarrow> file_context_snapshot \<Rightarrow> bool" where
  "same_snapshot a b =
     (snapshot_path a = snapshot_path b \<and> opened_event a = opened_event b \<and> snapshot_text a = snapshot_text b)"

lemma unchanged_same:
  assumes "distinct (map snapshot_path ss)" "i < length ss" "same_snapshot (ss ! i) x"
  shows "unchanged ss x = Some (i, ss ! i)"
  using enumerate_filter_unique[OF assms(1,2)] assms(3) by (simp add: unchanged_def same_snapshot_def)

lemma anchored_same [simp]: "same_snapshot (anchored prev R c l x) x"
  by (simp add: anchored_def same_snapshot_def)

lemma anchored_path [simp]: "snapshot_path (anchored prev R c l x) = snapshot_path x"
  by (simp add: anchored_def)

text \<open>Anchors a refresh gives stay as they are in the next.\<close>

definition settled :: "string set \<Rightarrow> string option \<Rightarrow> string \<Rightarrow> file_context_snapshot \<Rightarrow> bool" where
  "settled R compacted latest s = (anchor s \<in> R \<or> anchor s = (case compacted of Some c \<Rightarrow> c | None \<Rightarrow> latest))"

lemma anchored_settled: "latest \<in> R \<Longrightarrow> settled R compacted latest (anchored prev R compacted latest x)"
  by (auto simp: settled_def anchored_def split: option.splits prod.splits)

lemma refresh_snapshots_again:
  assumes paths: "distinct (map snapshot_path xs)" and lat: "latest \<in> R"
    and ss: "ss = refreshed_snapshots prev R compacted latest xs"
  shows "refreshed_snapshots ss R compacted latest xs = ss"
proof -
  let ?f = "anchored ss R compacted latest" and ?g = "anchored prev R compacted latest"
  have mset: "mset ss = mset (map ?g xs)" by (simp add: ss refreshed_snapshots_def)
  have set_ss: "set ss = ?g ` set xs" using mset_eq_setD[OF mset] by simp
  have "mset (map snapshot_path ss) = mset (map snapshot_path xs)"
    using arg_cong[OF mset, of "image_mset snapshot_path"]
    by (simp add: image_mset.compositionality o_def flip: mset_map)
  then have dist: "distinct (map snapshot_path ss)" using paths by (metis mset_eq_imp_distinct_iff)
  have len: "length ss = length xs" using mset by (metis length_map size_mset)
  have fix_g: "?f x = ?g x \<and> (\<exists>i < length ss. ss ! i = ?g x \<and> unchanged ss x = Some (i, ?g x))" if "x \<in> set xs" for x
  proof -
    have "?g x \<in> set ss" using that set_ss by blast
    then obtain i where i: "i < length ss" "ss ! i = ?g x" unfolding in_set_conv_nth by blast
    then have u: "unchanged ss x = Some (i, ?g x)" using unchanged_same[OF dist i(1), of x] by simp
    have "?f x = x\<lparr>anchor := anchor (?g x)\<rparr>"
      using u anchored_settled[OF lat, of compacted prev x]
      unfolding anchored_def[of ss] by (auto simp: settled_def)
    also have "\<dots> = ?g x" by (simp add: anchored_def)
    finally show ?thesis using i u by blast
  qed
  have key: "position_key ss (ss ! i) = i" if "i < length ss" for i
    using unchanged_same[OF dist that, of "ss ! i"] by (simp add: position_key_def same_snapshot_def)
  have "sorted (map (position_key ss) ss)" "distinct (map (position_key ss) ss)"
  proof -
    have "map (position_key ss) ss = [0..<length ss]" using key by (intro nth_equalityI) auto
    then show "sorted (map (position_key ss) ss)" "distinct (map (position_key ss) ss)" by simp_all
  qed
  moreover have mset_f: "mset (map ?f xs) = mset ss"
    unfolding mset by (rule arg_cong[where f = mset], rule map_cong[OF refl]) (use fix_g in blast)
  moreover have "distinct (map (position_key ss) (refreshed_snapshots ss R compacted latest xs))"
  proof -
    have "mset (map (position_key ss) (refreshed_snapshots ss R compacted latest xs)) = mset (map (position_key ss) ss)"
      using mset_f by (simp add: refreshed_snapshots_def)
    then show ?thesis using \<open>distinct (map (position_key ss) ss)\<close> by (metis mset_eq_imp_distinct_iff)
  qed
  moreover have "sorted (map (position_key ss) (refreshed_snapshots ss R compacted latest xs))"
    by (simp add: refreshed_snapshots_def)
  moreover have "set (refreshed_snapshots ss R compacted latest xs) = set ss"
    using mset_eq_setD[OF mset_f] by (simp add: refreshed_snapshots_def)
  moreover have "inj_on (position_key ss) (set ss)"
    using \<open>distinct (map (position_key ss) ss)\<close> by (simp add: distinct_map)
  ultimately show ?thesis by (intro map_sorted_distinct_set_unique[of "position_key ss"]) auto
qed

lemma snapshots_of_paths:
  "distinct (map pinned_path fs) \<Longrightarrow> distinct (map snapshot_path (snapshots_of (map (refresh_file reader at) fs)))
     \<and> snapshot_path ` set (snapshots_of (map (refresh_file reader at) fs)) \<subseteq> pinned_path ` set fs"
proof (induction fs)
  case Nil
  then show ?case by (simp add: snapshots_of_def List.map_filter_def)
next
  case (Cons f fs)
  have p: "snapshot_path x = pinned_path f" if "refresh_file reader at f = Inr x" for x
    using that by (auto simp: refresh_file_def Let_def split: sum.splits pinned_read_failure.splits)
  show ?case
    using Cons p by (cases "refresh_file reader at f") (auto simp: snapshots_of_def)
qed

lemma find_distinct:
  assumes "distinct (map k xs)" "x \<in> set xs"
  shows "find (\<lambda>y. k y = k x) xs = Some x"
  using assms by (induction xs) auto

lemma refresh_section_key [simp]:
  "instruction_key (fst (refresh_section previous latest R first sec)) = section_key sec"
  by (simp add: refresh_section_def Let_def split: prod.split)

lemma refresh_instructions_again:
  assumes "refresh_instructions previous current latest history = (new, notes)"
    and "distinct (map section_key current)" "latest \<in> message_id ` set history"
  shows "refresh_instructions new current latest history = (new, [])"
proof -
  let ?R = "set (map message_id history)" and ?first = "\<not> list_ex (\<lambda>m. is_assistant (message_content m)) history"
  let ?g = "\<lambda>sec. fst (refresh_section previous latest ?R ?first sec)"
  have new: "new = map ?g current" using assms(1) by (simp add: refresh_instructions_def Let_def o_def)
  have keep: "refresh_section new latest ?R first sec = (?g sec, [])" if "sec \<in> set current" for first sec
  proof -
    have "map instruction_key new = map section_key current" by (simp add: new)
    then have "distinct (map instruction_key new)" using assms(2) by simp
    moreover have "?g sec \<in> set new" using that unfolding new by simp
    ultimately have "old_instruction new sec = Some (?g sec)"
      using find_distinct[of instruction_key new "?g sec"] unfolding old_instruction_def by simp
    then show ?thesis
      using assms(3)
      by (auto simp: refresh_section_def Let_def split: option.splits prod.splits if_splits)
  qed
  have "filter (\<lambda>old. \<not> list_ex (\<lambda>sec. section_key sec = instruction_key old) current) new = []"
    by (auto simp: new filter_empty_conv list_ex_iff)
  moreover have "map (refresh_section new latest ?R ?first) current = map (\<lambda>sec. (?g sec, [])) current"
    by (rule map_cong[OF refl]) (rule keep)
  ultimately show ?thesis
    unfolding refresh_instructions_def Let_def by (simp add: new o_def)
qed

lemma save_snapshots_load:
  assumes "save_snapshots db leases fresh s through snaps [] = Inr db'" "context_load db s = Inr doc"
  shows "context_load db' s = Inr (doc\<lparr>snapshots := snaps\<rparr>)"
  using assms
  by (auto simp: save_snapshots_def result_simps Let_def context_load_written split: if_splits)

lemma save_instructions_load:
  assumes "save_instructions db leases s new = Inr db'" "context_load db s = Inr doc"
  shows "context_load db' s = Inr (doc\<lparr>instructions := new\<rparr>)"
  using assms by (auto simp: save_instructions_def result_simps context_load_written split: if_splits)

text \<open>C36. 
  Refreshing twice is refreshing once: when the first refresh unpinned no file and the newest message is
  in the history, a second refresh of the same conversation that reads the same files and instructions
  finds every file and every instruction in its place, reports nothing and does not touch the store, so
  the request a provider has cached is sent again unchanged.
\<close>

theorem refresh_is_stable:
  assumes "refresh_context_state reader db db leases fresh s latest history compacted secs = Inr (r, db1)"
    and "context_load db s = Inr doc" and "snd (snd (refresh_pinned_files reader (events doc) latest)) = []"
    and "latest \<in> message_id ` set history" and "distinct (map section_key secs)"
  shows "refresh_context_state reader db1 db1 leases fresh' s latest history compacted secs =
    Inr (r\<lparr>ctx_notifications := []\<rparr>, db1)"
proof -
  let ?R = "set (map message_id history)"
  let ?through = "if events doc = [] then None else Some (event_id (last (events doc)))"
  obtain raw said where raw: "refresh_pinned_files reader (events doc) latest = (raw, said, [])"
    using assms(3) by (metis prod.collapse)
  have "said = []"
    using raw by (auto simp: refresh_pinned_files_def Let_def)
  define snaps where "snaps = refreshed_snapshots (snapshots doc) ?R compacted latest raw"
  obtain new new_notes where ins: "refresh_instructions (instructions doc) secs latest history = (new, new_notes)"
    by (metis surj_pair)
  obtain dbs where saved: "save_snapshots db leases fresh s ?through snaps [] = Inr dbs"
    and rest: "(if new \<noteq> instructions doc then save_instructions dbs leases s new else Inr dbs) = Inr db1"
    and r: "r = \<lparr>ctx_snapshots = snaps, ctx_instructions = new, ctx_notifications = said @ new_notes\<rparr>"
    using assms(1,2)
    by (auto simp: refresh_context_state_def Let_def raw ins result_simps snaps_def split: if_splits)
  have "context_load dbs s = Inr (doc\<lparr>snapshots := snaps\<rparr>)" using saved assms(2) by (rule save_snapshots_load)
  then have load1: "context_load db1 s = Inr (doc\<lparr>snapshots := snaps, instructions := new\<rparr>)"
    using rest save_instructions_load[of dbs leases s new db1] by (auto split: if_splits)
  have "lease_columns dbs s = lease_columns db s" using snapshot_write.leases_kept[OF saved] .
  moreover have "lease_columns db1 s = lease_columns dbs s"
    using rest instruction_write.leases_kept[of dbs leases s new db1 s] by (auto split: if_splits)
  ultimately have own: "assert_owner db1 leases s = Inr ()"
    using snapshot_write.fenced[OF saved] by (simp add: assert_owner_iff)
  have "raw = snapshots_of (map (refresh_file reader latest) (opened_files (events doc)))"
    using raw by (simp add: refresh_pinned_files_def Let_def)
  then have "distinct (map snapshot_path raw)" using snapshots_of_paths[OF opened_files_distinct] by simp
  then have again: "refreshed_snapshots snaps ?R compacted latest raw = snaps"
    using refresh_snapshots_again[of raw latest ?R snaps] assms(4) snaps_def by auto
  have "save_snapshots db1 leases fresh' s ?through snaps [] = Inr db1"
    using own load1 by (simp add: save_snapshots_def)
  then show ?thesis
    using load1 raw again refresh_instructions_again[OF ins assms(5,4)] \<open>said = []\<close>
    by (auto simp: refresh_context_state_def Let_def r split: if_splits)
qed

definition sample_reader :: file_reader where
  "sample_reader = \<lparr>read_scoped = (\<lambda>_ _. Inr ''x''), read_regular = (\<lambda>_. Inr ''x'')\<rparr>"

theorem refresh_is_stable_witness:
  "\<exists>r db1. refresh_context_state sample_reader empty_database empty_database [] ''e'' ''s'' ''m1'' sample_history None
      [\<lparr>section_key = ''agents'', section_label = ''AGENTS.md'', section_text = ''rules''\<rparr>] = Inr (r, db1)
    \<and> refresh_context_state sample_reader db1 db1 [] ''f'' ''s'' ''m1'' sample_history None
      [\<lparr>section_key = ''agents'', section_label = ''AGENTS.md'', section_text = ''rules''\<rparr>] = Inr (r\<lparr>ctx_notifications := []\<rparr>, db1)"
proof -
  let ?secs = "[\<lparr>section_key = ''agents'', section_label = ''AGENTS.md'', section_text = ''rules''\<rparr>]"
  have load: "context_load empty_database ''s'' = Inr empty_document"
    by (simp add: context_load_def read_record_def empty_database_def)
  have own: "assert_owner empty_database [] ''s'' = Inr ()"
    by (simp add: assert_owner_iff lease_columns_def empty_database_def leases_get_def)
  have none: "refresh_pinned_files sample_reader (events empty_document) ''m1'' = ([], [], [])"
    by (simp add: refresh_pinned_files_def Let_def opened_files_def empty_document_def snapshots_of_def removals_of_def List.map_filter_def)
  obtain r db1 where run: "refresh_context_state sample_reader empty_database empty_database [] ''e'' ''s'' ''m1'' sample_history None ?secs
      = Inr (r, db1)"
    using own load none
    by (simp add: refresh_context_state_def refreshed_snapshots_def save_snapshots_def save_instructions_def Let_def
        empty_document_def refresh_instructions_def)
  have "distinct (map section_key ?secs)" "''m1'' \<in> message_id ` set sample_history"
    by (simp_all add: sample_history_def Requests.sample_message_def)
  with refresh_is_stable[OF run load, of "''f''"] none run show ?thesis by auto
qed

end
