(* ===== verification/Model_Context.thy ===== *)
theory Model_Context
  imports Context_Compaction File_Context
begin

text \<open>
  The context of the next model request (crates/kraai-agent manager/model_context.rs): the history is
  read back from the tip only as far as the latest checkpoint the model can use, and from it, the
  checkpoint and the file context the request is built; an estimate decides whether to compact first.
  The walk over pages takes a bound on their number, as in the history theory. Token sums are
  natural numbers.
\<close>

section \<open>Reading the history a request needs\<close>

fun is_user :: "conversation_item \<Rightarrow> bool" where
  "is_user (UserItem _) = True"
| "is_user _ = False"

text \<open>The state of the walk: the messages taken, whether a checkpoint covers the rest, whether a user
  message was seen.\<close>

type_synonym history_walk = "message list \<times> bool \<times> bool"

fun walk_page :: "(string \<Rightarrow> bool) \<Rightarrow> message list \<Rightarrow> history_walk \<Rightarrow> bool \<times> history_walk" where
  "walk_page boundary [] st = (False, st)"
| "walk_page boundary (m # page) (history, covered, found_user) =
     (let user = is_user (message_content m);
          history' = (if \<not> covered \<or> \<not> found_user \<and> user then history @ [m] else history);
          found_user' = (found_user \<or> user);
          covered' = (covered \<or> boundary (message_id m))
      in if covered' \<and> found_user' then (True, (history', covered', found_user'))
         else walk_page boundary page (history', covered', found_user'))"

fun model_history_loop ::
  "nat \<Rightarrow> (string \<Rightarrow> nat \<Rightarrow> (store_error, message list) result) \<Rightarrow> database \<Rightarrow> string \<Rightarrow> string
     \<Rightarrow> history_cursor \<Rightarrow> history_walk \<Rightarrow> (store_error, message list) result option" where
  "model_history_loop 0 rh db provider model cursor st = None"
| "model_history_loop (Suc n) rh db provider model cursor st =
     (case next_page rh (\<lambda>_. None) cursor of
        Inl e \<Rightarrow> Some (Inl e)
      | Inr (None, _) \<Rightarrow> Some (Inr (rev (fst st)))
      | Inr (Some page, cursor') \<Rightarrow>
          (case (if fst (snd st) then Inr [] else compatible_checkpoints db (map message_id page) provider model) of
             Inl e \<Rightarrow> Some (Inl e)
           | Inr boundaries \<Rightarrow>
               (case walk_page (\<lambda>k. bt_get boundaries k \<noteq> None) page st of
                  (True, st') \<Rightarrow> Some (Inr (rev (fst st')))
                | (False, st') \<Rightarrow> model_history_loop n rh db provider model cursor' st')))"

definition get_model_history ::
  "nat \<Rightarrow> (string \<Rightarrow> nat \<Rightarrow> (store_error, message list) result) \<Rightarrow> database \<Rightarrow> string \<Rightarrow> string \<Rightarrow> string
     \<Rightarrow> bool \<Rightarrow> (store_error, message list) result option" where
  "get_model_history n rh db from provider model latest_user_pending =
     model_history_loop n rh db provider model (cursor_new (Some from)) ([], False, latest_user_pending)"

section \<open>Building the request\<close>

record turn_system_prompt =
  prompt_prefix :: string
  prompt_instructions :: "instruction_section list"

record model_context =
  mc_request :: provider_request
  mc_compaction :: "context_compaction option"
  compact_first :: bool
  mc_notifications :: "string list"

datatype agent_error = NoConversationMessage | StoreError store_error

definition resume_point ::
  "(string \<Rightarrow> compaction_checkpoint option) \<Rightarrow> message list \<Rightarrow> nat \<times> compaction_checkpoint option" where
  "resume_point lookup history =
     (case find (\<lambda>(_, m). lookup (message_id m) \<noteq> None) (rev (enumerate 0 history)) of
        Some (index, m) \<Rightarrow> (index + 1, lookup (message_id m))
      | None \<Rightarrow> (0, None))"

fun without_item_images :: "conversation_item \<Rightarrow> conversation_item" where
  "without_item_images (UserItem content) = UserItem (without_images content)"
| "without_item_images item = item"

definition pinned_user :: "nat \<Rightarrow> message list \<Rightarrow> conversation_item option" where
  "pinned_user start history =
     (case find (\<lambda>(_, m). is_user (message_content m)) (rev (enumerate 0 history)) of
        Some (index, m) \<Rightarrow> if index < start then Some (without_item_images (message_content m)) else None
      | None \<Rightarrow> None)"

definition message_context_usage :: "message \<Rightarrow> token_usage option" where
  "message_context_usage m =
     (if message_role m = RoleAssistant \<and> message_status m = MessageComplete
      then Option.bind (generation m) generation_usage else None)"

definition reported_usage :: "string list \<Rightarrow> message list \<Rightarrow> (nat \<times> nat) option" where
  "reported_usage superseded history =
     (case List.map_filter (\<lambda>(index, m). map_option (\<lambda>u. (index, used_context_tokens u)) (message_context_usage m))
             (filter (\<lambda>(_, m). message_id m \<notin> set superseded) (rev (enumerate 0 history))) of
        [] \<Rightarrow> None | found # _ \<Rightarrow> Some found)"

definition insert_at :: "nat \<Rightarrow> 'a \<Rightarrow> 'a list \<Rightarrow> 'a list" where
  "insert_at i x xs = take i xs @ [x] @ drop i xs"

text \<open>The request once the file context is known.\<close>

definition context_request ::
  "turn_system_prompt \<Rightarrow> refreshed_context_state \<Rightarrow> compaction_checkpoint option \<Rightarrow> conversation_item option
     \<Rightarrow> message list \<Rightarrow> script_tool_definition option \<Rightarrow> model_option_values \<Rightarrow> provider_request" where
  "context_request prompt files previous pinned history tool options =
     (let request = assemble (prompt_prefix prompt) files previous history tool options;
          has_user = (case previous of None \<Rightarrow> False | Some p \<Rightarrow> list_ex is_user (replacement p));
          request = (case pinned of
                       Some user \<Rightarrow>
                         if has_user then request
                         else request\<lparr>request_messages := insert_at 1 user (request_messages request)\<rparr>
                     | None \<Rightarrow> request)
      in append_notifications request (ctx_notifications files))"

definition projected_tokens ::
  "(json \<Rightarrow> string option) \<Rightarrow> compaction_checkpoint option \<Rightarrow> message list \<Rightarrow> provider_request \<Rightarrow> nat" where
  "projected_tokens to_json previous history request =
     (let superseded = (case previous of None \<Rightarrow> [] | Some p \<Rightarrow> superseded_usage p);
          reported = reported_usage superseded history;
          unreported = sum_list (map (\<lambda>m. item_tokens to_json (message_content m))
            (drop (case reported of None \<Rightarrow> 0 | Some (index, _) \<Rightarrow> index + 1) history));
          request_tokens = sum_list (map (item_tokens to_json) (request_messages request))
      in max (case reported of None \<Rightarrow> 0 | Some (_, used) \<Rightarrow> sat_add used unreported) request_tokens)"

definition build_model_context ::
  "(json \<Rightarrow> string option) \<Rightarrow> file_reader \<Rightarrow> database \<Rightarrow> database \<Rightarrow> lease_tokens \<Rightarrow> string \<Rightarrow> string
     \<Rightarrow> message list \<Rightarrow> turn_system_prompt \<Rightarrow> script_tool_definition option \<Rightarrow> nat option \<Rightarrow> model_selection
     \<Rightarrow> (agent_error, model_context \<times> database) result" where
  "build_model_context to_json reader seen db leases fresh s history prompt tool max_context selection =
     bindR (case compatible_checkpoints seen (map message_id history) (selection_provider_id selection)
              (selection_model_id selection) of
              Inl e \<Rightarrow> Inl (StoreError e) | Inr found \<Rightarrow> Inr found) (\<lambda>checkpoints.
     let (start, previous) = resume_point (bt_get checkpoints) history;
         pinned = pinned_user start history
     in bindR (if history = [] then Inl NoConversationMessage else Inr (message_id (last history))) (\<lambda>latest.
        let history = drop start history
        in bindR (case refresh_context_state reader seen db leases fresh s latest history
                    (map_option covered_through previous) (prompt_instructions prompt) of
                    Inl e \<Rightarrow> Inl (StoreError e) | Inr r \<Rightarrow> Inr r) (\<lambda>(files, db').
           let request = context_request prompt files previous pinned history tool (selection_options selection);
               covered = (if history = [] then None else Some (message_id (last history)))
           in Inr (\<lparr>mc_request = request,
                    mc_compaction =
                      (if covered = None then None
                       else Some \<lparr>compaction_prefix = prompt_prefix prompt, compaction_context = files,
                              compaction_covered = covered,
                              compaction_previous = map_option covered_through previous\<rparr>),
                    compact_first =
                      (case max_context of
                         None \<Rightarrow> False
                       | Some limit \<Rightarrow>
                           0 < limit \<and> compaction_point limit \<le> projected_tokens to_json previous history request),
                    mc_notifications = ctx_notifications files\<rparr>, db'))))"

section \<open>The messages a request needs\<close>

text \<open>The reference, on the whole chain from the newest message: everything up to the first boundary,
  and the latest user message when it is older than that and none is pending.\<close>

definition up_to_boundary :: "(string \<Rightarrow> bool) \<Rightarrow> message list \<Rightarrow> message list" where
  "up_to_boundary boundary ms =
     takeWhile (\<lambda>m. \<not> boundary (message_id m)) ms @ take 1 (dropWhile (\<lambda>m. \<not> boundary (message_id m)) ms)"

definition covered_part :: "(string \<Rightarrow> bool) \<Rightarrow> message list \<Rightarrow> message list" where
  "covered_part boundary ms = drop 1 (dropWhile (\<lambda>m. \<not> boundary (message_id m)) ms)"

abbreviation user_message :: "message \<Rightarrow> bool" where
  "user_message m \<equiv> is_user (message_content m)"

definition first_user :: "message list \<Rightarrow> message list" where
  "first_user ms = (case find user_message ms of None \<Rightarrow> [] | Some u \<Rightarrow> [u])"

definition needed :: "(string \<Rightarrow> bool) \<Rightarrow> bool \<Rightarrow> message list \<Rightarrow> message list" where
  "needed boundary pending ms =
     up_to_boundary boundary ms
     @ (if pending \<or> list_ex user_message (up_to_boundary boundary ms) then []
        else first_user (covered_part boundary ms))"

lemma needed_Nil [simp]: "needed boundary pending [] = []"
  by (simp add: needed_def up_to_boundary_def covered_part_def first_user_def)

lemma needed_boundary:
  "boundary (message_id m) \<Longrightarrow> needed boundary pending (m # ms) =
     m # (if pending \<or> user_message m then [] else first_user ms)"
  by (simp add: needed_def up_to_boundary_def covered_part_def)

lemma needed_step:
  "\<not> boundary (message_id m) \<Longrightarrow> needed boundary pending (m # ms) = m # needed boundary (pending \<or> user_message m) ms"
  by (simp add: needed_def up_to_boundary_def covered_part_def)

lemma walk_covered: "fst (snd (walk_page boundary ms (h, True, False))) = h @ first_user ms"
  by (induction ms arbitrary: h) (auto simp: first_user_def Let_def)

lemma walk_needed: "fst (snd (walk_page boundary ms (h, False, pending))) = h @ needed boundary pending ms"
proof (induction ms arbitrary: h pending)
  case Nil
  then show ?case by simp
next
  case (Cons m ms)
  show ?case
  proof (cases "boundary (message_id m)")
    case True
    then show ?thesis by (auto simp: Let_def needed_boundary walk_covered)
  next
    case False
    then show ?thesis by (auto simp: Let_def needed_step Cons.IH)
  qed
qed

lemma walk_page_append:
  "walk_page boundary (xs @ ys) st =
     (case walk_page boundary xs st of (True, st') \<Rightarrow> (True, st') | (False, st') \<Rightarrow> walk_page boundary ys st')"
  by (induction boundary xs st rule: walk_page.induct) (auto simp: Let_def)

lemma walk_cong:
  "(\<And>m. m \<in> set ms \<Longrightarrow> f (message_id m) = g (message_id m)) \<Longrightarrow> walk_page f ms st = walk_page g ms st"
  by (induction g ms st rule: walk_page.induct) (auto simp: Let_def)

lemma walk_covered_any: "fst (snd st) \<Longrightarrow> walk_page f ms st = walk_page g ms st"
  by (induction g ms st rule: walk_page.induct) (auto simp: Let_def)

section \<open>Checkpoints a model can use\<close>

definition usable_checkpoint :: "database \<Rightarrow> string \<Rightarrow> string \<Rightarrow> string \<Rightarrow> compaction_checkpoint option" where
  "usable_checkpoint db provider model k =
     (case read_record as_compaction db ''compaction'' k of
        Inr (Some c) \<Rightarrow> if covered_through c = k \<and> compatible_with c provider model then Some c else None
      | _ \<Rightarrow> None)"

definition checkpoints_valid :: "database \<Rightarrow> bool" where
  "checkpoints_valid db =
     list_all (\<lambda>((kind, _), row). kind = ''compaction'' \<longrightarrow>
       (case as_compaction (record_data_of row) of Some c \<Rightarrow> checkpoint_validate c = Inr () | None \<Rightarrow> False)) (records db)"

lemma collect_valid:
  "(\<And>row. row \<in> set rows \<Longrightarrow> \<exists>c. as_compaction (record_data_of row) = Some c \<and> checkpoint_validate c = Inr ())
    \<Longrightarrow> \<exists>found'. foldR (collect_checkpoint provider model) found rows = Inr found'"
proof (induction rows arbitrary: found)
  case (Cons row rows)
  then obtain c where "as_compaction (record_data_of row) = Some c" "checkpoint_validate c = Inr ()" by auto
  then obtain f where "collect_checkpoint provider model found row = Inr f" by (simp add: collect_checkpoint_def)
  then show ?case using Cons by simp
qed simp

lemma compatible_checkpoints_found:
  assumes "checkpoints_valid db"
  shows "\<exists>found. compatible_checkpoints db ks provider model = Inr found"
  unfolding compatible_checkpoints_def
proof (rule collect_valid)
  fix row
  assume "row \<in> set (map snd (filter (\<lambda>((kind, k), _). kind = ''compaction'' \<and> k \<in> set ks) (records db)))"
  then obtain k where "((''compaction'', k), row) \<in> set (records db)" by auto
  then show "\<exists>c. as_compaction (record_data_of row) = Some c \<and> checkpoint_validate c = Inr ()"
    using assms unfolding checkpoints_valid_def list_all_iff by (fastforce split: option.splits)
qed

lemma found_usable:
  assumes "db_wf db" "checkpoints_keyed db" "compatible_checkpoints db ks provider model = Inr found"
  shows "bt_get found k = (if k \<in> set ks then usable_checkpoint db provider model k else None)"
proof -
  have "bt_get found k = Some c \<longleftrightarrow> (if k \<in> set ks then usable_checkpoint db provider model k else None) = Some c" for c
    using compatible_checkpoints_get[OF assms, of k c]
    by (auto simp: usable_checkpoint_def compatible_with_def split: sum.splits option.splits)
  then show ?thesis by (metis not_None_eq)
qed

abbreviation is_boundary :: "database \<Rightarrow> string \<Rightarrow> string \<Rightarrow> string \<Rightarrow> bool" where
  "is_boundary db provider model k \<equiv> usable_checkpoint db provider model k \<noteq> None"

lemma model_history_walk:
  assumes db: "db_wf db" "checkpoints_keyed db" "checkpoints_valid db"
    and "cursor_at get cur ks ms" "length ms < n"
  shows "model_history_loop n (read_history get) db provider model cur st =
    Some (Inr (rev (fst (snd (walk_page (is_boundary db provider model) ms st)))))"
  using assms(4,5)
proof (induction n arbitrary: cur ks ms st)
  case (Suc n)
  show ?case
  proof (cases "ms = []")
    case True
    then show ?thesis using next_page_done Suc.prems(1) by simp
  next
    case False
    let ?p = "take (page_size cur) ms" and ?B = "is_boundary db provider model"
    obtain cur' where next1: "next_page (read_history get) no_overlay cur = Inr (Some ?p, cur')"
      and cur': "cursor_at get cur' (drop (page_size cur) ks) (drop (page_size cur) ms)"
      using next_page_some[OF Suc.prems(1) False] by blast
    have "0 < page_size cur" using Suc.prems(1) by (simp add: cursor_at_def)
    then have shorter: "length (drop (page_size cur) ms) < n" using Suc.prems(2) False by (cases ms) auto
    obtain found where found: "(if fst (snd st) then Inr [] else compatible_checkpoints db (map message_id ?p) provider model) = Inr found"
      using compatible_checkpoints_found[OF db(3)] by (metis (full_types))
    have page: "walk_page (\<lambda>k. bt_get found k \<noteq> None) ?p st = walk_page ?B ?p st"
    proof (cases "fst (snd st)")
      case True
      then show ?thesis by (rule walk_covered_any)
    next
      case False
      then have "compatible_checkpoints db (map message_id ?p) provider model = Inr found" using found by simp
      note get = found_usable[OF db(1,2) this]
      show ?thesis by (rule walk_cong) (simp add: get)
    qed
    obtain stop st' where w: "walk_page ?B ?p st = (stop, st')" by (metis surj_pair)
    have all: "walk_page ?B ms st = (if stop then (True, st') else walk_page ?B (drop (page_size cur) ms) st')"
      using walk_page_append[of ?B ?p "drop (page_size cur) ms" st] w by (cases stop) simp_all
    show ?thesis
    proof (cases stop)
      case True
      then show ?thesis using next1 found page w all by simp
    next
      case False
      then show ?thesis using next1 found page w all Suc.IH[OF cur' shorter, of st'] by simp
    qed
  qed
qed simp

lemma cursor_at_new:
  assumes "read_history get tip limit = Inr ms" "length ms < limit"
  shows "\<exists>ks. cursor_at get (cursor_new (Some tip)) ks ms"
proof -
  obtain ks c' where "walk get (Some tip) ks ms c'" "distinct ks" "c' = None \<or> limit \<le> length ms"
    using assms(1) unfolding read_history_def chain_loop_walk by auto
  then show ?thesis using assms(2) by (auto simp: cursor_at_def cursor_new_def)
qed

text \<open>
  The history read for a request is exactly what it needs of the conversation: everything since the
  latest checkpoint the model can use, that boundary included, and the latest user message when it
  is older and none is pending; the walk over pages ends and agrees with the whole chain.
\<close>

theorem model_history_exact:
  assumes "db_wf db" and "checkpoints_keyed db" and "checkpoints_valid db"
    and "read_history get tip limit = Inr ms" and "length ms < limit"
  shows "get_model_history (Suc (length ms)) (read_history get) db tip provider model pending =
    Some (Inr (rev (needed (is_boundary db provider model) pending ms)))"
proof -
  obtain ks where "cursor_at get (cursor_new (Some tip)) ks ms" using cursor_at_new[OF assms(4,5)] by blast
  from model_history_walk[OF assms(1-3) this lessI] show ?thesis
    by (simp only: get_model_history_def walk_needed append_Nil)
qed

section \<open>Nothing the request needs is left out\<close>

lemma resume_cong:
  assumes "\<And>m. m \<in> set hist \<Longrightarrow> f (message_id m) = g (message_id m)"
  shows "resume_point f hist = resume_point g hist"
proof -
  have mem: "m \<in> set hist" if "(i, m) \<in> set (rev (enumerate 0 hist))" for i m
    using that by (auto simp: enumerate_eq_zip dest: set_zip_rightD)
  have "find (\<lambda>(_, m). f (message_id m) \<noteq> None) (rev (enumerate 0 hist)) =
      find (\<lambda>(_, m). g (message_id m) \<noteq> None) (rev (enumerate 0 hist))"
    by (rule find_cong[OF refl]) (use mem assms in auto)
  moreover have "m \<in> set hist" if "find (\<lambda>(_, m). g (message_id m) \<noteq> None) (rev (enumerate 0 hist)) = Some (i, m)" for i m
    using that mem by (metis find_Some_iff nth_mem)
  ultimately show ?thesis using assms by (auto simp: resume_point_def split: option.splits)
qed

lemma enumerate_append: "enumerate n (xs @ ys) = enumerate n xs @ enumerate (n + length xs) ys"
  by (induction xs arbitrary: n) auto

lemma find_enumerate_None:
  "find (\<lambda>(_, m). P m) (rev (enumerate n ms)) = None \<longleftrightarrow> \<not> list_ex P ms"
  by (auto simp: find_None_iff list_ex_iff enumerate_eq_zip set_zip in_set_conv_nth Ball_def)

lemma resume_at:
  assumes "lookup (message_id b) = Some c" "\<And>m. m \<in> set post \<Longrightarrow> lookup (message_id m) = None"
  shows "resume_point lookup (pre @ b # post) = (Suc (length pre), Some c)"
proof -
  have "find (\<lambda>(_, m). lookup (message_id m) \<noteq> None) (rev (enumerate (Suc (length pre)) post)) = None"
    unfolding find_enumerate_None using assms(2) by (auto simp: list_ex_iff)
  then show ?thesis using assms(1) by (simp add: resume_point_def enumerate_append find_append)
qed

text \<open>The last user message counts only when it is before the start.\<close>

lemma find_enumerate:
  "map_option snd (find (\<lambda>(_, m). P m) (rev (enumerate n ms))) = find P (rev ms)"
  by (induction ms arbitrary: n rule: rev_induct) (auto simp: enumerate_append)

lemma pinned_split:
  assumes "start = length pre"
  shows "pinned_user start (pre @ post) =
    (if list_ex user_message post then None
     else map_option (\<lambda>m. without_item_images (message_content m)) (find user_message (rev pre)))"
proof (cases "find (\<lambda>(_, m). user_message m) (rev (enumerate (length pre) post))")
  case None
  then have no: "\<not> list_ex user_message post" unfolding find_enumerate_None .
  have "i < length pre" if "find (\<lambda>(_, m). user_message m) (rev (enumerate 0 pre)) = Some (i, m)" for i m
  proof -
    have "(i, m) \<in> set (enumerate 0 pre)" using that by (metis find_Some_iff nth_mem set_rev)
    then show ?thesis by (auto simp: enumerate_eq_zip dest: set_zip_leftD)
  qed
  then show ?thesis
    using None no assms find_enumerate[of user_message 0 pre, symmetric]
    by (auto simp: pinned_user_def enumerate_append find_append split: option.splits)
next
  case (Some im)
  obtain i m where im: "im = (i, m)" by (cases im)
  have "(i, m) \<in> set (enumerate (length pre) post)" using Some im by (metis find_Some_iff nth_mem set_rev)
  then have "length pre \<le> i" by (auto simp: enumerate_eq_zip dest: set_zip_leftD)
  moreover have "list_ex user_message post" using Some find_enumerate_None[of user_message "length pre" post] by auto
  ultimately show ?thesis
    using Some im assms by (simp add: pinned_user_def enumerate_append find_append)
qed

text \<open>All that the request takes from a history.\<close>

definition context_view ::
  "(string \<Rightarrow> compaction_checkpoint option) \<Rightarrow> message list
     \<Rightarrow> compaction_checkpoint option \<times> conversation_item option \<times> string option \<times> message list" where
  "context_view lookup history =
     (let (start, previous) = resume_point lookup history
      in (previous, pinned_user start history,
          if history = [] then None else Some (message_id (last history)), drop start history))"

lemma first_user_find: "find user_message (first_user ms) = find user_message ms"
proof (cases "find user_message ms")
  case (Some u)
  then have "user_message u" by (metis find_Some_iff)
  then show ?thesis using Some by (simp add: first_user_def)
qed (simp add: first_user_def)

lemma needed_view:
  assumes "list_all user_message pending" "\<And>m. m \<in> set pending \<Longrightarrow> lookup (message_id m) = None"
  shows "context_view lookup (rev (needed (\<lambda>k. lookup k \<noteq> None) (pending \<noteq> []) ms) @ pending) =
    context_view lookup (rev ms @ pending)"
proof (cases "dropWhile (\<lambda>m. lookup (message_id m) = None) ms")
  case Nil
  then have all: "takeWhile (\<lambda>m. lookup (message_id m) = None) ms = ms"
    by (metis append_Nil2 takeWhile_dropWhile_id)
  show ?thesis by (simp add: needed_def up_to_boundary_def covered_part_def first_user_def Nil all)
next
  case (Cons b rest)
  let ?a = "takeWhile (\<lambda>m. lookup (message_id m) = None) ms"
  let ?extra = "if pending \<noteq> [] \<or> list_ex user_message (?a @ [b]) then [] else first_user rest"
  have ms: "ms = ?a @ b # rest" using Cons by (metis takeWhile_dropWhile_id)
  obtain c where c: "lookup (message_id b) = Some c"
    using Cons by (metis (mono_tags, lifting) hd_dropWhile list.distinct(1) list.sel(1) not_None_eq)
  have post: "lookup (message_id m) = None" if "m \<in> set (rev ?a @ pending)" for m
    using that assms(2) by (auto dest: set_takeWhileD)
  have need: "needed (\<lambda>k. lookup k \<noteq> None) (pending \<noteq> []) ms = ?a @ [b] @ ?extra"
    using Cons by (simp add: needed_def up_to_boundary_def covered_part_def)
  have view: "context_view lookup (pre @ b # (rev ?a @ pending)) =
      (Some c, if list_ex user_message (rev ?a @ pending) then None
         else map_option (\<lambda>m. without_item_images (message_content m)) (find user_message (b # rev pre)),
       Some (message_id (last (b # rev ?a @ pending))), rev ?a @ pending)" for pre
    using resume_at[of lookup b c "rev ?a @ pending" pre, OF c post] pinned_split[of "Suc (length pre)" "pre @ [b]" "rev ?a @ pending"]
    by (simp add: context_view_def)
  have "find user_message (b # ?extra) = find user_message (b # rest)"
    if none: "\<not> list_ex user_message (rev ?a @ pending)"
  proof -
    have "pending = []" using none assms(1) by (cases pending) auto
    then show ?thesis using none first_user_find[of rest] by (auto simp: list_ex_iff)
  qed
  then have "context_view lookup (rev ?extra @ b # (rev ?a @ pending)) = context_view lookup (rev rest @ b # (rev ?a @ pending))"
    unfolding view by auto
  moreover have "rev ms @ pending = rev rest @ b # (rev ?a @ pending)"
    by (subst ms) simp
  ultimately show ?thesis unfolding need by simp
qed

lemma context_view_cong:
  "(\<And>m. m \<in> set hist \<Longrightarrow> f (message_id m) = g (message_id m)) \<Longrightarrow> context_view f hist = context_view g hist"
  using resume_cong[of hist f g] by (simp add: context_view_def)

text \<open>Building the request from its view of the history.\<close>

lemma build_from_view:
  assumes "db_wf seen" "checkpoints_keyed seen" "checkpoints_valid seen"
    and "context_view (usable_checkpoint seen (selection_provider_id selection) (selection_model_id selection)) hist =
      context_view (usable_checkpoint seen (selection_provider_id selection) (selection_model_id selection)) hist'"
  shows "build_model_context to_json reader seen db leases fresh s hist prompt tool max_context selection =
    build_model_context to_json reader seen db leases fresh s hist' prompt tool max_context selection"
proof -
  let ?p = "selection_provider_id selection" and ?m = "selection_model_id selection"
  obtain found where f: "compatible_checkpoints seen (map message_id hist) ?p ?m = Inr found"
    using compatible_checkpoints_found[OF assms(3)] by blast
  obtain found' where f': "compatible_checkpoints seen (map message_id hist') ?p ?m = Inr found'"
    using compatible_checkpoints_found[OF assms(3)] by blast
  have "context_view (bt_get found) hist = context_view (usable_checkpoint seen ?p ?m) hist"
    by (rule context_view_cong) (simp add: found_usable[OF assms(1,2) f])
  moreover have "context_view (bt_get found') hist' = context_view (usable_checkpoint seen ?p ?m) hist'"
    by (rule context_view_cong) (simp add: found_usable[OF assms(1,2) f'])
  ultimately have view: "context_view (bt_get found) hist = context_view (bt_get found') hist'"
    using assms(4) by simp
  obtain start previous where r: "resume_point (bt_get found) hist = (start, previous)" by (metis surj_pair)
  obtain start' previous' where r': "resume_point (bt_get found') hist' = (start', previous')" by (metis surj_pair)
  have eqs: "previous = previous'" "pinned_user start hist = pinned_user start' hist'"
    "drop start hist = drop start' hist'" "hist = [] \<longleftrightarrow> hist' = []"
    and last_eq: "hist \<noteq> [] \<Longrightarrow> message_id (last hist) = message_id (last hist')"
    using view r r' by (auto simp: context_view_def split: if_splits)
  have latest: "(if hist = [] then Inl NoConversationMessage else Inr (message_id (last hist))) =
      (if hist' = [] then Inl NoConversationMessage else Inr (message_id (last hist')))"
    using eqs(4) last_eq by auto
  show ?thesis
    unfolding build_model_context_def f f' sum.case bindR_Inr Let_def r r' case_prod_conv eqs(1-3) latest by (rule refl)
qed

text \<open>C14. 
  The request built from the part of the history that is read is the request built from the whole
  conversation: reading back only to the latest usable checkpoint leaves out nothing the model
  would have been shown, also when new user messages are about to be added.
\<close>

theorem partial_history_suffices:
  assumes "db_wf db" and "checkpoints_keyed db" and "checkpoints_valid db"
    and "read_history get tip limit = Inr ms" and "length ms < limit"
    and "list_all user_message pending"
    and "list_all (\<lambda>m. usable_checkpoint db (selection_provider_id selection) (selection_model_id selection) (message_id m) = None) pending"
  shows "\<exists>part. get_model_history (Suc (length ms)) (read_history get) db tip (selection_provider_id selection)
        (selection_model_id selection) (pending \<noteq> []) = Some (Inr part)
    \<and> build_model_context to_json reader db db' leases fresh s (part @ pending) prompt tool max_context selection =
      build_model_context to_json reader db db' leases fresh s (rev ms @ pending) prompt tool max_context selection"
proof -
  let ?B = "is_boundary db (selection_provider_id selection) (selection_model_id selection)"
  obtain ks where c: "cursor_at get (cursor_new (Some tip)) ks ms" using cursor_at_new[OF assms(4,5)] by blast
  have part: "get_model_history (Suc (length ms)) (read_history get) db tip (selection_provider_id selection)
        (selection_model_id selection) (pending \<noteq> []) = Some (Inr (rev (needed ?B (pending \<noteq> []) ms)))"
    using model_history_walk[OF assms(1-3) c lessI] by (simp only: get_model_history_def walk_needed append_Nil)
  have "build_model_context to_json reader db db' leases fresh s (rev (needed ?B (pending \<noteq> []) ms) @ pending) prompt tool max_context selection
      = build_model_context to_json reader db db' leases fresh s (rev ms @ pending) prompt tool max_context selection"
    by (rule build_from_view[OF assms(1-3)], rule needed_view[OF assms(6)])
      (use assms(7) in \<open>auto simp: list_all_iff\<close>)
  then show ?thesis using part by blast
qed

section \<open>Witnesses\<close>

definition chat_get :: store_get where
  "chat_get k = Inr (if k = ''b'' then Some ((Requests.sample_message ''b'' (UserItem [TextPart ''go on'']))\<lparr>parent_id := Some ''a''\<rparr>)
     else if k = ''a'' then Some (Requests.sample_message ''a'' (UserItem [TextPart ''hi''])) else None)"

lemma chat_history:
  "read_history chat_get ''b'' 9 = Inr [(Requests.sample_message ''b'' (UserItem [TextPart ''go on'']))\<lparr>parent_id := Some ''a''\<rparr>,
     Requests.sample_message ''a'' (UserItem [TextPart ''hi''])]"
  by (simp add: read_history_def chain_loop.simps chat_get_def Requests.sample_message_def)

text \<open>A store with one checkpoint, at the older message.\<close>

definition checkpoint_db :: database where
  "checkpoint_db = empty_database\<lparr>records := [((''compaction'', ''a''),
     \<lparr>record_session_id = None, record_data_of = CompactionRecord (sample_checkpoint\<lparr>covered_through := ''a''\<rparr>)\<rparr>)]\<rparr>"

lemma checkpoint_db_ok: "db_wf checkpoint_db" "checkpoints_keyed checkpoint_db" "checkpoints_valid checkpoint_db"
proof -
  have "validate_message_id ''a'' = Inr ()"
    by (simp add: validate_message_id_def validate_id_def message_id_byte_def is_ascii_alphanumeric_def byte_def is_ascii_digit_def)
  then show "checkpoints_valid checkpoint_db"
    by (simp add: checkpoints_valid_def checkpoint_db_def checkpoint_validate_def sample_checkpoint_def check_message_id_def id_try_new_def)
qed (simp_all add: checkpoint_db_def empty_database_def db_wf_def bt_wf_def table_all_def record_row_ok_def checkpoints_keyed_def)

theorem model_history_exact_witness:
  "get_model_history 3 (read_history chat_get) checkpoint_db ''b'' ''p'' ''q'' False =
     Some (Inr [Requests.sample_message ''a'' (UserItem [TextPart ''hi'']),
       (Requests.sample_message ''b'' (UserItem [TextPart ''go on'']))\<lparr>parent_id := Some ''a''\<rparr>])"
proof -
  have "usable_checkpoint checkpoint_db ''p'' ''q'' ''a'' \<noteq> None" "usable_checkpoint checkpoint_db ''p'' ''q'' ''b'' = None"
    by (simp_all add: usable_checkpoint_def checkpoint_db_def read_record_def sample_checkpoint_def compatible_with_def empty_database_def)
  then show ?thesis
    using model_history_exact[OF checkpoint_db_ok chat_history, of "''p''" "''q''" False]
    by (auto simp: needed_step needed_boundary Requests.sample_message_def eval_nat_numeral)
qed

theorem partial_history_suffices_witness:
  "\<exists>part. get_model_history 3 (read_history chat_get) checkpoint_db ''b'' ''p'' ''q'' False = Some (Inr part)
    \<and> build_model_context (\<lambda>_. None) sample_reader checkpoint_db checkpoint_db [] ''e'' ''s'' part
        \<lparr>prompt_prefix = ''p'', prompt_instructions = []\<rparr> None None
        \<lparr>selection_provider_id = ''p'', selection_model_id = ''q'', selection_options = []\<rparr> =
      build_model_context (\<lambda>_. None) sample_reader checkpoint_db checkpoint_db [] ''e'' ''s''
        [Requests.sample_message ''a'' (UserItem [TextPart ''hi'']),
         (Requests.sample_message ''b'' (UserItem [TextPart ''go on'']))\<lparr>parent_id := Some ''a''\<rparr>]
        \<lparr>prompt_prefix = ''p'', prompt_instructions = []\<rparr> None None
        \<lparr>selection_provider_id = ''p'', selection_model_id = ''q'', selection_options = []\<rparr>"
  using partial_history_suffices[OF checkpoint_db_ok chat_history, of "[]"
      "\<lparr>selection_provider_id = ''p'', selection_model_id = ''q'', selection_options = []\<rparr>" "\<lambda>_. None" sample_reader
      checkpoint_db "[]" "''e''" "''s''" "\<lparr>prompt_prefix = ''p'', prompt_instructions = []\<rparr>" None None]
  by (simp add: numeral_3_eq_3)

end
