(* ===== verification/Chat_Stream.thy ===== *)
theory Chat_Stream
  imports Provider_Stream
begin

text \<open>
  The decoder of the chat-completions provider (crates/llm-providers/
  kraai-provider-openai-chat-completions, streaming.rs, reasoning.rs, usage.rs and the response half
  of wire.rs): chunks with fragments of text, reasoning and tool calls become the events of a reply.
  Reading and writing JSON is serde's and an argument, as is the conversion of a JSON number to a
  dollar amount, which works on floats. A JSON object keeps its members in insertion order. After an
  error the adapter never calls the decoder again, so the completion an error leaves behind is not
  recorded.
\<close>

section \<open>The wire\<close>

record reasoning =
  reasoning_content :: "string option"
  reasoning_plain :: "string option"
  reasoning_text :: "string option"
  reasoning_details :: "(string \<times> json) list list option"
  accumulated_bytes :: nat

definition reasoning_default :: reasoning where
  "reasoning_default =
     \<lparr>reasoning_content = None, reasoning_plain = None, reasoning_text = None,
      reasoning_details = None, accumulated_bytes = 0\<rparr>"

record function_delta =
  fn_name :: "string option"
  fn_arguments :: "string option"

record tool_call_delta =
  td_index :: nat
  td_id :: "string option"
  td_kind :: "string option"
  td_function :: "function_delta option"

record chunk_delta =
  cd_reasoning :: reasoning
  cd_content :: "string option"
  cd_tool_calls :: "tool_call_delta list option"
  cd_refusal :: "string option"

record chunk_choice =
  choice_index :: nat
  choice_delta :: chunk_delta
  choice_finish :: "string option"

record chat_error =
  chat_error_message :: string
  chat_error_code :: "json option"

record chat_usage =
  wire_cost :: "json option"
  wire_cost_details :: "json option"
  prompt_tokens :: nat
  completion_tokens :: nat
  wire_total_tokens :: "nat option"
  prompt_details :: "(nat option \<times> nat option) option"
  completion_details :: "nat option option"

record chat_chunk =
  chunk_error :: "chat_error option"
  chunk_choices :: "chunk_choice list"
  chunk_usage :: "chat_usage option"

text \<open>What the decoder takes from serde, the clock and the float conversion.\<close>

record chat_codec =
  parse_chunk :: "string \<Rightarrow> (string, chat_chunk) result"
  parse_arguments :: "string \<Rightarrow> (string, string) result"
  reasoning_json :: "reasoning \<Rightarrow> (string, json) result"
  reasoning_bytes :: "reasoning \<Rightarrow> (string, nat) result"
  dollars :: "json \<Rightarrow> nat option"
  unix_seconds :: nat

section \<open>Reasoning\<close>

definition MAX_REASONING_BYTES :: nat where
  "MAX_REASONING_BYTES = 4 * 1024 * 1024"

definition reasoning_is_empty :: "reasoning \<Rightarrow> bool" where
  "reasoning_is_empty r =
     (reasoning_content r = None \<and> reasoning_plain r = None \<and> reasoning_text r = None
      \<and> (case reasoning_details r of None \<Rightarrow> True | Some ds \<Rightarrow> ds = []))"

definition display_text :: "reasoning \<Rightarrow> string option" where
  "display_text r =
     find (\<lambda>t. t \<noteq> []) (List.map_filter id [reasoning_content r, reasoning_plain r, reasoning_text r])"

definition non_null :: "json option \<Rightarrow> json option" where
  "non_null v = (if v = Some JNull then None else v)"

definition content_field :: "(string \<times> json) list \<Rightarrow> string option" where
  "content_field detail =
     (case Option.bind (map_of detail ''type'') json_as_str of
        None \<Rightarrow> None
      | Some t \<Rightarrow> if t = ''reasoning.text'' then Some ''text''
          else if t = ''reasoning.summary'' then Some ''summary'' else None)"

definition continues :: "(string \<times> json) list \<Rightarrow> (string \<times> json) list \<Rightarrow> bool" where
  "continues detail previous =
     (content_field detail \<noteq> None
      \<and> map_of previous ''type'' = map_of detail ''type''
      \<and> list_all (\<lambda>key. let p = non_null (map_of previous key); c = non_null (map_of detail key)
                        in p = None \<or> c = None \<or> p = c) [''id'', ''index'', ''format''])"

text \<open>\<open>Map::insert\<close>: a present key keeps its place.\<close>

definition member_insert :: "string \<Rightarrow> json \<Rightarrow> (string \<times> json) list \<Rightarrow> (string \<times> json) list" where
  "member_insert key v m =
     (if key \<in> fst ` set m then bt_update key (\<lambda>_. v) m else m @ [(key, v)])"

definition merge_member ::
  "string option \<Rightarrow> (string \<times> json) list \<Rightarrow> string \<times> json \<Rightarrow> (decode_error, (string \<times> json) list) result" where
  "merge_member field previous member = (case member of (key, value) \<Rightarrow>
     if value = JNull \<and> map_of previous key \<noteq> None then Inr previous
     else
       (case non_null (map_of previous key) of
          Some (JString target) \<Rightarrow>
            if Some key = field then
              (case json_as_str value of
                 Some fragment \<Rightarrow> Inr (member_insert key (JString (target @ fragment)) previous)
               | None \<Rightarrow> Inl (DecodeReport (''Reasoning detail '' @ key @ '' is not a string'')))
            else if key = ''signature'' \<and> target = [] then
              (case json_as_str value of
                 Some fragment \<Rightarrow> Inr (member_insert key (JString fragment) previous)
               | None \<Rightarrow> Inl (DecodeReport ''Reasoning detail signature is not a string''))
            else bindR (ensure (JString target = value)
                   (DecodeReport (''Reasoning detail metadata changed during streaming: '' @ key))) (\<lambda>_. Inr previous)
        | Some target \<Rightarrow>
            bindR (ensure (target = value)
              (DecodeReport (''Reasoning detail metadata changed during streaming: '' @ key))) (\<lambda>_. Inr previous)
        | None \<Rightarrow> Inr (member_insert key value previous)))"

definition append_detail ::
  "(string \<times> json) list list \<Rightarrow> (string \<times> json) list \<Rightarrow> (decode_error, (string \<times> json) list list) result" where
  "append_detail details detail =
     (if details \<noteq> [] \<and> continues detail (last details)
      then bindR (foldR (merge_member (content_field detail)) (last details) detail)
             (\<lambda>merged. Inr (butlast details @ [merged]))
      else Inr (details @ [detail]))"

fun push_text :: "string option \<Rightarrow> string option \<Rightarrow> string option" where
  "push_text target None = target"
| "push_text None (Some fragment) = Some fragment"
| "push_text (Some t) (Some fragment) = Some (t @ fragment)"

definition reasoning_append ::
  "chat_codec \<Rightarrow> reasoning \<Rightarrow> reasoning \<Rightarrow> (decode_error, reasoning) result" where
  "reasoning_append codec self delta =
     (if reasoning_is_empty delta then Inr self
      else bindR (case reasoning_bytes codec delta of Inl e \<Rightarrow> Inl (DecodeReport e) | Inr n \<Rightarrow> Inr n) (\<lambda>bytes.
           bindR (ensure (sat_add (accumulated_bytes self) bytes \<le> MAX_REASONING_BYTES)
             (DecodeReport ''Reasoning exceeds size limit'')) (\<lambda>_.
           let self = self\<lparr>accumulated_bytes := accumulated_bytes self + bytes,
                 reasoning_content := push_text (reasoning_content self) (reasoning_content delta),
                 reasoning_plain := push_text (reasoning_plain self) (reasoning_plain delta),
                 reasoning_text := push_text (reasoning_text self) (reasoning_text delta)\<rparr>
           in case reasoning_details delta of
                None \<Rightarrow> Inr self
              | Some details \<Rightarrow>
                  bindR (foldR append_detail
                    (case reasoning_details self of None \<Rightarrow> [] | Some ds \<Rightarrow> ds) details)
                    (\<lambda>ds. Inr (self\<lparr>reasoning_details := Some ds\<rparr>)))))"

section \<open>Usage\<close>

definition or_zero :: "nat option \<Rightarrow> nat" where
  "or_zero n = (case n of None \<Rightarrow> 0 | Some k \<Rightarrow> k)"

definition normalize_usage :: "chat_codec \<Rightarrow> chat_usage \<Rightarrow> bool \<Rightarrow> token_usage option" where
  "normalize_usage codec usage reported_costs =
     (let cache_read = or_zero (Option.bind (prompt_details usage) fst);
          cache_write = or_zero (Option.bind (prompt_details usage) snd);
          thinking = or_zero (Option.bind (completion_details usage) id);
          input = sat_sub (sat_sub (prompt_tokens usage) cache_read) cache_write;
          out = sat_sub (completion_tokens usage) thinking;
          cost = (if reported_costs
                  then map_option (\<lambda>amount.
                    \<lparr>cost_amount = amount, cost_source = ''openrouter'', cost_rates = None,
                     priced_at = unix_seconds codec,
                     cost_upstream = Option.bind (Option.bind (wire_cost_details usage)
                       (\<lambda>d. json_get d ''upstream_inference_cost'')) (dollars codec)\<rparr>)
                    (Option.bind (wire_cost usage) (dollars codec))
                  else None);
          tokens = (case wire_total_tokens usage of
                      Some n \<Rightarrow> n | None \<Rightarrow> sat_add (prompt_tokens usage) (completion_tokens usage))
      in if tokens = 0 \<and> prompt_tokens usage = 0 \<and> completion_tokens usage = 0 \<and> cost = None then None
         else Some \<lparr>total_tokens = tokens, input_tokens = input, output_tokens = out,
                    reasoning_tokens = thinking, cache_read_tokens = cache_read,
                    cache_write_tokens = cache_write, usage_cost = cost\<rparr>)"

section \<open>Tool calls\<close>

definition MAX_TOOL_BYTES :: nat where
  "MAX_TOOL_BYTES = 1024 * 1024"

definition MAX_TOOL_CALLS :: nat where
  "MAX_TOOL_CALLS = 16"

record pending_call =
  pc_id :: "string option"
  pc_name :: string
  pc_arguments :: string

definition pending_call_default :: pending_call where
  "pending_call_default = \<lparr>pc_id = None, pc_name = [], pc_arguments = []\<rparr>"

record completion =
  calls :: "pending_call list"
  thoughts :: reasoning
  finish_reason :: "string option"

definition completion_default :: completion where
  "completion_default = \<lparr>calls = [], thoughts = reasoning_default, finish_reason = None\<rparr>"

definition push_fragment :: "string \<Rightarrow> string option \<Rightarrow> (decode_error, string) result" where
  "push_fragment target fragment = (case fragment of
     None \<Rightarrow> Inr target
   | Some f \<Rightarrow> bindR (ensure (sat_add (length target) (length f) \<le> MAX_TOOL_BYTES)
       (DecodeReport ''Tool call exceeds size limit'')) (\<lambda>_. Inr (target @ f)))"

definition set_call_id :: "pending_call \<Rightarrow> string option \<Rightarrow> (decode_error, pending_call) result" where
  "set_call_id call ident = (case ident of
     None \<Rightarrow> Inr call
   | Some i \<Rightarrow>
       bindR (ensure (length i \<le> MAX_TOOL_BYTES) (DecodeReport ''Tool call ID exceeds size limit'')) (\<lambda>_.
       bindR (ensure (pc_id call = None \<or> pc_id call = Some i)
         (DecodeReport ''Tool call ID changed during streaming'')) (\<lambda>_.
       Inr (call\<lparr>pc_id := Some i\<rparr>))))"

definition extend_call :: "pending_call \<Rightarrow> tool_call_delta \<Rightarrow> (decode_error, pending_call) result" where
  "extend_call call delta =
     bindR (set_call_id call (td_id delta)) (\<lambda>call.
     case td_function delta of
       None \<Rightarrow> Inr call
     | Some f \<Rightarrow>
         bindR (push_fragment (pc_name call) (fn_name f)) (\<lambda>name.
         bindR (push_fragment (pc_arguments call) (fn_arguments f)) (\<lambda>args.
         Inr (call\<lparr>pc_name := name, pc_arguments := args\<rparr>))))"

text \<open>\<open>resize_with\<close> when the index is new; the index then is in range.\<close>

definition resized :: "nat \<Rightarrow> pending_call list \<Rightarrow> pending_call list" where
  "resized i cs = (if length cs \<le> i then cs @ replicate (i + 1 - length cs) pending_call_default else cs)"

definition append_call ::
  "string option \<Rightarrow> completion \<Rightarrow> tool_call_delta \<Rightarrow> (decode_error, completion) result" where
  "append_call tool_name self delta =
     bindR (ensure (tool_name \<noteq> None) (DecodeReport ''Provider called a tool when tools were disabled'')) (\<lambda>_.
     bindR (ensure (td_index delta < MAX_TOOL_CALLS)
       (DecodeReport (''Provider emitted more than '' @ nat_digits MAX_TOOL_CALLS @ '' tool calls''))) (\<lambda>_.
     bindR (ensure (td_kind delta = None \<or> td_kind delta = Some ''function'')
       (DecodeReport ''Unsupported tool call type'')) (\<lambda>_.
     let cs = resized (td_index delta) (calls self)
     in bindR (if td_index delta < length cs then Inr (cs ! td_index delta)
               else Inl (DecodeReport ''Tool call index is out of range'')) (\<lambda>call.
        bindR (extend_call call delta) (\<lambda>call.
        Inr (self\<lparr>calls := cs[td_index delta := call]\<rparr>))))))"

definition finish_call ::
  "chat_codec \<Rightarrow> string option \<Rightarrow> pending_call \<Rightarrow> (decode_error, script_call) result" where
  "finish_call codec tool_name call =
     bindR (ok_or tool_name (DecodeReport ''Provider called a tool when tools were disabled'')) (\<lambda>tool.
     bindR (ok_or (pc_id call) (DecodeReport ''Tool call omitted ID'')) (\<lambda>ident.
     bindR (case id_try_new validate_id ident of Inl e \<Rightarrow> Inl (DecodeReport e) | Inr i \<Rightarrow> Inr i) (\<lambda>ident.
     let failed = (\<lambda>e. \<lparr>call_id = ident, call_name = pc_name call, call_input = pc_arguments call,
                       arguments_error = Some e, call_rewrite = None\<rparr>)
     in if pc_name call = tool then
          (case parse_arguments codec (pc_arguments call) of
             Inr input \<Rightarrow> Inr \<lparr>call_id = ident, call_name = pc_name call, call_input = input,
               arguments_error = None, call_rewrite = None\<rparr>
           | Inl e \<Rightarrow> Inr (failed (''arguments must be a JSON object with one string field '' @
               [CHR 0x22] @ ''input'' @ [CHR 0x22] @ '': '' @ e)))
        else Inr (failed (''unknown tool '' @ [CHR 0x27] @ pc_name call @ [CHR 0x27] @
               ''; the only tool is '' @ [CHR 0x27] @ tool @ [CHR 0x27])))))"

definition finish_calls ::
  "chat_codec \<Rightarrow> string option \<Rightarrow> pending_call list \<Rightarrow> (decode_error, script_call list) result" where
  "finish_calls codec tool_name cs =
     bindR (mapR (finish_call codec tool_name) cs) (\<lambda>done_calls.
     bindR (ensure (length (remdups (map call_id done_calls)) = length done_calls)
       (DecodeReport ''Provider reused a tool call ID'')) (\<lambda>_. Inr done_calls))"

section \<open>Chunks\<close>

definition delta_is_empty :: "chunk_delta \<Rightarrow> bool" where
  "delta_is_empty d =
     (reasoning_is_empty (cd_reasoning d)
      \<and> (cd_content d = None \<or> cd_content d = Some [])
      \<and> (cd_tool_calls d = None \<or> cd_tool_calls d = Some [])
      \<and> (cd_refusal d = None \<or> cd_refusal d = Some []))"

definition non_empty :: "string option \<Rightarrow> string option" where
  "non_empty t = (if t = Some [] then None else t)"

definition stop_reason_of :: "string \<Rightarrow> (decode_error, stop_reason) result" where
  "stop_reason_of reason =
     (if reason = ''stop'' then Inr EndTurn
      else if reason = ''tool_calls'' then Inr ToolCall
      else if reason = ''length'' then Inr MaxOutputTokens
      else Inl (DecodeReport (''Chat completions response did not complete successfully: '' @ reason)))"

definition finish_choice ::
  "chat_codec \<Rightarrow> string option \<Rightarrow> completion \<Rightarrow> string
     \<Rightarrow> (decode_error, provider_stream_event list \<times> completion) result" where
  "finish_choice codec tool_name self reason =
     bindR (stop_reason_of reason) (\<lambda>stop.
     let cs = (if stop = MaxOutputTokens then [] else calls self)
     in bindR (ensure ((stop = ToolCall) = (cs \<noteq> []))
          (DecodeReport ''Completion finish reason does not match its tool calls'')) (\<lambda>_.
        bindR (finish_calls codec tool_name cs) (\<lambda>done_calls.
        bindR (if reasoning_is_empty (thoughts self) then Inr []
               else (case reasoning_json codec (thoughts self) of
                       Inl e \<Rightarrow> Inl (DecodeReport e) | Inr payload \<Rightarrow> Inr [ReasoningEvent payload])) (\<lambda>thought.
        Inr (thought @ map ScriptCallEvent done_calls @ [FinishedEvent stop],
             \<lparr>calls = [], thoughts = reasoning_default, finish_reason = Some reason\<rparr>)))))"

text \<open>The fragments of the tool calls in one chunk.\<close>

definition append_calls ::
  "string option \<Rightarrow> completion \<Rightarrow> tool_call_delta list \<Rightarrow> (decode_error, completion) result" where
  "append_calls tool_name self deltas =
     bindR (ensure (length (remdups (map td_index deltas)) = length deltas)
       (DecodeReport ''Provider sent two fragments for one tool call in a single chunk'')) (\<lambda>_.
     foldR (append_call tool_name) self deltas)"

definition reasoning_events :: "chunk_delta \<Rightarrow> provider_stream_event list" where
  "reasoning_events d = (case display_text (cd_reasoning d) of
     None \<Rightarrow> [] | Some t \<Rightarrow> [ReasoningDelta ''chat-completions-reasoning'' t])"

definition text_events :: "chunk_delta \<Rightarrow> provider_stream_event list" where
  "text_events d = (case non_empty (cd_content d) of
     None \<Rightarrow> [] | Some t \<Rightarrow> [TextDelta ''chat-completions-message'' FinalAnswer t])"

text \<open>The events pushed come first, also when the choice is refused.\<close>

definition ingest_choice ::
  "chat_codec \<Rightarrow> string option \<Rightarrow> completion \<Rightarrow> chunk_choice
     \<Rightarrow> provider_stream_event list \<times> (decode_error, completion) result" where
  "ingest_choice codec tool_name self choice =
     (let delta = choice_delta choice in
      if choice_index choice \<noteq> 0 then
        ([], Inl (DecodeReport ''Provider returned an unexpected completion choice''))
      else case finish_reason self of
        Some finished \<Rightarrow>
          ([], if delta_is_empty delta \<and> (choice_finish choice = None \<or> choice_finish choice = Some finished)
               then Inr self else Inl (DecodeReport ''Provider sent a choice after completion''))
      | None \<Rightarrow>
        (case non_empty (cd_refusal delta) of
           Some refusal \<Rightarrow> ([], Inl (DecodeReport (''Provider refused the request: '' @ refusal)))
         | None \<Rightarrow>
           (case reasoning_append codec (thoughts self) (cd_reasoning delta) of
              Inl e \<Rightarrow> (reasoning_events delta, Inl e)
            | Inr thoughts' \<Rightarrow>
              (let shown = reasoning_events delta @ text_events delta;
                   deltas = (case cd_tool_calls delta of None \<Rightarrow> [] | Some ds \<Rightarrow> ds)
               in case append_calls tool_name (self\<lparr>thoughts := thoughts'\<rparr>) deltas of
                    Inl e \<Rightarrow> (shown, Inl e)
                  | Inr self' \<Rightarrow>
                    (case choice_finish choice of
                       None \<Rightarrow> (shown, Inr self')
                     | Some reason \<Rightarrow>
                       (case finish_choice codec tool_name self' reason of
                          Inl e \<Rightarrow> (shown, Inl e)
                        | Inr (evs, self'') \<Rightarrow> (shown @ evs, Inr self'')))))))"

fun ingest_choices ::
  "chat_codec \<Rightarrow> string option \<Rightarrow> completion \<Rightarrow> chunk_choice list
     \<Rightarrow> provider_stream_event list \<times> (decode_error, completion) result" where
  "ingest_choices codec tool_name self [] = ([], Inr self)"
| "ingest_choices codec tool_name self (choice # rest) =
     (case ingest_choice codec tool_name self choice of
        (evs, Inl e) \<Rightarrow> (evs, Inl e)
      | (evs, Inr self') \<Rightarrow>
          (case ingest_choices codec tool_name self' rest of (evs', r) \<Rightarrow> (evs @ evs', r)))"

definition stream_error_code :: "json option \<Rightarrow> string option" where
  "stream_error_code code = (case code of
     Some (JString c) \<Rightarrow> Some c
   | Some (JNumber n) \<Rightarrow>
       if n = 429 then Some ''rate_limit_exceeded''
       else if 500 \<le> n \<and> n \<le> int u64_max then Some ''server_error'' else None
   | _ \<Rightarrow> None)"

definition ingest ::
  "chat_codec \<Rightarrow> string option \<Rightarrow> bool \<Rightarrow> completion \<Rightarrow> chat_chunk
     \<Rightarrow> provider_stream_event list \<times> (decode_error, completion) result" where
  "ingest codec tool_name reported_costs self chunk = (case chunk_error chunk of
     Some error \<Rightarrow>
       ([], Inl (Classified (from_stream_error (stream_error_code (chat_error_code error))
              (''Chat completions stream failed: '' @ chat_error_message error))))
   | None \<Rightarrow>
       if 1 < length (chunk_choices chunk) then
         ([], Inl (DecodeReport ''Provider returned multiple completion choices''))
       else (case ingest_choices codec tool_name self (chunk_choices chunk) of
         (evs, Inl e) \<Rightarrow> (evs, Inl e)
       | (evs, Inr self') \<Rightarrow>
           (case Option.bind (chunk_usage chunk) (\<lambda>u. normalize_usage codec u reported_costs) of
              None \<Rightarrow> (evs, Inr self')
            | Some usage \<Rightarrow> (evs @ [UsageEvent usage], Inr self'))))"

text \<open>The closure given to the adapter.\<close>

definition chat_decode :: "chat_codec \<Rightarrow> string option \<Rightarrow> bool \<Rightarrow> completion decoder" where
  "chat_decode codec tool_name reported_costs self event = (case event of
     SseData payload \<Rightarrow>
       (case parse_chunk codec payload of
          Inl e \<Rightarrow> ([], Inl (DecodeReport e), self)
        | Inr chunk \<Rightarrow>
            (case ingest codec tool_name reported_costs self chunk of
               (evs, Inl e) \<Rightarrow> (evs, Inl e, self)
             | (evs, Inr self') \<Rightarrow> (evs, Inr StreamContinue, self')))
   | SseDone \<Rightarrow>
       if finish_reason self \<noteq> None then ([], Inr StreamComplete, self)
       else ([], Inl (DecodeReport ''Chat completions stream omitted a finish reason''), self))"

definition adapt_chat_completion_stream :: "sse_item list \<Rightarrow> completion adapter" where
  "adapt_chat_completion_stream source = adapt_provider_stream source completion_default"

abbreviation chat_interrupted :: string where
  "chat_interrupted \<equiv> ''Chat completions stream ended before the [DONE] marker''"

section \<open>The shape of a reply\<close>

fun no_call :: "provider_stream_event \<Rightarrow> bool" where
  "no_call (ScriptCallEvent _) = False"
| "no_call (FinishedEvent _) = False"
| "no_call _ = True"

fun is_usage :: "provider_stream_event \<Rightarrow> bool" where
  "is_usage (UsageEvent _) = True"
| "is_usage _ = False"

text \<open>A reply that has ended: content, the calls, why it ended, and nothing but usage after it.\<close>

definition ended_reply :: "provider_stream_event list \<Rightarrow> bool" where
  "ended_reply evs = (\<exists>body cs stop rest.
     evs = body @ map ScriptCallEvent cs @ [FinishedEvent stop] @ rest
     \<and> list_all no_call body \<and> list_all is_usage rest
     \<and> distinct (map call_id cs) \<and> length cs \<le> MAX_TOOL_CALLS \<and> (stop = ToolCall) = (cs \<noteq> []))"

lemma ended_replyI:
  assumes "list_all no_call body" "list_all is_usage rest" "distinct (map call_id cs)"
    "length cs \<le> MAX_TOOL_CALLS" "(stop = ToolCall) = (cs \<noteq> [])"
  shows "ended_reply (body @ map ScriptCallEvent cs @ [FinishedEvent stop] @ rest)"
  unfolding ended_reply_def using assms by blast

lemma ended_reply_append:
  assumes "ended_reply evs" "list_all is_usage later"
  shows "ended_reply (evs @ later)"
proof -
  obtain body cs stop rest where e: "evs = body @ map ScriptCallEvent cs @ [FinishedEvent stop] @ rest"
    "list_all no_call body" "list_all is_usage rest" "distinct (map call_id cs)"
    "length cs \<le> MAX_TOOL_CALLS" "(stop = ToolCall) = (cs \<noteq> [])"
    using assms(1) unfolding ended_reply_def by blast
  show ?thesis
    using ended_replyI[of body "rest @ later" cs stop] e assms(2) by simp
qed

lemma ended_reply_prepend:
  assumes "list_all no_call pre" "ended_reply evs"
  shows "ended_reply (pre @ evs)"
proof -
  obtain body cs stop rest where e: "evs = body @ map ScriptCallEvent cs @ [FinishedEvent stop] @ rest"
    "list_all no_call body" "list_all is_usage rest" "distinct (map call_id cs)"
    "length cs \<le> MAX_TOOL_CALLS" "(stop = ToolCall) = (cs \<noteq> [])"
    using assms(2) unfolding ended_reply_def by blast
  show ?thesis
    using ended_replyI[of "pre @ body" rest cs stop] e assms(1) by simp
qed

lemma distinct_remdups_length: "length (remdups xs) = length xs \<longleftrightarrow> distinct xs"
  by (metis distinct_remdups length_remdups_eq remdups_id_iff_distinct)

lemma append_call_length:
  "append_call tool self delta = Inr self' \<Longrightarrow>
    length (calls self') \<le> max MAX_TOOL_CALLS (length (calls self)) \<and> finish_reason self' = finish_reason self"
  by (auto simp: append_call_def result_simps Let_def resized_def split: if_splits)

lemma append_calls_length:
  assumes "append_calls tool self deltas = Inr self'"
  shows "length (calls self') \<le> max MAX_TOOL_CALLS (length (calls self)) \<and> finish_reason self' = finish_reason self"
proof -
  have "foldR (append_call tool) self deltas = Inr self'"
    using assms(1) by (auto simp: append_calls_def result_simps)
  then show ?thesis
    by (induction deltas arbitrary: self) (fastforce simp: result_simps dest: append_call_length)+
qed

text \<open>A choice before the end: the fragments are appended, and the reply may end.\<close>

lemma ingest_choice_step:
  assumes "ingest_choice codec tool self ch = (evs, Inr self')" "finish_reason self = None"
  obtains th mid where
    "append_calls tool (self\<lparr>thoughts := th\<rparr>)
       (case cd_tool_calls (choice_delta ch) of None \<Rightarrow> [] | Some ds \<Rightarrow> ds) = Inr mid"
    "case choice_finish ch of
       None \<Rightarrow> evs = reasoning_events (choice_delta ch) @ text_events (choice_delta ch) \<and> self' = mid
     | Some reason \<Rightarrow> \<exists>final. finish_choice codec tool mid reason = Inr (final, self')
         \<and> evs = reasoning_events (choice_delta ch) @ text_events (choice_delta ch) @ final"
proof -
  let ?ds = "case cd_tool_calls (choice_delta ch) of None \<Rightarrow> [] | Some ds \<Rightarrow> ds"
  have refusal: "choice_index ch = 0" "non_empty (cd_refusal (choice_delta ch)) = None"
    using assms by (auto simp: ingest_choice_def Let_def split: if_splits option.splits)
  obtain th where th: "reasoning_append codec (thoughts self) (cd_reasoning (choice_delta ch)) = Inr th"
    using assms refusal by (auto simp: ingest_choice_def Let_def split: sum.splits)
  obtain mid where mid: "append_calls tool (self\<lparr>thoughts := th\<rparr>) ?ds = Inr mid"
    using assms refusal th by (cases "append_calls tool (self\<lparr>thoughts := th\<rparr>) ?ds") (auto simp: ingest_choice_def Let_def)
  show thesis
  proof (rule that[OF mid], cases "choice_finish ch")
    case None
    then show "case choice_finish ch of
       None \<Rightarrow> evs = reasoning_events (choice_delta ch) @ text_events (choice_delta ch) \<and> self' = mid
     | Some reason \<Rightarrow> \<exists>final. finish_choice codec tool mid reason = Inr (final, self')
         \<and> evs = reasoning_events (choice_delta ch) @ text_events (choice_delta ch) @ final"
      using assms refusal th mid by (simp add: ingest_choice_def Let_def)
  next
    case (Some reason)
    then show "case choice_finish ch of
       None \<Rightarrow> evs = reasoning_events (choice_delta ch) @ text_events (choice_delta ch) \<and> self' = mid
     | Some reason \<Rightarrow> \<exists>final. finish_choice codec tool mid reason = Inr (final, self')
         \<and> evs = reasoning_events (choice_delta ch) @ text_events (choice_delta ch) @ final"
      using assms refusal th mid
      by (cases "finish_choice codec tool mid reason") (auto simp: ingest_choice_def Let_def)
  qed
qed

lemma finish_calls_facts:
  "finish_calls codec tool cs = Inr ds \<Longrightarrow> length ds = length cs \<and> distinct (map call_id ds)"
  by (auto simp: finish_calls_def result_simps mapR_eq_Inr distinct_remdups_length[of "map call_id ds", simplified]
      dest: list_all2_lengthD)

lemma finish_choice_Inr:
  assumes "finish_choice codec tool self reason = Inr (evs, self')"
  obtains stop ds thought where "stop_reason_of reason = Inr stop"
    "finish_calls codec tool (if stop = MaxOutputTokens then [] else calls self) = Inr ds"
    "(stop = ToolCall) = ((if stop = MaxOutputTokens then [] else calls self) \<noteq> [])"
    "evs = thought @ map ScriptCallEvent ds @ [FinishedEvent stop]"
    "thought = [] \<or> (\<exists>p. thought = [ReasoningEvent p])"
    "self' = \<lparr>calls = [], thoughts = reasoning_default, finish_reason = Some reason\<rparr>"
proof -
  obtain stop ds thought where f: "stop_reason_of reason = Inr stop"
    "finish_calls codec tool (if stop = MaxOutputTokens then [] else calls self) = Inr ds"
    "(stop = ToolCall) = ((if stop = MaxOutputTokens then [] else calls self) \<noteq> [])"
    "(if reasoning_is_empty (thoughts self) then Inr []
      else (case reasoning_json codec (thoughts self) of
              Inl e \<Rightarrow> Inl (DecodeReport e) | Inr payload \<Rightarrow> Inr [ReasoningEvent payload])) = Inr thought"
    "evs = thought @ map ScriptCallEvent ds @ [FinishedEvent stop]"
    "self' = \<lparr>calls = [], thoughts = reasoning_default, finish_reason = Some reason\<rparr>"
    using assms unfolding finish_choice_def Let_def bindR_eq_Inr ensure_eq_Inr by blast
  have "thought = [] \<or> (\<exists>p. thought = [ReasoningEvent p])" using f(4) by (auto split: if_splits sum.splits)
  with f that show thesis by blast
qed

lemma finish_choice_ended:
  assumes "finish_choice codec tool self reason = Inr (evs, self')" "length (calls self) \<le> MAX_TOOL_CALLS"
  shows "ended_reply evs \<and> calls self' = [] \<and> finish_reason self' = Some reason"
proof -
  obtain stop ds thought where f: "finish_calls codec tool (if stop = MaxOutputTokens then [] else calls self) = Inr ds"
    "(stop = ToolCall) = ((if stop = MaxOutputTokens then [] else calls self) \<noteq> [])"
    "evs = thought @ map ScriptCallEvent ds @ [FinishedEvent stop]"
    "thought = [] \<or> (\<exists>p. thought = [ReasoningEvent p])"
    "self' = \<lparr>calls = [], thoughts = reasoning_default, finish_reason = Some reason\<rparr>"
    using finish_choice_Inr[OF assms(1)] by metis
  then have thought: "list_all no_call thought" by auto
  have ds: "length ds = length (if stop = MaxOutputTokens then [] else calls self)" "distinct (map call_id ds)"
    using finish_calls_facts[OF f(1)] by auto
  have "length ds \<le> MAX_TOOL_CALLS" "(stop = ToolCall) = (ds \<noteq> [])"
    using ds(1) assms(2) f(2) by (auto simp flip: length_greater_0_conv)
  then show ?thesis
    using ended_replyI[of thought "[]" ds stop] f(3,5) thought ds(2) by simp
qed

lemma shown_no_call [simp]: "list_all no_call (reasoning_events d)" "list_all no_call (text_events d)"
  by (auto simp: reasoning_events_def text_events_def split: option.splits)

text \<open>The decoder's state after successful chunks, and what it has pushed.\<close>

definition decoding :: "completion \<Rightarrow> provider_stream_event list \<Rightarrow> bool" where
  "decoding self evs =
     (length (calls self) \<le> MAX_TOOL_CALLS
      \<and> (if finish_reason self = None then list_all no_call evs else ended_reply evs))"

lemma ingest_choice_open:
  assumes "finish_reason self = None" "length (calls self) \<le> MAX_TOOL_CALLS"
  shows "case ingest_choice codec tool self choice of
      (evs, Inl e) \<Rightarrow> list_all no_call evs
    | (evs, Inr self') \<Rightarrow> decoding self' evs"
proof (cases "snd (ingest_choice codec tool self choice)")
  case (Inl e)
  then show ?thesis
    using assms(1) by (auto simp: ingest_choice_def Let_def split: option.splits sum.splits prod.splits)
next
  case (Inr self')
  then obtain evs where i: "ingest_choice codec tool self choice = (evs, Inr self')" by (metis prod.collapse)
  obtain th mid where m: "append_calls tool (self\<lparr>thoughts := th\<rparr>)
       (case cd_tool_calls (choice_delta choice) of None \<Rightarrow> [] | Some ds \<Rightarrow> ds) = Inr mid"
    "case choice_finish choice of
       None \<Rightarrow> evs = reasoning_events (choice_delta choice) @ text_events (choice_delta choice) \<and> self' = mid
     | Some reason \<Rightarrow> \<exists>final. finish_choice codec tool mid reason = Inr (final, self')
         \<and> evs = reasoning_events (choice_delta choice) @ text_events (choice_delta choice) @ final"
    using ingest_choice_step[OF i assms(1)] by blast
  have mid: "length (calls mid) \<le> MAX_TOOL_CALLS" "finish_reason mid = None"
    using append_calls_length[OF m(1)] assms by auto
  have "decoding self' evs"
    using m(2) mid
    by (auto simp: decoding_def dest!: finish_choice_ended intro!: ended_reply_prepend split: option.splits)
  then show ?thesis using i by simp
qed

lemma ingest_choice_finished:
  assumes "finish_reason self \<noteq> None"
  shows "fst (ingest_choice codec tool self choice) = []
    \<and> (snd (ingest_choice codec tool self choice) = Inr self' \<longrightarrow> self' = self)"
  using assms by (auto simp: ingest_choice_def Let_def split: option.splits if_splits)

lemma ingest_choices_decoding:
  assumes "decoding self before" "length cs \<le> 1"
  shows "case ingest_choices codec tool self cs of
      (evs, Inl e) \<Rightarrow> (if finish_reason self = None then list_all no_call (before @ evs) else ended_reply (before @ evs))
    | (evs, Inr self') \<Rightarrow> decoding self' (before @ evs)"
proof (cases cs)
  case Nil
  then show ?thesis using assms by simp
next
  case (Cons c rest)
  then have cs: "cs = [c]" using assms(2) by simp
  obtain evs r where i: "ingest_choice codec tool self c = (evs, r)" by (metis surj_pair)
  show ?thesis
  proof (cases "finish_reason self = None")
    case True
    then have len: "length (calls self) \<le> MAX_TOOL_CALLS" "list_all no_call before"
      using assms(1) by (auto simp: decoding_def)
    then show ?thesis
      using ingest_choice_open[OF True len(1), of codec tool c] i cs True
      by (auto simp: decoding_def ended_reply_prepend split: sum.splits if_splits)
  next
    case False
    then show ?thesis
      using ingest_choice_finished[OF False, of codec tool c] i cs assms(1)
      by (auto simp: decoding_def split: sum.splits)
  qed
qed

lemma ingest_decoding:
  assumes "decoding self before"
  shows "case ingest codec tool costs self chunk of
      (evs, Inl e) \<Rightarrow> (if finish_reason self = None then list_all no_call (before @ evs) else ended_reply (before @ evs))
    | (evs, Inr self') \<Rightarrow> decoding self' (before @ evs)"
proof (cases "chunk_error chunk = None \<and> length (chunk_choices chunk) \<le> 1")
  case False
  then show ?thesis using assms by (auto simp: ingest_def decoding_def split: option.splits)
next
  case True
  obtain evs r where i: "ingest_choices codec tool self (chunk_choices chunk) = (evs, r)" by (metis surj_pair)
  have usage: "decoding self' evs' \<Longrightarrow> decoding self' (evs' @ [UsageEvent u])" for self' evs' u
    using ended_reply_append[of evs' "[UsageEvent u]"] by (auto simp: decoding_def)
  show ?thesis
    using ingest_choices_decoding[OF assms, of "chunk_choices chunk" codec tool] True i usage[of _ "before @ evs"]
    by (cases r) (auto simp: ingest_def split: option.splits)
qed

definition reply_events :: "stream_item list \<Rightarrow> provider_stream_event list" where
  "reply_events items = List.map_filter (\<lambda>x. case x of Inr e \<Rightarrow> Some e | Inl _ \<Rightarrow> None) items"

lemma reply_events_simps [simp]:
  "reply_events [] = []" "reply_events (map Inr evs @ items) = evs @ reply_events items"
  "reply_events (Inl e # items) = reply_events items"
  "reply_events (map Inr evs) = evs"
  by (induction evs) (auto simp: reply_events_def List.map_filter_def)

lemma adapted_decoding:
  assumes "decoding self before"
  shows "let items = adapted (chat_decode codec tool costs) interrupted self source
    in ended_reply (before @ reply_events items)
       \<or> list_all no_call (before @ reply_events items) \<and> list_ex is_failure items"
  using assms
proof (induction source arbitrary: self before)
  case Nil
  then show ?case by (auto simp: decoding_def is_failure_def Let_def split: if_splits)
next
  case (Cons x rest)
  show ?case
  proof (cases x)
    case (Inl e)
    then show ?thesis using Cons.prems by (auto simp: decoding_def is_failure_def Let_def split: if_splits)
  next
    case (Inr ev)
    show ?thesis
    proof (cases ev)
      case SseDone
      then show ?thesis
        using Cons.prems Inr by (auto simp: decoding_def is_failure_def Let_def chat_decode_def[of codec tool costs self] split: if_splits)
    next
      case (SseData payload)
      show ?thesis
      proof (cases "parse_chunk codec payload")
        case Inl2: (Inl e)
        then show ?thesis
          using Cons.prems Inr SseData
          by (auto simp: decoding_def is_failure_def Let_def chat_decode_def[of codec tool costs self] split: if_splits)
      next
        case Inr2: (Inr chunk)
        obtain evs r where i: "ingest codec tool costs self chunk = (evs, r)" by (metis surj_pair)
        show ?thesis
        proof (cases r)
          case Inl3: (Inl e)
          then show ?thesis
            using ingest_decoding[OF Cons.prems, of codec tool costs chunk] Inr SseData Inr2 i
            by (auto simp: is_failure_def Let_def chat_decode_def[of codec tool costs self] split: if_splits)
        next
          case Inr3: (Inr self')
          then have "decoding self' (before @ evs)"
            using ingest_decoding[OF Cons.prems, of codec tool costs chunk] i by simp
          from Cons.IH[OF this] show ?thesis
            using Inr SseData Inr2 i Inr3 by (auto simp: Let_def chat_decode_def[of codec tool costs self])
        qed
      qed
    qed
  qed
qed

text \<open>C17. 
  Whatever bytes a chat-completions provider sends, and however they are cut: either the reply was
  ended by the provider, and its events are content, then at most 16 script calls with ids of their
  own, then the one reason it ended, which is a tool call exactly when there are calls, then usage;
  or no script call was handed out at all and the reply fails. No script runs from a partial reply.
\<close>

theorem chat_reply_shape:
  "let items = reply_items (chat_decode codec tool costs) chat_interrupted completion_default chunks
   in ended_reply (reply_events items)
      \<or> list_all no_call (reply_events items) \<and> list_ex is_failure items"
  using adapted_decoding[of completion_default "[]" codec tool costs chat_interrupted
      "sent_items (forward_sse_events None chunks)"]
  by (simp add: reply_items_def decoding_def completion_default_def)

section \<open>Fragments make calls\<close>

text \<open>The reference: the fragments of all chunks, gathered by the index of their call.\<close>

definition piece :: "(function_delta \<Rightarrow> string option) \<Rightarrow> tool_call_delta \<Rightarrow> string" where
  "piece f d = (case Option.bind (td_function d) f of None \<Rightarrow> [] | Some t \<Rightarrow> t)"

definition gathered :: "tool_call_delta list \<Rightarrow> nat \<Rightarrow> pending_call" where
  "gathered ds i = (let mine = filter (\<lambda>d. td_index d = i) ds in
     \<lparr>pc_id = (case List.map_filter td_id mine of [] \<Rightarrow> None | ident # _ \<Rightarrow> Some ident),
      pc_name = concat (map (piece fn_name) mine),
      pc_arguments = concat (map (piece fn_arguments) mine)\<rparr>)"

definition call_count :: "tool_call_delta list \<Rightarrow> nat" where
  "call_count ds = foldl (\<lambda>n d. max n (Suc (td_index d))) 0 ds"

definition assembled :: "tool_call_delta list \<Rightarrow> pending_call list" where
  "assembled ds = map (gathered ds) [0..<call_count ds]"

lemma call_count_snoc: "call_count (ds @ [d]) = max (call_count ds) (Suc (td_index d))"
  by (simp add: call_count_def)

lemma call_count_bound: "d \<in> set ds \<Longrightarrow> td_index d < call_count ds"
  by (induction ds rule: rev_induct) (auto simp: call_count_snoc less_max_iff_disj)

lemma gathered_beyond: "call_count ds \<le> i \<Longrightarrow> gathered ds i = pending_call_default"
proof -
  assume "call_count ds \<le> i"
  then have "filter (\<lambda>d. td_index d = i) ds = []"
    using call_count_bound[of _ ds] by (fastforce simp: filter_empty_conv)
  then show ?thesis by (simp add: gathered_def pending_call_default_def List.map_filter_def)
qed

lemma gathered_other: "td_index d \<noteq> i \<Longrightarrow> gathered (ds @ [d]) i = gathered ds i"
  by (simp add: gathered_def)

lemma push_fragment_Inr: "push_fragment t f = Inr t' \<longleftrightarrow>
    t' = t @ (case f of None \<Rightarrow> [] | Some x \<Rightarrow> x)
    \<and> (case f of None \<Rightarrow> True | Some x \<Rightarrow> sat_add (length t) (length x) \<le> MAX_TOOL_BYTES)"
  by (auto simp: push_fragment_def result_simps split: option.splits)

lemma extend_gathered:
  assumes "extend_call (gathered ds (td_index d)) d = Inr c"
  shows "c = gathered (ds @ [d]) (td_index d)"
proof -
  obtain ident where i: "set_call_id (gathered ds (td_index d)) (td_id d) = Inr ident"
    using assms by (auto simp: extend_call_def result_simps)
  have "ident = (gathered ds (td_index d))\<lparr>pc_id := pc_id (gathered (ds @ [d]) (td_index d))\<rparr>"
    using i by (auto simp: set_call_id_def result_simps gathered_def Let_def List.map_filter_def
        split: option.splits list.splits)
  then show ?thesis
    using assms i by (auto simp: extend_call_def result_simps push_fragment_Inr gathered_def Let_def piece_def
        split: option.splits)
qed

lemma resized_assembled:
  "i < max (call_count ds) (Suc n) \<Longrightarrow> resized n (assembled ds) ! i = gathered ds i"
  by (auto simp: resized_def assembled_def nth_append gathered_beyond)

lemma append_call_assembled:
  assumes "append_call tool self d = Inr self'" "calls self = assembled ds"
  shows "calls self' = assembled (ds @ [d])"
proof -
  let ?cs = "resized (td_index d) (assembled ds)"
  have len: "length ?cs = max (call_count ds) (Suc (td_index d))"
    by (simp add: resized_def assembled_def)
  obtain c where c: "extend_call (?cs ! td_index d) d = Inr c" "calls self' = ?cs[td_index d := c]"
    using assms by (auto simp: append_call_def result_simps Let_def split: if_splits)
  have "c = gathered (ds @ [d]) (td_index d)"
    using c(1) resized_assembled[of "td_index d" ds "td_index d"] extend_gathered by simp
  then show ?thesis
    unfolding c(2)
    by (intro nth_equalityI)
      (auto simp: len assembled_def[of "ds @ [d]"] call_count_snoc nth_list_update resized_assembled gathered_other)
qed

lemma append_calls_assembled:
  assumes "append_calls tool self later = Inr self'" "calls self = assembled ds"
  shows "calls self' = assembled (ds @ later)"
proof -
  have "foldR (append_call tool) self later = Inr self'"
    using assms(1) by (auto simp: append_calls_def result_simps)
  then show ?thesis
    using assms(2)
  proof (induction later arbitrary: self ds)
    case (Cons d rest)
    then obtain mid where "append_call tool self d = Inr mid" "foldR (append_call tool) mid rest = Inr self'"
      by (auto simp: result_simps)
    then show ?case using Cons.IH[of mid "ds @ [d]"] append_call_assembled Cons.prems(2) by fastforce
  qed (simp add: result_simps)
qed

section \<open>All chunks of a reply\<close>

fun ingest_all ::
  "chat_codec \<Rightarrow> string option \<Rightarrow> bool \<Rightarrow> completion \<Rightarrow> chat_chunk list
     \<Rightarrow> provider_stream_event list \<times> (decode_error, completion) result" where
  "ingest_all codec tool costs self [] = ([], Inr self)"
| "ingest_all codec tool costs self (chunk # rest) =
     (case ingest codec tool costs self chunk of
        (evs, Inl e) \<Rightarrow> (evs, Inl e)
      | (evs, Inr self') \<Rightarrow>
          (case ingest_all codec tool costs self' rest of (evs', r) \<Rightarrow> (evs @ evs', r)))"

definition choice_deltas :: "chat_chunk list \<Rightarrow> chunk_delta list" where
  "choice_deltas chunks = concat (map (\<lambda>c. map choice_delta (chunk_choices c)) chunks)"

definition fragments :: "chat_chunk list \<Rightarrow> tool_call_delta list" where
  "fragments chunks =
     concat (map (\<lambda>d. case cd_tool_calls d of None \<Rightarrow> [] | Some ds \<Rightarrow> ds) (choice_deltas chunks))"

definition written_text :: "chat_chunk list \<Rightarrow> string" where
  "written_text chunks =
     concat (map (\<lambda>d. case cd_content d of None \<Rightarrow> [] | Some t \<Rightarrow> t) (choice_deltas chunks))"

fun event_text :: "provider_stream_event \<Rightarrow> string" where
  "event_text (TextDelta _ _ t) = t"
| "event_text _ = []"

fun event_call :: "provider_stream_event \<Rightarrow> script_call option" where
  "event_call (ScriptCallEvent c) = Some c"
| "event_call _ = None"

definition event_texts :: "provider_stream_event list \<Rightarrow> string" where
  "event_texts evs = concat (map event_text evs)"

definition event_calls :: "provider_stream_event list \<Rightarrow> script_call list" where
  "event_calls evs = List.map_filter event_call evs"

lemma event_simps [simp]:
  "event_texts [] = []" "event_texts (e # evs) = event_text e @ event_texts evs"
  "event_texts (evs @ evs') = event_texts evs @ event_texts evs'"
  "event_calls [] = []" "event_calls (evs @ evs') = event_calls evs @ event_calls evs'"
  "event_calls (e # evs) = (case event_call e of None \<Rightarrow> [] | Some c \<Rightarrow> [c]) @ event_calls evs"
  by (auto simp: event_texts_def event_calls_def List.map_filter_def split: option.splits)

lemma event_calls_map [simp]: "event_calls (map ScriptCallEvent cs) = cs" "event_texts (map ScriptCallEvent cs) = []"
  by (induction cs) auto

lemma no_call_calls: "list_all no_call evs \<Longrightarrow> event_calls evs = []"
proof (induction evs)
  case (Cons e evs)
  then show ?case by (cases e) auto
qed simp

definition made_of :: "chat_codec \<Rightarrow> string option \<Rightarrow> chat_chunk list \<Rightarrow> provider_stream_event list \<Rightarrow> completion \<Rightarrow> bool" where
  "made_of codec tool chunks evs self =
     (event_texts evs = written_text chunks
      \<and> (case finish_reason self of
           None \<Rightarrow> calls self = assembled (fragments chunks) \<and> event_calls evs = []
         | Some reason \<Rightarrow> (\<exists>stop. stop_reason_of reason = Inr stop
             \<and> finish_calls codec tool (if stop = MaxOutputTokens then [] else assembled (fragments chunks))
               = Inr (event_calls evs))))"

lemma made_of_cong:
  assumes "written_text cs = written_text cs'" "fragments cs = fragments cs'"
    "event_texts evs = event_texts evs'" "event_calls evs = event_calls evs'"
  shows "made_of codec tool cs evs self = made_of codec tool cs' evs' self"
  unfolding made_of_def assms ..

lemma written_simps [simp]:
  "written_text (cs @ cs') = written_text cs @ written_text cs'"
  "fragments (cs @ cs') = fragments cs @ fragments cs'"
  by (simp_all add: written_text_def fragments_def choice_deltas_def)

lemma reasoning_events_silent [simp]:
  "event_texts (reasoning_events d) = []" "event_calls (reasoning_events d) = []"
  "event_calls (text_events d) = []" "event_texts (text_events d) = (case cd_content d of None \<Rightarrow> [] | Some t \<Rightarrow> t)"
  by (auto simp: reasoning_events_def text_events_def non_empty_def split: option.splits)

lemma ingest_choice_made_of:
  assumes i: "ingest_choice codec tool self ch = (evs, Inr self')" and m: "made_of codec tool pre before self"
    and c: "written_text [chunk] = (case cd_content (choice_delta ch) of None \<Rightarrow> [] | Some t \<Rightarrow> t)"
      "fragments [chunk] = (case cd_tool_calls (choice_delta ch) of None \<Rightarrow> [] | Some ds \<Rightarrow> ds)"
  shows "made_of codec tool (pre @ [chunk]) (before @ evs) self'"
proof (cases "finish_reason self")
  case (Some finished)
  then have same: "self' = self" "evs = []" and empty: "delta_is_empty (choice_delta ch)"
    using i by (auto simp: ingest_choice_def Let_def split: if_splits)
  have "written_text [chunk] = []" using c(1) empty by (auto simp: delta_is_empty_def)
  moreover have "fragments [chunk] = []" using c(2) empty by (auto simp: delta_is_empty_def)
  ultimately show ?thesis
    using m same made_of_cong[of "pre @ [chunk]" pre before before] by simp
next
  case None
  let ?d = "choice_delta ch"
  obtain th mid where first: "append_calls tool (self\<lparr>thoughts := th\<rparr>)
       (case cd_tool_calls ?d of None \<Rightarrow> [] | Some ds \<Rightarrow> ds) = Inr mid" and step:
    "case choice_finish ch of
       None \<Rightarrow> evs = reasoning_events ?d @ text_events ?d \<and> self' = mid
     | Some reason \<Rightarrow> \<exists>final. finish_choice codec tool mid reason = Inr (final, self')
         \<and> evs = reasoning_events ?d @ text_events ?d @ final"
    using ingest_choice_step[OF i None] by blast
  have fr: "finish_reason mid = None" using append_calls_length[OF first] None by simp
  have mid: "calls mid = assembled (fragments pre @ fragments [chunk])"
    using append_calls_assembled[OF first] m None c(2) by (simp add: made_of_def)
  show ?thesis
  proof (cases "choice_finish ch")
    case None2: None
    then show ?thesis
      using step m None fr mid c(1) by (simp add: made_of_def)
  next
    case (Some reason)
    then obtain final where f: "finish_choice codec tool mid reason = Inr (final, self')"
      "evs = reasoning_events ?d @ text_events ?d @ final"
      using step by auto
    obtain stop ds thought where g: "stop_reason_of reason = Inr stop"
      "finish_calls codec tool (if stop = MaxOutputTokens then [] else calls mid) = Inr ds"
      "final = thought @ map ScriptCallEvent ds @ [FinishedEvent stop]"
      "thought = [] \<or> (\<exists>p. thought = [ReasoningEvent p])"
      "self' = \<lparr>calls = [], thoughts = reasoning_default, finish_reason = Some reason\<rparr>"
      using finish_choice_Inr[OF f(1)] by metis
    then have "event_texts final = []" "event_calls final = ds" by auto
    then show ?thesis
      using m None f(2) mid c(1) g(1,2,5) by (simp add: made_of_def split: if_splits)
  qed
qed

lemma ingest_made_of:
  assumes i: "ingest codec tool costs self chunk = (evs, Inr self')" and m: "made_of codec tool pre before self"
  shows "made_of codec tool (pre @ [chunk]) (before @ evs) self'"
proof -
  obtain mid_evs usage where u: "ingest_choices codec tool self (chunk_choices chunk) = (mid_evs, Inr self')"
    "length (chunk_choices chunk) \<le> 1" "evs = mid_evs @ usage" "event_texts usage = []" "event_calls usage = []"
    using i by (fastforce simp: ingest_def split: option.splits if_splits prod.splits sum.splits)
  have "made_of codec tool (pre @ [chunk]) (before @ mid_evs) self'"
  proof (cases "chunk_choices chunk")
    case Nil
    then have "written_text [chunk] = []" "fragments [chunk] = []"
      by (simp_all add: written_text_def fragments_def choice_deltas_def)
    then show ?thesis using u(1) Nil m made_of_cong[of "pre @ [chunk]" pre before before] by simp
  next
    case (Cons ch rest)
    then have ch: "chunk_choices chunk = [ch]" using u(2) by simp
    then have "ingest_choice codec tool self ch = (mid_evs, Inr self')"
      using u(1) by (auto split: prod.splits sum.splits)
    then show ?thesis
      using ingest_choice_made_of[OF _ m, of ch mid_evs self' chunk] ch
      by (simp add: written_text_def fragments_def choice_deltas_def)
  qed
  then show ?thesis
    using u(3-5) made_of_cong[of "pre @ [chunk]" "pre @ [chunk]" "before @ evs" "before @ mid_evs"] by simp
qed

lemma ingest_all_made_of:
  "ingest_all codec tool costs self chunks = (evs, Inr self') \<Longrightarrow> made_of codec tool pre before self \<Longrightarrow>
    made_of codec tool (pre @ chunks) (before @ evs) self'"
proof (induction chunks arbitrary: self pre before evs)
  case (Cons chunk rest)
  obtain evs1 mid evs2 where i: "ingest codec tool costs self chunk = (evs1, Inr mid)"
    "ingest_all codec tool costs mid rest = (evs2, Inr self')" "evs = evs1 @ evs2"
    using Cons.prems(1) by (auto split: prod.splits sum.splits)
  show ?case
    using Cons.IH[OF i(2) ingest_made_of[OF i(1) Cons.prems(2)]] i(3) by simp
qed simp

text \<open>C18. 
  However a provider splits a reply into chunks, the text handed out is the text written, and the
  script calls handed out are the calls gathered from all fragments by their index: the names and
  arguments are the fragments in order, the id is the one that was sent. A reply cut off at the
  output limit hands out no calls.
\<close>

theorem chat_reply_reassembled:
  assumes "ingest_all codec tool costs completion_default chunks = (evs, Inr self)"
    and "finish_reason self = Some reason"
  shows "\<exists>stop. stop_reason_of reason = Inr stop
    \<and> finish_calls codec tool (if stop = MaxOutputTokens then [] else assembled (fragments chunks)) = Inr (event_calls evs)
    \<and> event_texts evs = written_text chunks"
proof -
  have "made_of codec tool [] [] completion_default"
    by (simp add: made_of_def completion_default_def written_text_def fragments_def choice_deltas_def
        assembled_def call_count_def)
  from ingest_all_made_of[OF assms(1) this] show ?thesis
    using assms(2) by (auto simp: made_of_def)
qed

section \<open>Reasoning is kept\<close>

definition text_at :: "string \<Rightarrow> (string \<times> json) list \<Rightarrow> string" where
  "text_at f m = (case map_of m f of Some (JString t) \<Rightarrow> t | _ \<Rightarrow> [])"

definition detail_text :: "(string \<times> json) list \<Rightarrow> string" where
  "detail_text d = (case content_field d of None \<Rightarrow> [] | Some f \<Rightarrow> text_at f d)"

lemma map_of_member_insert [simp]: "map_of (member_insert k v m) = (map_of m)(k \<mapsto> v)"
proof
  fix x
  show "map_of (member_insert k v m) x = ((map_of m)(k \<mapsto> v)) x"
  proof (cases "k \<in> fst ` set m")
    case True
    then obtain w where "map_of m k = Some w" by (metis map_of_eq_None_iff option.exhaust)
    then show ?thesis using True by (simp add: member_insert_def bt_get_update)
  next
    case False
    then have "map_of m k = None" by (simp add: map_of_eq_None_iff)
    then show ?thesis using False by (simp add: member_insert_def map_add_def split: option.split)
  qed
qed

lemma merge_member_other:
  assumes "merge_member (Some f) p (k, v) = Inr q" "k \<noteq> x"
  shows "map_of q x = map_of p x"
  using assms by (auto simp: merge_member_def result_simps split: if_splits option.splits json.splits)

lemma merge_member_text:
  assumes "merge_member (Some f) p (f, v) = Inr q"
  shows "text_at f q = text_at f p @ (case v of JString t \<Rightarrow> t | _ \<Rightarrow> [])"
  using assms
  by (auto simp: merge_member_def text_at_def result_simps non_null_def json_as_str_def
      split: if_splits option.splits json.splits)

lemma merge_member_type:
  assumes "merge_member (Some f) p (''type'', JString t) = Inr q" "map_of p ''type'' = Some (JString t)" "f \<noteq> ''type''"
  shows "map_of q ''type'' = Some (JString t)"
  using assms by (auto simp: merge_member_def result_simps non_null_def)

lemma merge_members:
  assumes "foldR (merge_member (Some f)) p ms = Inr q" "distinct (map fst ms)" "f \<noteq> ''type''"
    "map_of p ''type'' = Some (JString t)" "map_of ms ''type'' \<in> {None, Some (JString t)}"
  shows "map_of q ''type'' = Some (JString t) \<and> text_at f q = text_at f p @ text_at f ms"
  using assms
proof (induction ms arbitrary: p)
  case Nil
  then show ?case by (simp add: text_at_def)
next
  case (Cons kv ms)
  obtain k v where kv: "kv = (k, v)" by (cases kv)
  obtain mid where m: "merge_member (Some f) p (k, v) = Inr mid" "foldR (merge_member (Some f)) mid ms = Inr q"
    using Cons.prems(1) kv by (auto simp: result_simps)
  have absent: "map_of ms k = None" using Cons.prems(2) kv by (simp add: map_of_eq_None_iff)
  have type: "map_of mid ''type'' = Some (JString t)"
  proof (cases "k = ''type''")
    case True
    then show ?thesis using m(1) Cons.prems(3-5) kv merge_member_type[of f p t mid] by auto
  next
    case False
    then show ?thesis using merge_member_other[OF m(1) False] Cons.prems(4) by simp
  qed
  have ms: "map_of ms ''type'' \<in> {None, Some (JString t)}"
    using Cons.prems(5) kv absent by (cases "k = ''type''") auto
  have "text_at f mid @ text_at f ms = text_at f p @ text_at f (kv # ms)"
  proof (cases "k = f")
    case True
    then show ?thesis using merge_member_text[of f p v mid] m(1) kv absent by (auto simp: text_at_def split: json.splits)
  next
    case False
    then show ?thesis using merge_member_other[OF m(1) False] kv by (simp add: text_at_def)
  qed
  then show ?case using Cons.IH[OF m(2) _ Cons.prems(3) type ms] Cons.prems(2) kv by simp
qed

lemma content_field_Some:
  "content_field d = Some f \<Longrightarrow> f \<noteq> ''type'' \<and> (\<exists>t. map_of d ''type'' = Some (JString t))"
  by (auto simp: content_field_def json_as_str_def split: option.splits if_splits json.splits bind_splits)

lemma content_field_cong: "map_of d ''type'' = map_of d' ''type'' \<Longrightarrow> content_field d = content_field d'"
  by (simp add: content_field_def)

lemma append_detail_text:
  assumes "append_detail ds d = Inr ds'" "distinct (map fst d)"
  shows "concat (map detail_text ds') = concat (map detail_text ds) @ detail_text d"
proof (cases "ds \<noteq> [] \<and> continues d (last ds)")
  case False
  then show ?thesis using assms(1) by (auto simp: append_detail_def)
next
  case True
  then obtain pre p where ds: "ds = pre @ [p]" by (metis rev_exhaust)
  obtain f where f: "content_field d = Some f" "map_of p ''type'' = map_of d ''type''"
    using True ds by (auto simp: continues_def)
  obtain t where t: "f \<noteq> ''type''" "map_of d ''type'' = Some (JString t)"
    using content_field_Some[OF f(1)] by blast
  obtain q where q: "foldR (merge_member (Some f)) p d = Inr q" "ds' = pre @ [q]"
    using assms(1) True ds f(1) by (auto simp: append_detail_def result_simps)
  have "map_of q ''type'' = Some (JString t) \<and> text_at f q = text_at f p @ text_at f d"
    using merge_members[OF q(1) assms(2) t(1)] f(2) t(2) by simp
  moreover from this have "content_field q = Some f" "content_field p = Some f"
    using f t(2) content_field_cong[of q d] content_field_cong[of p d] by simp_all
  ultimately show ?thesis
    using q(2) ds f(1) by (simp add: detail_text_def)
qed

text \<open>
  Reasoning that a provider streams in details is kept to the last character: fragments that continue
  the previous detail are merged into it and others start a new one, and read one after the other
  the details still say what was sent.
\<close>

theorem reasoning_details_kept:
  assumes "foldR append_detail old details = Inr merged" and "list_all (\<lambda>d. distinct (map fst d)) details"
  shows "concat (map detail_text merged) = concat (map detail_text (old @ details))"
  using assms
proof (induction details arbitrary: old)
  case (Cons d rest)
  then obtain mid where "append_detail old d = Inr mid" "foldR append_detail mid rest = Inr merged"
    by (auto simp: result_simps)
  then show ?case using Cons.IH[of mid] Cons.prems(2) append_detail_text[of old d mid] by simp
qed simp

theorem reasoning_details_kept_witness:
  "\<exists>merged. foldR append_detail []
      [[(''type'', JString ''reasoning.text''), (''text'', JString ''ab'')],
       [(''type'', JString ''reasoning.text''), (''text'', JString ''c''), (''index'', JNumber 0)]] = Inr merged
    \<and> length merged = 1 \<and> concat (map detail_text merged) = ''abc''"
proof -
  let ?ds = "[[(''type'', JString ''reasoning.text''), (''text'', JString ''ab'')],
       [(''type'', JString ''reasoning.text''), (''text'', JString ''c''), (''index'', JNumber 0)]]"
  let ?m = "[[(''type'', JString ''reasoning.text''), (''text'', JString ''abc''), (''index'', JNumber 0)]]"
  have run: "foldR append_detail [] ?ds = Inr ?m"
    by (simp add: append_detail_def continues_def content_field_def json_as_str_def merge_member_def non_null_def
        member_insert_def bt_update_def)
  have "concat (map detail_text ?m) = concat (map detail_text ([] @ ?ds))"
    using reasoning_details_kept[OF run] by simp
  then show ?thesis using run
    by (intro exI[of _ ?m]) (simp add: detail_text_def content_field_def json_as_str_def text_at_def)
qed

section \<open>Usage\<close>

text \<open>
  The tokens a provider reports are split without loss: when the parts it names do not exceed the
  totals, the parts of the normalized usage add up to the prompt and the completion, so the context
  in use is their sum.
\<close>

theorem usage_split_exact:
  assumes "normalize_usage codec usage costs = Some u"
    and "cache_read_tokens u + cache_write_tokens u \<le> prompt_tokens usage"
    and "reasoning_tokens u \<le> completion_tokens usage"
    and "prompt_tokens usage + completion_tokens usage \<le> usize_max"
  shows "input_tokens u + cache_read_tokens u + cache_write_tokens u = prompt_tokens usage
    \<and> output_tokens u + reasoning_tokens u = completion_tokens usage
    \<and> used_context_tokens u = prompt_tokens usage + completion_tokens usage"
proof -
  have parts: "input_tokens u + cache_read_tokens u + cache_write_tokens u = prompt_tokens usage"
    "output_tokens u + reasoning_tokens u = completion_tokens usage"
    using assms(1-3) by (auto simp: normalize_usage_def Let_def split: if_splits)
  then show ?thesis using assms(4) by (simp add: used_context_tokens_def sat_add_def)
qed

section \<open>A reply with one call\<close>

definition sample_codec :: chat_codec where
  "sample_codec =
     \<lparr>parse_chunk = (\<lambda>_. Inl ''''), parse_arguments = (\<lambda>s. Inr s), reasoning_json = (\<lambda>_. Inr JNull),
      reasoning_bytes = (\<lambda>_. Inr 0), dollars = (\<lambda>_. None), unix_seconds = 0\<rparr>"

definition sample_chunk :: "string option \<Rightarrow> tool_call_delta list \<Rightarrow> string option \<Rightarrow> chat_chunk" where
  "sample_chunk txt ds finish =
     \<lparr>chunk_error = None,
      chunk_choices = [\<lparr>choice_index = 0,
        choice_delta = \<lparr>cd_reasoning = reasoning_default, cd_content = txt, cd_tool_calls = Some ds, cd_refusal = None\<rparr>,
        choice_finish = finish\<rparr>],
      chunk_usage = None\<rparr>"

definition sample_fragment :: "string option \<Rightarrow> string option \<Rightarrow> string \<Rightarrow> tool_call_delta" where
  "sample_fragment ident nam args =
     \<lparr>td_index = 0, td_id = ident, td_kind = None, td_function = Some \<lparr>fn_name = nam, fn_arguments = Some args\<rparr>\<rparr>"

definition sample_chunks :: "chat_chunk list" where
  "sample_chunks =
     [sample_chunk (Some ''hi'') [sample_fragment (Some ''c1'') (Some ''sh'') ''ls ''] None,
      sample_chunk None [sample_fragment None None ''/tmp''] None,
      sample_chunk None [] (Some ''tool_calls'')]"

lemma sample_ingest:
  "ingest_all sample_codec (Some ''sh'') False completion_default sample_chunks =
     ([TextDelta ''chat-completions-message'' FinalAnswer ''hi'',
       ScriptCallEvent \<lparr>call_id = ''c1'', call_name = ''sh'', call_input = ''ls /tmp'', arguments_error = None, call_rewrite = None\<rparr>,
       FinishedEvent ToolCall],
      Inr \<lparr>calls = [], thoughts = reasoning_default, finish_reason = Some ''tool_calls''\<rparr>)"
  by (simp add: sample_chunks_def sample_chunk_def sample_fragment_def sample_codec_def completion_default_def
      ingest_def ingest_choice_def Let_def reasoning_append_def reasoning_is_empty_def reasoning_default_def
      reasoning_events_def text_events_def display_text_def List.map_filter_def non_empty_def append_calls_def
      append_call_def resized_def extend_call_def set_call_id_def push_fragment_def MAX_TOOL_CALLS_def
      MAX_TOOL_BYTES_def sat_add_def usize_max_def pending_call_default_def finish_choice_def stop_reason_of_def
      finish_calls_def finish_call_def id_try_new_def validate_id_def)

theorem chat_reply_reassembled_witness:
  "finish_calls sample_codec (Some ''sh'') (assembled (fragments sample_chunks)) =
     Inr [\<lparr>call_id = ''c1'', call_name = ''sh'', call_input = ''ls /tmp'', arguments_error = None, call_rewrite = None\<rparr>]
   \<and> written_text sample_chunks = ''hi''"
  using chat_reply_reassembled[OF sample_ingest, of "''tool_calls''"] by (auto simp: stop_reason_of_def)

end
