(* ===== verification/Chat_Messages.thy ===== *)
theory Chat_Messages
  imports Chat_Stream Requests
begin

text \<open>
  The request of the chat-completions provider (crates/llm-providers/
  kraai-provider-openai-chat-completions, messages.rs, the request half of wire.rs and the request
  built in provider.rs): the prepared history becomes wire messages with their tool calls and
  images. Serialising script arguments and reading a stored reasoning payload are serde's and
  arguments. Applying the model's options to the JSON body is not modelled.
\<close>

section \<open>The wire\<close>

record function_call =
  fc_id :: string
  fc_name :: string
  fc_arguments :: string

datatype request_content_part = WireText string | WireImageUrl string

datatype request_content = ContentText string | ContentParts "request_content_part list"

datatype request_message =
    WireSystem string
  | WireUser request_content
  | WireAssistant reasoning "string option" "function_call list"
  | WireTool string string

record chat_encoder =
  print_arguments :: "string \<Rightarrow> (string, string) result"
  reasoning_of_json :: "json \<Rightarrow> (string, reasoning) result"

definition reported_as :: "(string, 'a) result \<Rightarrow> (decode_error, 'a) result" where
  "reported_as r = (case r of Inl e \<Rightarrow> Inl (DecodeReport e) | Inr x \<Rightarrow> Inr x)"

section \<open>Messages\<close>

definition wire_part :: "resolved_images \<Rightarrow> content_part \<Rightarrow> (decode_error, request_content_part) result" where
  "wire_part images part = (case part of
     TextPart t \<Rightarrow> Inr (WireText t)
   | ImagePart img \<Rightarrow> bindR (reported_as (data_url images img)) (\<lambda>url. Inr (WireImageUrl url)))"

definition content_parts :: "message_content \<Rightarrow> resolved_images \<Rightarrow> (decode_error, request_content) result" where
  "content_parts content images =
     (if \<not> has_images content then Inr (ContentText (content_display content))
      else bindR (mapR (wire_part images) content) (\<lambda>parts. Inr (ContentParts parts)))"

text \<open>A call whose arguments could not be read is replayed as the model sent it.\<close>

definition replay_call :: "chat_encoder \<Rightarrow> script_call \<Rightarrow> (decode_error, function_call) result" where
  "replay_call enc call =
     bindR (case arguments_error call of
              Some _ \<Rightarrow> Inr (call_input call)
            | None \<Rightarrow> reported_as (print_arguments enc (call_input call))) (\<lambda>args.
     Inr \<lparr>fc_id = call_id call, fc_name = call_name call, fc_arguments = args\<rparr>)"

type_synonym assistant_parts = "string list \<times> reasoning \<times> function_call list"

definition wire_item ::
  "chat_codec \<Rightarrow> chat_encoder \<Rightarrow> assistant_parts \<Rightarrow> assistant_item \<Rightarrow> (decode_error, assistant_parts) result" where
  "wire_item codec enc st item = (case st of (texts, thought, tool_calls) \<Rightarrow>
     (case item of
        Reasoning _ payload \<Rightarrow>
          bindR (reported_as (reasoning_of_json enc payload)) (\<lambda>r.
          bindR (reasoning_append codec thought r) (\<lambda>thought'. Inr (texts, thought', tool_calls)))
      | AssistantText _ value \<Rightarrow> Inr (texts @ [value], thought, tool_calls)
      | ScriptCallItem call \<Rightarrow>
          bindR (replay_call enc call) (\<lambda>fc. Inr (texts, thought, tool_calls @ [fc]))))"

definition wire_message ::
  "chat_codec \<Rightarrow> chat_encoder \<Rightarrow> resolved_images \<Rightarrow> conversation_item \<Rightarrow> (decode_error, request_message list) result" where
  "wire_message codec enc images message = (case message of
     Compaction _ _ \<Rightarrow> Inr []
   | SystemItem t \<Rightarrow> Inr [WireSystem t]
   | FileContext t \<Rightarrow> Inr [WireUser (ContentText t)]
   | UserItem content \<Rightarrow> bindR (content_parts content images) (\<lambda>c. Inr [WireUser c])
   | AssistantItems items \<Rightarrow>
       bindR (foldR (wire_item codec enc) ([], reasoning_default, []) items) (\<lambda>(texts, thought, tool_calls).
       Inr (if texts \<noteq> [] \<or> tool_calls \<noteq> []
            then [WireAssistant thought (if texts \<noteq> [] then Some (join [newline, newline] texts) else None) tool_calls]
            else []))
   | ScriptResult call output _ \<Rightarrow> Inr [WireTool call (content_display output)])"

definition normalize_chat_messages ::
  "chat_codec \<Rightarrow> chat_encoder \<Rightarrow> conversation_item list \<Rightarrow> resolved_images \<Rightarrow> string
     \<Rightarrow> (decode_error, request_message list) result" where
  "normalize_chat_messages codec enc messages images provider =
     bindR (mapR (wire_message codec enc images) (prepare_history messages provider))
       (\<lambda>groups. Inr (concat groups))"

section \<open>The request\<close>

record chat_request =
  chat_model :: string
  chat_messages :: "request_message list"
  chat_tools :: "script_tool_definition list option"
  tool_choice :: string
  max_completion_tokens :: "nat option"
  parallel_tool_calls :: "bool option"
  chat_stream :: bool
  include_usage :: bool

fun has_tools :: "request_message \<Rightarrow> bool" where
  "has_tools (WireAssistant _ _ tool_calls) = (tool_calls \<noteq> [])"
| "has_tools (WireTool _ _) = True"
| "has_tools _ = False"

definition chat_completion_request ::
  "chat_codec \<Rightarrow> chat_encoder \<Rightarrow> resolved_images \<Rightarrow> string \<Rightarrow> string \<Rightarrow> nat option \<Rightarrow> provider_request
     \<Rightarrow> (decode_error, chat_request) result" where
  "chat_completion_request codec enc images provider model limit request =
     bindR (normalize_chat_messages codec enc (request_messages request) images provider) (\<lambda>messages.
     let tool = (case script_tool request of
                   Some t \<Rightarrow> Some t
                 | None \<Rightarrow> if list_ex has_tools messages then Some nushell_tool else None)
     in Inr \<lparr>chat_model = model, chat_messages = messages, chat_tools = map_option (\<lambda>t. [t]) tool,
             tool_choice = (if script_tool request \<noteq> None then ''auto'' else ''none''),
             max_completion_tokens = limit,
             parallel_tool_calls = map_option (\<lambda>_. False) (script_tool request),
             chat_stream = True, include_usage = True\<rparr>)"

section \<open>A call is replayed as it was sent\<close>




section \<open>Nothing is lost on the wire\<close>

definition wire_exchanges :: "request_message \<Rightarrow> (string \<times> bool) list" where
  "wire_exchanges m = (case m of
     WireAssistant _ _ tool_calls \<Rightarrow> map (\<lambda>fc. (fc_id fc, True)) tool_calls
   | WireTool call _ \<Rightarrow> [(call, False)]
   | _ \<Rightarrow> [])"

definition wire_urls :: "request_message \<Rightarrow> string list" where
  "wire_urls m = (case m of
     WireUser (ContentParts ps) \<Rightarrow>
       List.map_filter (\<lambda>p. case p of WireImageUrl url \<Rightarrow> Some url | WireText _ \<Rightarrow> None) ps
   | _ \<Rightarrow> [])"

lemma has_tools_iff: "has_tools = (\<lambda>m. wire_exchanges m \<noteq> [])"
proof
  fix m
  show "has_tools m = (wire_exchanges m \<noteq> [])" by (cases m) (auto simp: wire_exchanges_def)
qed

lemma wire_items_calls:
  "foldR (wire_item codec enc) (texts, thought, tool_calls) items = Inr (texts', thought', tool_calls') \<Longrightarrow>
    map fc_id tool_calls' = map fc_id tool_calls @ List.map_filter script_call_id items"
proof (induction items arbitrary: texts thought tool_calls)
  case (Cons item items)
  obtain a b c where m: "wire_item codec enc (texts, thought, tool_calls) item = Inr (a, b, c)"
    "foldR (wire_item codec enc) (a, b, c) items = Inr (texts', thought', tool_calls')"
    using Cons.prems by (auto simp: result_simps)
  have "map fc_id c = map fc_id tool_calls @ (case script_call_id item of None \<Rightarrow> [] | Some i \<Rightarrow> [i])"
    using m(1) by (cases item) (auto simp: wire_item_def replay_call_def result_simps split: option.splits)
  then show ?case using Cons.IH[OF m(2)] by (simp add: List.map_filter_def split: option.splits)
qed (simp add: List.map_filter_def)

lemma content_parts_urls:
  assumes "content_parts content images = Inr c"
  shows "map Inr (wire_urls (WireUser c)) = map (data_url images) (List.map_filter part_image content)"
proof (cases "has_images content")
  case False
  then show ?thesis
    using assms by (auto simp: content_parts_def wire_urls_def has_images_def content_images_def)
next
  case True
  then obtain parts where p: "mapR (wire_part images) content = Inr parts" "c = ContentParts parts"
    using assms by (auto simp: content_parts_def result_simps)
  have "list_all2 (\<lambda>p w. wire_part images p = Inr w) content parts" using p(1) by (simp add: mapR_eq_Inr)
  then have "map Inr (List.map_filter (\<lambda>p. case p of WireImageUrl url \<Rightarrow> Some url | WireText _ \<Rightarrow> None) parts)
      = map (data_url images) (List.map_filter part_image content)"
  proof (induction rule: list_all2_induct)
    case (Cons p content w parts)
    then show ?case
      by (cases p) (auto simp: wire_part_def reported_as_def result_simps List.map_filter_def split: sum.splits)
  qed (simp add: List.map_filter_def)
  then show ?thesis using p(2) by (simp add: wire_urls_def)
qed

lemma wire_message_exact:
  assumes "wire_message codec enc images x = Inr ws"
    "case x of ScriptResult _ output _ \<Rightarrow> \<not> has_images output | _ \<Rightarrow> True"
  shows "concat (map wire_exchanges ws) = exchanged_calls x
    \<and> map Inr (concat (map wire_urls ws)) = map (data_url images) (attachments [x])"
proof (cases x)
  case (AssistantItems items)
  then obtain texts thought tool_calls where f:
    "foldR (wire_item codec enc) ([], reasoning_default, []) items = Inr (texts, thought, tool_calls)"
    "ws = (if texts \<noteq> [] \<or> tool_calls \<noteq> []
       then [WireAssistant thought (if texts \<noteq> [] then Some (join [newline, newline] texts) else None) tool_calls]
       else [])"
    using assms(1) by (auto simp: wire_message_def result_simps)
  have "map (\<lambda>fc. (fc_id fc, True)) tool_calls = map (\<lambda>c. (c, True)) (List.map_filter script_call_id items)"
    using arg_cong[OF wire_items_calls[OF f(1)], of "map (\<lambda>c. (c, True))"] by (simp add: comp_def)
  then show ?thesis
    using AssistantItems f(2) by (auto simp: wire_exchanges_def exchanged_calls_def wire_urls_def)
next
  case (UserItem content)
  then obtain c where "content_parts content images = Inr c" "ws = [WireUser c]"
    using assms(1) by (auto simp: wire_message_def result_simps)
  then show ?thesis
    using content_parts_urls UserItem by (auto simp: wire_exchanges_def exchanged_calls_def)
qed (use assms in \<open>auto simp: wire_message_def wire_exchanges_def exchanged_calls_def wire_urls_def
    has_images_def content_images_def\<close>)

lemma prepared_results_plain:
  "y \<in> set (prepare_message provider x) \<Longrightarrow> case y of ScriptResult _ output _ \<Rightarrow> \<not> has_images output | _ \<Rightarrow> True"
  by (cases x) (auto simp: script_result_images_def split: if_splits)


text \<open>C40. 
  The messages on the wire are the conversation: every script call and every result is there, in
  order, every image of the conversation is there, in order and as its resolved data, and the tool
  is declared exactly when the model may call it or the history has such an exchange, as providers
  demand; it may be called only when the request offers it.
\<close>

theorem chat_request_exact:
  assumes "chat_completion_request codec enc images provider model limit request = Inr wire"
  shows "concat (map wire_exchanges (chat_messages wire)) = concat (map exchanged_calls (request_messages request))
    \<and> map Inr (concat (map wire_urls (chat_messages wire))) =
        map (data_url images) (attachments (request_messages request))
    \<and> (chat_tools wire = None \<longleftrightarrow>
        script_tool request = None \<and> concat (map exchanged_calls (request_messages request)) = [])
    \<and> (tool_choice wire = ''auto'' \<longleftrightarrow> script_tool request \<noteq> None)"
proof -
  let ?h = "prepare_history (request_messages request) provider"
  obtain groups where g: "mapR (wire_message codec enc images) ?h = Inr groups" "chat_messages wire = concat groups"
    and t: "chat_tools wire = map_option (\<lambda>t. [t]) (case script_tool request of Some t \<Rightarrow> Some t
        | None \<Rightarrow> if list_ex has_tools (concat groups) then Some nushell_tool else None)"
      "tool_choice wire = (if script_tool request \<noteq> None then ''auto'' else ''none'')"
    using assms by (auto simp: chat_completion_request_def normalize_chat_messages_def result_simps Let_def)
  have plain: "\<forall>y \<in> set ?h. case y of ScriptResult _ output _ \<Rightarrow> \<not> has_images output | _ \<Rightarrow> True"
    using prepared_results_plain by (auto simp: prepare_history_def)
  have "list_all2 (\<lambda>x ws. wire_message codec enc images x = Inr ws) ?h groups" using g(1) by (simp add: mapR_eq_Inr)
  then have same: "concat (map wire_exchanges (concat groups)) = concat (map exchanged_calls ?h)
      \<and> map Inr (concat (map wire_urls (concat groups))) = map (data_url images) (attachments ?h)"
    using plain
  proof (induction rule: list_all2_induct)
    case (Cons x xs ws groups)
    then show ?case
      using wire_message_exact[of codec enc images x ws] by auto
  qed (simp add: attachments_def)
  have "list_ex has_tools (concat groups) \<longleftrightarrow> concat (map wire_exchanges (concat groups)) \<noteq> []"
    by (simp only: has_tools_iff list_ex_iff concat_eq_Nil_conv) auto
  then show ?thesis
    using g(2) t same by (auto simp: prepare_history_images prepare_history_calls split: option.splits)
qed

theorem chat_request_exact_witness:
  "\<exists>wire. chat_completion_request sample_codec \<lparr>print_arguments = (\<lambda>s. Inr s), reasoning_of_json = (\<lambda>_. Inl [])\<rparr> []
      ''p'' ''m'' None
      \<lparr>request_messages = [SystemItem ''s'',
         AssistantItems [ScriptCallItem \<lparr>call_id = ''c1'', call_name = ''sh'', call_input = ''ls'', arguments_error = None, call_rewrite = None\<rparr>],
         ScriptResult ''c1'' (content_of_text ''out'') \<lparr>outcome_status = Completed, outcome_exit_code = Some 0\<rparr>],
       script_tool = None, cacheable_messages = None, request_options = []\<rparr> = Inr wire
    \<and> concat (map wire_exchanges (chat_messages wire)) = [(''c1'', True), (''c1'', False)]
    \<and> chat_tools wire \<noteq> None"
proof -
  let ?enc = "\<lparr>print_arguments = (\<lambda>s. Inr s), reasoning_of_json = (\<lambda>_. Inl [])\<rparr>"
  let ?msgs = "[SystemItem ''s'',
         AssistantItems [ScriptCallItem \<lparr>call_id = ''c1'', call_name = ''sh'', call_input = ''ls'', arguments_error = None, call_rewrite = None\<rparr>],
         ScriptResult ''c1'' (content_of_text ''out'') \<lparr>outcome_status = Completed, outcome_exit_code = Some 0\<rparr>]"
  let ?req = "\<lparr>request_messages = ?msgs, script_tool = None, cacheable_messages = None, request_options = []\<rparr>"
  have ex: "concat (map exchanged_calls ?msgs) = [(''c1'', True), (''c1'', False)]"
    by (simp add: exchanged_calls_def List.map_filter_def)
  obtain wire where run: "chat_completion_request sample_codec ?enc [] ''p'' ''m'' None ?req = Inr wire"
    by (simp add: chat_completion_request_def normalize_chat_messages_def prepare_history_def wire_message_def
        wire_item_def replay_call_def reported_as_def)
  from chat_request_exact[OF run] show ?thesis using run ex by auto
qed

end
