(* ===== verification/Executions.thy ===== *)
theory Executions
  imports Queue
begin

text \<open>
  The lifecycle of a script execution (crates/kraai-persistence, executions.rs): prepared, possibly
  waiting for approval, running, finished with a status. Records are created once and changed only
  by the operations here, each in one transaction behind the ownership check. Output is appended
  while the script runs and replaced by the final output when it finishes. The clock and the
  generated id of the result message are arguments.
\<close>

section \<open>Operations\<close>

fun phase_debug :: "script_execution_phase \<Rightarrow> string" where
  "phase_debug Prepared = ''Prepared''"
| "phase_debug AwaitingApproval = ''AwaitingApproval''"
| "phase_debug Running = ''Running''"
| "phase_debug Finished = ''Finished''"

fun status_debug :: "script_execution_status \<Rightarrow> string" where
  "status_debug Completed = ''Completed''"
| "status_debug StatusDenied = ''Denied''"
| "status_debug InvalidScript = ''InvalidScript''"
| "status_debug TimedOut = ''TimedOut''"
| "status_debug Cancelled = ''Cancelled''"
| "status_debug SandboxUnavailable = ''SandboxUnavailable''"
| "status_debug FailedToStart = ''FailedToStart''"
| "status_debug HostUnavailable = ''HostUnavailable''"
| "status_debug RuntimeError = ''RuntimeError''"

definition exec_outcome :: "script_execution_record \<Rightarrow> (store_error, script_execution_outcome) result" where
  "exec_outcome self =
     bindR (ok_or (exec_status self) (Report (''Execution '' @ exec_id self @ '' has no terminal status''))) (\<lambda>st.
     Inr \<lparr>outcome_status = st, outcome_exit_code = exit_code self\<rparr>)"

definition elapsed_millis :: "script_execution_record \<Rightarrow> nat option" where
  "elapsed_millis self = map_option (\<lambda>started. sat_sub (updated_at_millis self) started) (started_at_millis self)"

definition execution_not_found :: "string \<Rightarrow> store_error" where
  "execution_not_found k = Report (''Execution not found: '' @ k)"

definition exec_update ::
  "database \<Rightarrow> lease_tokens \<Rightarrow> string \<Rightarrow> nat
     \<Rightarrow> (database \<Rightarrow> script_execution_record \<Rightarrow> (store_error, database \<times> script_execution_record) result)
     \<Rightarrow> (store_error, script_execution_record \<times> database) result" where
  "exec_update db leases k now f =
     bindR (read_record as_execution db ''execution'' k) (\<lambda>found.
     bindR (ok_or found (execution_not_found k)) (\<lambda>r.
     bindR (assert_owner db leases (exec_session_id r)) (\<lambda>_.
     bindR (f db r) (\<lambda>(db, r).
     let r = r\<lparr>updated_at_millis := now\<rparr>
     in Inr (r, write_record db ''execution'' k (Some (exec_session_id r)) (ExecutionRecord r))))))"

definition require_phase ::
  "script_execution_record \<Rightarrow> script_execution_phase list \<Rightarrow> (store_error, unit) result" where
  "require_phase r expected =
     ensure (exec_phase r \<in> set expected)
       (Report (''Execution '' @ exec_id r @ '' has status '' @ phase_debug (exec_phase r)
          @ ''; expected one of ['' @ join '', '' (map phase_debug expected) @ '']''))"

definition exec_transition ::
  "database \<Rightarrow> lease_tokens \<Rightarrow> string \<Rightarrow> nat \<Rightarrow> script_execution_phase list \<Rightarrow> script_execution_phase
     \<Rightarrow> (store_error, script_execution_record \<times> database) result" where
  "exec_transition db leases k now expected phase =
     exec_update db leases k now (\<lambda>db r.
       bindR (require_phase r expected) (\<lambda>_.
       let r = r\<lparr>exec_phase := phase\<rparr>;
           r = (if phase = Running then r\<lparr>started_at_millis := Some now\<rparr> else r)
       in Inr (db, r)))"

text \<open>Adjacent chunks of one stream are joined and empty ones dropped.\<close>

definition coalesce_step ::
  "(script_output_stream \<times> string) list \<Rightarrow> script_output_stream \<times> string
     \<Rightarrow> (script_output_stream \<times> string) list" where
  "coalesce_step coalesced chunk = (case chunk of (stream, bytes) \<Rightarrow>
     if bytes = [] then coalesced
     else if coalesced \<noteq> [] \<and> fst (last coalesced) = stream
          then butlast coalesced @ [(stream, snd (last coalesced) @ bytes)]
          else coalesced @ [(stream, bytes)])"

definition coalesce_output ::
  "(script_output_stream \<times> string) list \<Rightarrow> (script_output_stream \<times> string) list" where
  "coalesce_output chunks = foldl coalesce_step [] chunks"

definition exec_create ::
  "database \<Rightarrow> lease_tokens \<Rightarrow> new_script_execution \<Rightarrow> string \<Rightarrow> nat
     \<Rightarrow> (store_error, script_execution_record \<times> database) result" where
  "exec_create db leases execution fresh_message_id timestamp =
     bindR (case id_try_new validate_message_id (new_id execution) of
              Inl e \<Rightarrow> Inl (Report e) | Inr _ \<Rightarrow> Inr ()) (\<lambda>_.
     bindR (assert_owner db leases (new_session_id execution)) (\<lambda>_.
     bindR (read_record as_execution db ''execution'' (new_id execution)) (\<lambda>found.
     bindR (ensure (found = None) (Report ''Script execution already exists'')) (\<lambda>_.
     let r = \<lparr>exec_id = new_id execution, result_message_id = fresh_message_id, exec_images = [],
              exec_session_id = new_session_id execution,
              source_message_id = new_source_message_id execution, exec_call_id = new_call_id execution,
              exec_profile = new_profile execution, exec_rewrites = new_rewrites execution,
              requested_capabilities = new_requested_capabilities execution,
              effective_capabilities = new_effective_capabilities execution,
              exec_timeout = new_timeout execution, exec_phase = Prepared, exec_status = None,
              created_at_millis = timestamp, started_at_millis = None, updated_at_millis = timestamp,
              exit_code = None, sandbox_denied = False, exec_error = None\<rparr>
     in bindR (ensure (bt_get (execution_sources db) (exec_id r) = None)
          (Report ''UNIQUE constraint failed: execution_sources.execution_id'')) (\<lambda>_.
        let db = db\<lparr>execution_sources := bt_insert (exec_id r) (new_source execution) (execution_sources db)\<rparr>
        in Inr (r, write_record db ''execution'' (exec_id r) (Some (exec_session_id r)) (ExecutionRecord r)))))))"

definition exec_get :: "database \<Rightarrow> string \<Rightarrow> (store_error, script_execution_record option) result" where
  "exec_get db k = read_record as_execution db ''execution'' k"

definition list_for_session :: "database \<Rightarrow> string \<Rightarrow> (store_error, script_execution_record list) result" where
  "list_for_session db s = list_records as_execution db ''execution'' (Some s)"

definition list_all_executions :: "database \<Rightarrow> (store_error, script_execution_record list) result" where
  "list_all_executions db = list_records as_execution db ''execution'' None"

definition read_source :: "database \<Rightarrow> string \<Rightarrow> (store_error, string) result" where
  "read_source db k = ok_or (bt_get (execution_sources db) k) (Report ''Query returned no rows'')"

definition read_output_row ::
  "persisted_script_output \<Rightarrow> string \<times> string \<times> string \<Rightarrow> (store_error, persisted_script_output) result" where
  "read_output_row output row = (case row of (_, stream, bytes) \<Rightarrow>
     if stream = ''stdout'' then Inr (output\<lparr>out_stdout := out_stdout output @ bytes\<rparr>)
     else if stream = ''stderr'' then Inr (output\<lparr>out_stderr := out_stderr output @ bytes\<rparr>)
     else Inl (Report ''Invalid stored output stream''))"

definition read_output :: "database \<Rightarrow> string \<Rightarrow> (store_error, persisted_script_output) result" where
  "read_output db k =
     bindR (read_record as_execution db ''execution'' k) (\<lambda>found.
     bindR (ensure (found \<noteq> None) (execution_not_found k)) (\<lambda>_.
     foldR read_output_row \<lparr>out_stdout = [], out_stderr = []\<rparr>
       (filter (\<lambda>(e, _). e = k) (execution_output db))))"

text \<open>\<open>try_fold(image.byte_length, u64::checked_add)\<close>.\<close>

fun image_total :: "nat \<Rightarrow> nat list \<Rightarrow> nat option" where
  "image_total acc [] = Some acc"
| "image_total acc (n # ns) = Option.bind (checked_add u64_max acc n) (\<lambda>acc'. image_total acc' ns)"

definition attach_image ::
  "nat \<Rightarrow> image_attachment \<Rightarrow> script_execution_record \<Rightarrow> (store_error, script_execution_record) result" where
  "attach_image sequence img r =
     (case bt_get (exec_images r) sequence of
        Some existing \<Rightarrow>
          bindR (ensure (existing = img) (Report ''Image attachment sequence reused with different content'')) (\<lambda>_. Inr r)
      | None \<Rightarrow>
          bindR (require_phase r [Running]) (\<lambda>_.
          bindR (ensure (length (exec_images r) < max_image_attachments)
                   (Report ''Too many image attachments in one script execution'')) (\<lambda>_.
          bindR (ensure (case image_total (byte_length img) (map (\<lambda>(_, i). byte_length i) (exec_images r)) of
                           None \<Rightarrow> False | Some n \<Rightarrow> n \<le> max_request_image_bytes)
                   (Report ''Image attachments exceed the execution byte limit'')) (\<lambda>_.
          Inr (r\<lparr>exec_images := bt_insert sequence img (exec_images r)\<rparr>)))))"

definition append_image ::
  "database \<Rightarrow> lease_tokens \<Rightarrow> string \<Rightarrow> nat \<Rightarrow> nat \<Rightarrow> image_attachment \<Rightarrow> (store_error, database) result" where
  "append_image db leases k now sequence img =
     bindR (case image_validate img of Inl e \<Rightarrow> Inl (Report e) | Inr _ \<Rightarrow> Inr ()) (\<lambda>_.
     bindR (ensure (0 < sequence) (Report ''Image attachment sequence must be positive'')) (\<lambda>_.
     state_of (exec_update db leases k now (\<lambda>db r.
       bindR (attach_image sequence img r) (\<lambda>r. Inr (db, r))))))"

definition mark_awaiting_approval ::
  "database \<Rightarrow> lease_tokens \<Rightarrow> string \<Rightarrow> nat \<Rightarrow> (store_error, script_execution_record \<times> database) result" where
  "mark_awaiting_approval db leases k now = exec_transition db leases k now [Prepared] AwaitingApproval"

definition mark_running ::
  "database \<Rightarrow> lease_tokens \<Rightarrow> string \<Rightarrow> nat \<Rightarrow> (store_error, script_execution_record \<times> database) result" where
  "mark_running db leases k now = exec_transition db leases k now [Prepared, AwaitingApproval] Running"

fun stream_name :: "script_output_stream \<Rightarrow> string" where
  "stream_name Stdout = ''stdout''"
| "stream_name Stderr = ''stderr''"

definition append_output ::
  "database \<Rightarrow> lease_tokens \<Rightarrow> string \<Rightarrow> nat \<Rightarrow> (script_output_stream \<times> string) list
     \<Rightarrow> (store_error, database) result" where
  "append_output db leases k now chunks =
     (let chunks = coalesce_output chunks
      in if chunks = [] then Inr db
         else state_of (exec_update db leases k now (\<lambda>db r.
           bindR (require_phase r [Running]) (\<lambda>_.
           Inr (db\<lparr>execution_output := execution_output db
                     @ map (\<lambda>(stream, bytes). (exec_id r, stream_name stream, bytes)) chunks\<rparr>, r)))))"

fun completion_allowed :: "script_execution_phase \<Rightarrow> script_execution_status \<Rightarrow> bool" where
  "completion_allowed current StatusDenied = (current = Prepared \<or> current = AwaitingApproval)"
| "completion_allowed current InvalidScript = (current = Prepared \<or> current = AwaitingApproval)"
| "completion_allowed current FailedToStart = (current = Prepared \<or> current = AwaitingApproval \<or> current = Running)"
| "completion_allowed current HostUnavailable = (current = Prepared \<or> current = AwaitingApproval \<or> current = Running)"
| "completion_allowed current SandboxUnavailable = (current = Prepared \<or> current = AwaitingApproval \<or> current = Running)"
| "completion_allowed current RuntimeError = (current = Prepared \<or> current = AwaitingApproval \<or> current = Running)"
| "completion_allowed current Cancelled = (current = AwaitingApproval \<or> current = Running)"
| "completion_allowed current Completed = (current = Running)"
| "completion_allowed current TimedOut = (current = Running)"

definition require_completion_transition ::
  "script_execution_phase \<Rightarrow> script_execution_status \<Rightarrow> string \<Rightarrow> (store_error, unit) result" where
  "require_completion_transition current st k =
     ensure (completion_allowed current st)
       (Report (''Invalid script execution transition for '' @ k @ '': '' @ phase_debug current @ '' -> '' @ status_debug st))"

definition exec_finish ::
  "database \<Rightarrow> lease_tokens \<Rightarrow> string \<Rightarrow> nat \<Rightarrow> script_execution_completion
     \<Rightarrow> (store_error, script_execution_record \<times> database) result" where
  "exec_finish db leases k now completion =
     exec_update db leases k now (\<lambda>db r.
       bindR (require_completion_transition (exec_phase r) (completion_status completion) (exec_id r)) (\<lambda>_.
       let rows = filter (\<lambda>(e, _). e \<noteq> exec_id r) (execution_output db)
             @ (if completion_stdout completion = [] then [] else [(exec_id r, ''stdout'', completion_stdout completion)])
             @ (if completion_stderr completion = [] then [] else [(exec_id r, ''stderr'', completion_stderr completion)])
       in Inr (db\<lparr>execution_output := rows\<rparr>,
               r\<lparr>exec_phase := Finished, exec_status := Some (completion_status completion),
                 exit_code := completion_exit_code completion,
                 sandbox_denied := completion_sandbox_denied completion,
                 exec_error := completion_error completion\<rparr>)))"

section \<open>The lifecycle as a machine\<close>

datatype exec_op =
  MarkAwaiting
| MarkRunning
| AppendImage nat image_attachment
| AppendOutput "(script_output_stream \<times> string) list"
| FinishExec script_execution_completion

fun exec_apply :: "exec_op \<Rightarrow> database \<Rightarrow> lease_tokens \<Rightarrow> string \<Rightarrow> nat \<Rightarrow> (store_error, database) result" where
  "exec_apply MarkAwaiting db leases k now = state_of (mark_awaiting_approval db leases k now)"
| "exec_apply MarkRunning db leases k now = state_of (mark_running db leases k now)"
| "exec_apply (AppendImage n img) db leases k now = append_image db leases k now n img"
| "exec_apply (AppendOutput chunks) db leases k now = append_output db leases k now chunks"
| "exec_apply (FinishExec completion) db leases k now = state_of (exec_finish db leases k now completion)"

text \<open>What an operation does to the record, on success.\<close>

inductive exec_moves :: "exec_op \<Rightarrow> nat \<Rightarrow> script_execution_record \<Rightarrow> script_execution_record \<Rightarrow> bool" where
  awaiting: "exec_phase r = Prepared \<Longrightarrow> exec_moves MarkAwaiting now r (r\<lparr>exec_phase := AwaitingApproval\<rparr>)"
| running: "exec_phase r \<in> {Prepared, AwaitingApproval} \<Longrightarrow>
    exec_moves MarkRunning now r (r\<lparr>exec_phase := Running, started_at_millis := Some now\<rparr>)"
| resend: "bt_get (exec_images r) n = Some img \<Longrightarrow> 0 < n \<Longrightarrow> exec_moves (AppendImage n img) now r r"
| attach: "bt_get (exec_images r) n = None \<Longrightarrow> 0 < n \<Longrightarrow> image_validate img = Inr () \<Longrightarrow> exec_phase r = Running \<Longrightarrow>
    length (exec_images r) < max_image_attachments \<Longrightarrow>
    byte_length img + sum_list (map (\<lambda>(_, i). byte_length i) (exec_images r)) \<le> max_request_image_bytes \<Longrightarrow>
    exec_moves (AppendImage n img) now r (r\<lparr>exec_images := bt_insert n img (exec_images r)\<rparr>)"
| streamed: "exec_phase r = Running \<Longrightarrow> exec_moves (AppendOutput chunks) now r r"
| finish: "completion_allowed (exec_phase r) (completion_status c) \<Longrightarrow>
    exec_moves (FinishExec c) now r
      (r\<lparr>exec_phase := Finished, exec_status := Some (completion_status c),
         exit_code := completion_exit_code c, sandbox_denied := completion_sandbox_denied c,
         exec_error := completion_error c\<rparr>)"

inductive_cases exec_moves_cases: "exec_moves op now r r'"

lemma image_total_iff:
  assumes "a \<le> u64_max"
  shows "image_total a ns = Some t \<longleftrightarrow> t = a + sum_list ns \<and> a + sum_list ns \<le> u64_max"
  using assms
proof (induction ns arbitrary: a)
  case (Cons n ns)
  show ?case
  proof (cases "a + n \<le> u64_max")
    case True
    then show ?thesis using Cons.IH[OF True] by (simp add: checked_add_def ac_simps)
  next
    case False
    then show ?thesis by (simp add: checked_add_def)
  qed
qed auto

lemma exec_update_iff:
  "exec_update db leases k now f = Inr (r', db') \<longleftrightarrow>
     (\<exists>r db1 r1. read_record as_execution db ''execution'' k = Inr (Some r)
        \<and> assert_owner db leases (exec_session_id r) = Inr () \<and> f db r = Inr (db1, r1)
        \<and> r' = r1\<lparr>updated_at_millis := now\<rparr>
        \<and> db' = write_record db1 ''execution'' k (Some (exec_session_id r1)) (ExecutionRecord r'))"
  by (auto simp: exec_update_def result_simps Let_def)

lemma read_execution_iff:
  "read_record as_execution db ''execution'' k = Inr (Some r) \<longleftrightarrow>
     (\<exists>row. bt_get (records db) (''execution'', k) = Some row \<and> record_data_of row = ExecutionRecord r)"
  by (auto simp: read_record_def split: option.splits) (metis as_execution.elims option.sel option.simps(3))

text \<open>The rows of the output table an operation leaves.\<close>

fun output_after :: "exec_op \<Rightarrow> string \<Rightarrow> (string \<times> string \<times> string) list \<Rightarrow> (string \<times> string \<times> string) list" where
  "output_after (AppendOutput chunks) k rows =
     rows @ map (\<lambda>(stream, bytes). (k, stream_name stream, bytes)) (coalesce_output chunks)"
| "output_after (FinishExec c) k rows =
     filter (\<lambda>(e, _). e \<noteq> k) rows
       @ (if completion_stdout c = [] then [] else [(k, ''stdout'', completion_stdout c)])
       @ (if completion_stderr c = [] then [] else [(k, ''stderr'', completion_stderr c)])"
| "output_after _ k rows = rows"

lemma exec_apply_cases:
  assumes "exec_apply op db leases k now = Inr db'"
  obtains (skip) chunks where "op = AppendOutput chunks" "coalesce_output chunks = []" "db' = db"
  | (move) r r1 where "read_record as_execution db ''execution'' k = Inr (Some r)"
      "assert_owner db leases (exec_session_id r) = Inr ()" "exec_moves op now r r1"
      "db' = write_record (db\<lparr>execution_output := output_after op (exec_id r) (execution_output db)\<rparr>)
         ''execution'' k (Some (exec_session_id r)) (ExecutionRecord (r1\<lparr>updated_at_millis := now\<rparr>))"
      "exec_session_id r1 = exec_session_id r" "exec_id r1 = exec_id r"
proof (cases op)
  case MarkAwaiting
  then show thesis
    using assms
    by (auto simp: mark_awaiting_approval_def exec_transition_def result_simps exec_update_iff
        require_phase_def Let_def intro!: move exec_moves.awaiting)
next
  case MarkRunning
  then show thesis
    using assms
    by (auto simp: mark_running_def exec_transition_def result_simps exec_update_iff
        require_phase_def Let_def intro!: move exec_moves.running)
next
  case (AppendImage n img)
  then obtain r r1 where r: "read_record as_execution db ''execution'' k = Inr (Some r)"
      "assert_owner db leases (exec_session_id r) = Inr ()" "attach_image n img r = Inr r1"
      "image_validate img = Inr ()" "0 < n"
      "db' = write_record db ''execution'' k (Some (exec_session_id r1)) (ExecutionRecord (r1\<lparr>updated_at_millis := now\<rparr>))"
    using assms by (auto simp: append_image_def result_simps exec_update_iff split: sum.splits)
  have le: "byte_length img \<le> u64_max"
    using r(4) by (simp add: image_validate_iff max_image_bytes_def u64_max_def)
  have "exec_moves op now r r1 \<and> exec_session_id r1 = exec_session_id r \<and> exec_id r1 = exec_id r"
  proof (cases "bt_get (exec_images r) n")
    case None
    then show ?thesis
      using r(3,4,5) image_total_iff[OF le] AppendImage
      by (auto simp: attach_image_def result_simps require_phase_def split: option.splits intro!: exec_moves.attach)
  next
    case (Some i)
    then show ?thesis
      using r(3,5) AppendImage by (auto simp: attach_image_def result_simps intro!: exec_moves.resend)
  qed
  then show thesis using r AppendImage by (intro move[of r r1]) auto
next
  case (AppendOutput chunks)
  show thesis
  proof (cases "coalesce_output chunks = []")
    case True
    then show thesis using assms AppendOutput by (auto simp: append_output_def intro: skip)
  next
    case False
    then show thesis
      using assms AppendOutput
      by (auto simp: append_output_def Let_def result_simps exec_update_iff require_phase_def
          intro!: move exec_moves.streamed)
  qed
next
  case (FinishExec c)
  then show thesis
    using assms
    by (auto simp: exec_finish_def Let_def result_simps exec_update_iff require_completion_transition_def
        intro!: move exec_moves.finish)
qed

section \<open>The invariant\<close>

fun phase_rank :: "script_execution_phase \<Rightarrow> nat" where
  "phase_rank Prepared = 0"
| "phase_rank AwaitingApproval = 1"
| "phase_rank Running = 2"
| "phase_rank Finished = 3"

text \<open>A record has a status exactly when it is finished, a start time once it runs and none before,
  and attachments that are valid and within the limits.\<close>

definition exec_ok :: "script_execution_record \<Rightarrow> bool" where
  "exec_ok r =
     ((exec_phase r = Finished \<longleftrightarrow> exec_status r \<noteq> None)
      \<and> (exec_phase r = Running \<longrightarrow> started_at_millis r \<noteq> None)
      \<and> (exec_phase r \<in> {Prepared, AwaitingApproval} \<longrightarrow> started_at_millis r = None \<and> exec_images r = [])
      \<and> (exec_status r \<in> {Some Completed, Some TimedOut} \<longrightarrow> started_at_millis r \<noteq> None)
      \<and> bt_wf (exec_images r) \<and> length (exec_images r) \<le> max_image_attachments
      \<and> sum_list (map (\<lambda>(_, i). byte_length i) (exec_images r)) \<le> max_request_image_bytes
      \<and> table_all (\<lambda>n i. 0 < n \<and> image_validate i = Inr ()) (exec_images r))"

definition exec_row_ok :: "string \<times> string \<Rightarrow> record_row \<Rightarrow> bool" where
  "exec_row_ok key row =
     (case record_data_of row of
        ExecutionRecord r \<Rightarrow> exec_id r = snd key \<and> record_session_id row = Some (exec_session_id r) \<and> exec_ok r
      | _ \<Rightarrow> True)"

definition execs_ok :: "database \<Rightarrow> bool" where
  "execs_ok db =
     (table_all exec_row_ok (records db)
      \<and> list_all (\<lambda>(_, stream, _). stream = ''stdout'' \<or> stream = ''stderr'') (execution_output db))"

lemma bt_insert_new_sum:
  fixes f :: "'v \<Rightarrow> nat"
  shows "bt_get m k = None \<Longrightarrow>
     length (bt_insert k v m) = Suc (length m)
     \<and> sum_list (map (\<lambda>(_, i). f i) (bt_insert k v m)) = f v + sum_list (map (\<lambda>(_, i). f i) m)"
  by (induction k v m rule: bt_insert.induct) (auto split: if_splits)

lemma completion_not_finished: "completion_allowed p st \<Longrightarrow> p \<noteq> Finished"
  by (cases st) auto

lemma exec_moves_ok:
  assumes "exec_moves op now r r'" "exec_ok r"
  shows "exec_ok r'"
  using assms(1)
proof cases
  case (attach n img)
  then show ?thesis
    using assms(2) bt_insert_new_sum[OF attach(3), of img byte_length]
    by (auto simp: exec_ok_def)
next
  case (finish c)
  then have "exec_phase r \<noteq> Finished" using completion_not_finished by blast
  moreover have "exec_phase r = Running" if "completion_status c = Completed \<or> completion_status c = TimedOut"
    using that finish by auto
  ultimately show ?thesis using assms(2) finish by (auto simp: exec_ok_def)
qed (use assms(2) in \<open>auto simp: exec_ok_def\<close>)

lemma phase_rank_le: "phase_rank p \<le> 3"
  by (cases p) auto

lemma exec_moves_rank:
  assumes "exec_moves op now r r'"
  shows "phase_rank (exec_phase r) \<le> phase_rank (exec_phase r')
    \<and> (exec_phase r = Finished \<longrightarrow> r' = r)"
  using assms
proof cases
  case (finish c)
  then show ?thesis using completion_not_finished phase_rank_le by fastforce
qed auto

lemma exec_ok_updated [simp]: "exec_ok (r\<lparr>updated_at_millis := now\<rparr>) = exec_ok r"
  by (simp add: exec_ok_def)

lemma output_after_streams:
  "list_all (\<lambda>(_, stream, _). stream = ''stdout'' \<or> stream = ''stderr'') rows \<Longrightarrow>
   list_all (\<lambda>(_, stream, _). stream = ''stdout'' \<or> stream = ''stderr'') (output_after op k rows)"
proof -
  have "stream_name st = ''stdout'' \<or> stream_name st = ''stderr''" for st by (cases st) auto
  then show "list_all (\<lambda>(_, stream, _). stream = ''stdout'' \<or> stream = ''stderr'') rows \<Longrightarrow> ?thesis"
    by (cases "(op, k, rows)" rule: output_after.cases) (auto simp: list_all_iff)
qed

lemma exec_row:
  assumes "execs_ok db" "read_record as_execution db ''execution'' k = Inr (Some r)"
  shows "exec_ok r \<and> exec_id r = k \<and>
    (\<exists>row. bt_get (records db) (''execution'', k) = Some row \<and> record_session_id row = Some (exec_session_id r))"
proof -
  obtain row where row: "bt_get (records db) (''execution'', k) = Some row" "record_data_of row = ExecutionRecord r"
    using assms(2) unfolding read_execution_iff by blast
  have "exec_row_ok (''execution'', k) row"
    using table_all_get[OF _ row(1), of exec_row_ok] assms(1) by (simp add: execs_ok_def)
  then show ?thesis using row by (simp add: exec_row_ok_def)
qed

lemma exec_apply_execs_ok:
  assumes "exec_apply op db leases k now = Inr db'" "execs_ok db"
  shows "execs_ok db'"
  using assms(1)
proof (cases rule: exec_apply_cases)
  case (move r r1)
  note r = exec_row[OF assms(2) move(1)]
  have "exec_ok r1" using exec_moves_ok[OF move(3)] r by simp
  then show ?thesis
    using assms(2) r move(4,5,6) output_after_streams
    by (auto simp: execs_ok_def write_record_records exec_row_ok_def)
qed (use assms(2) in simp)

lemma exec_apply_wf:
  assumes "exec_apply op db leases k now = Inr db'" "db_wf db" "execs_ok db"
  shows "db_wf db'"
  using assms(1)
proof (cases rule: exec_apply_cases)
  case (move r r1)
  obtain row where row: "bt_get (records db) (''execution'', k) = Some row" "record_session_id row = Some (exec_session_id r)"
    using exec_row[OF assms(3) move(1)] by blast
  have "record_row_ok (''execution'', k) row"
    using table_all_get[OF _ row(1)] assms(2) by (auto simp: db_wf_def)
  then have valid: "valid_id (exec_session_id r)" using row(2) by (simp add: record_row_ok_def)
  have s: "sessions db' = sessions (bump_revision db (exec_session_id r))"
    using move(4) by (simp add: write_record_sessions bump_revision_def)
  have "db_wf (bump_revision db (exec_session_id r))" using assms(2) by simp
  then show ?thesis
    using assms(2) move(4) row valid s
    by (simp add: db_wf_def write_record_records record_row_ok_def)
qed (use assms(2) in simp)

lemma exec_apply_leases:
  assumes "exec_apply op db leases k now = Inr db'"
  shows "lease_columns db' s = lease_columns db s"
  using assms
proof (cases rule: exec_apply_cases)
  case (move r r1)
  then show ?thesis by (simp add: lease_columns_def[of "db\<lparr>execution_output := _\<rparr>"] lease_columns_def[of db])
qed simp

lemma exec_create_iff:
  "exec_create db leases e fresh now = Inr (r, db') \<Longrightarrow>
     valid_id (new_id e) \<and> assert_owner db leases (new_session_id e) = Inr ()
     \<and> bt_get (records db) (''execution'', new_id e) = None \<and> exec_ok r
     \<and> exec_id r = new_id e \<and> exec_session_id r = new_session_id e \<and> exec_phase r = Prepared
     \<and> db' = write_record (db\<lparr>execution_sources := bt_insert (new_id e) (new_source e) (execution_sources db)\<rparr>)
         ''execution'' (new_id e) (Some (new_session_id e)) (ExecutionRecord r)"
  by (auto simp: exec_create_def Let_def result_simps exec_ok_def id_try_new_def valid_id_def read_record_def
      split: sum.splits option.splits)

lemma exec_create_keeps:
  assumes "exec_create db leases e fresh now = Inr (r, db')"
  shows "execs_ok db \<Longrightarrow> execs_ok db'"
    and "db_wf db \<Longrightarrow> valid_id (new_session_id e) \<Longrightarrow> db_wf db'"
    and "lease_columns db' s = lease_columns db s"
proof -
  note c = exec_create_iff[OF assms]
  let ?db = "db\<lparr>execution_sources := bt_insert (new_id e) (new_source e) (execution_sources db)\<rparr>"
  have s: "sessions db' = sessions (bump_revision db (new_session_id e))"
    using c by (simp add: write_record_sessions bump_revision_def)
  show "execs_ok db'" if "execs_ok db"
    using that c by (simp add: execs_ok_def write_record_records exec_row_ok_def)
  show "db_wf db'" if "db_wf db" "valid_id (new_session_id e)"
  proof -
    have "db_wf (bump_revision db (new_session_id e))" using that(1) by simp
    then show ?thesis
      using that c s by (simp add: db_wf_def write_record_records record_row_ok_def)
  qed
  have "lease_columns ?db s = lease_columns db s" by (simp add: lease_columns_def)
  then show "lease_columns db' s = lease_columns db s" using c by simp
qed

section \<open>Output\<close>

definition bytes_on :: "script_output_stream \<Rightarrow> (script_output_stream \<times> string) list \<Rightarrow> string" where
  "bytes_on st chunks = concat (map snd (filter (\<lambda>(s, _). s = st) chunks))"

definition bytes_named :: "string \<Rightarrow> (string \<times> string \<times> string) list \<Rightarrow> string" where
  "bytes_named name rows = concat (map (\<lambda>(_, _, bytes). bytes) (filter (\<lambda>(_, s, _). s = name) rows))"

lemma bytes_on_append [simp]: "bytes_on st (xs @ ys) = bytes_on st xs @ bytes_on st ys"
  by (simp add: bytes_on_def)

lemma bytes_on_Cons [simp]: "bytes_on st ((s, b) # xs) = (if s = st then b else []) @ bytes_on st xs"
  by (simp add: bytes_on_def)

lemma bytes_on_Nil [simp]: "bytes_on st [] = []"
  by (simp add: bytes_on_def)

lemma bytes_named_append [simp]: "bytes_named n (xs @ ys) = bytes_named n xs @ bytes_named n ys"
  by (simp add: bytes_named_def)

lemma bytes_named_Cons [simp]: "bytes_named n ((e, s, b) # xs) = (if s = n then b else []) @ bytes_named n xs"
  by (simp add: bytes_named_def)

lemma bytes_named_Nil [simp]: "bytes_named n [] = []"
  by (simp add: bytes_named_def)

lemma coalesce_step_bytes: "bytes_on st (coalesce_step cs c) = bytes_on st cs @ bytes_on st [c]"
proof (cases "cs = []")
  case False
  then obtain ds s b where cs: "cs = ds @ [(s, b)]" by (metis append_butlast_last_id surj_pair)
  then show ?thesis by (cases c) (auto simp: coalesce_step_def)
qed (cases c, simp add: coalesce_step_def)

lemma coalesce_output_bytes: "bytes_on st (coalesce_output chunks) = bytes_on st chunks"
  by (induction chunks rule: rev_induct) (simp_all add: coalesce_output_def coalesce_step_bytes)

lemma bytes_named_chunks:
  "bytes_named (stream_name st) (map (\<lambda>(s, b). (k, stream_name s, b)) chunks) = bytes_on st chunks"
proof (induction chunks)
  case (Cons c cs)
  have "stream_name s = stream_name st \<longleftrightarrow> s = st" for s by (cases s; cases st) auto
  then show ?case using Cons by (cases c) simp
qed simp

lemma read_rows:
  assumes "list_all (\<lambda>(_, s, _). s = ''stdout'' \<or> s = ''stderr'') rows"
  shows "foldR read_output_row out rows =
    Inr \<lparr>out_stdout = out_stdout out @ bytes_named ''stdout'' rows,
         out_stderr = out_stderr out @ bytes_named ''stderr'' rows\<rparr>"
  using assms
proof (induction rows arbitrary: out)
  case (Cons row rows)
  then show ?case by (cases row) (auto simp: read_output_row_def)
qed simp

lemma read_output_eq:
  assumes "execs_ok db" "read_record as_execution db ''execution'' k = Inr (Some r)"
  shows "read_output db k =
    Inr \<lparr>out_stdout = bytes_named ''stdout'' (filter (\<lambda>(e, _). e = k) (execution_output db)),
         out_stderr = bytes_named ''stderr'' (filter (\<lambda>(e, _). e = k) (execution_output db))\<rparr>"
proof -
  have "list_all (\<lambda>(_, s, _). s = ''stdout'' \<or> s = ''stderr'') (filter (\<lambda>(e, _). e = k) (execution_output db))"
    using assms(1) by (auto simp: execs_ok_def list_all_iff)
  then show ?thesis using assms(2) by (simp add: read_output_def read_rows)
qed

lemma read_after_write:
  "read_record as_execution (write_record db ''execution'' k s (ExecutionRecord r)) ''execution'' k = Inr (Some r)"
  by (simp add: read_record_def write_record_records)

lemma filter_own_rows: "filter (\<lambda>(e, _). e = k) (map (\<lambda>(s, b). (k, f s, g b)) xs) = map (\<lambda>(s, b). (k, f s, g b)) xs"
  by (induction xs) auto

section \<open>Properties\<close>

definition sample_exec :: "script_execution_phase \<Rightarrow> script_execution_record" where
  "sample_exec p =
     \<lparr>exec_id = ''x'', result_message_id = ''m'', exec_images = [], exec_session_id = ''s'',
      source_message_id = ''q'', exec_call_id = ''c'',
      exec_profile = \<lparr>profile_id = ''p'', commands = [], permissions = {}, permission_rules = [],
        escalation_policy_of = Deny, environment_policy_of = EnvMinimal, nushell_startup_of = StartupClean,
        path_policy_of = PathInherit\<rparr>,
      exec_rewrites = [], requested_capabilities = {}, effective_capabilities = {}, exec_timeout = None,
      exec_phase = p, exec_status = None, created_at_millis = 1,
      started_at_millis = (if p = Running then Some 2 else None), updated_at_millis = 2,
      exit_code = None, sandbox_denied = False, exec_error = None\<rparr>"

definition exec_db :: "script_execution_phase \<Rightarrow> database" where
  "exec_db p = sample_db\<lparr>records := [((''execution'', ''x''),
     \<lparr>record_session_id = Some ''s'', record_data_of = ExecutionRecord (sample_exec p)\<rparr>)],
     execution_output := [(''x'', ''stdout'', ''ab'')]\<rparr>"

lemma exec_db_ok: "p \<noteq> Finished \<Longrightarrow> execs_ok (exec_db p)"
  by (auto simp: execs_ok_def exec_db_def table_all_def exec_row_ok_def exec_ok_def sample_exec_def)

lemma exec_db_get [simp]: "read_record as_execution (exec_db p) ''execution'' ''x'' = Inr (Some (sample_exec p))"
  by (simp add: read_record_def exec_db_def)

lemma exec_db_owner [simp]: "assert_owner (exec_db p) [] ''s'' = Inr ()"
  by (simp add: assert_owner_def exec_db_def sample_db_def leases_get_def empty_database_def)

text \<open>Streamed output is complete and in order: appending chunks to a running execution adds,
  to what each stream already holds, the bytes of that stream's chunks in their order, although
  chunks are joined and empty ones dropped on the way.\<close>

theorem append_output_accumulates:
  assumes "execs_ok db" "append_output db leases k now chunks = Inr db'" "read_output db k = Inr out"
  shows "read_output db' k =
    Inr \<lparr>out_stdout = out_stdout out @ bytes_on Stdout chunks, out_stderr = out_stderr out @ bytes_on Stderr chunks\<rparr>"
proof -
  have ok': "execs_ok db'" using exec_apply_execs_ok[of "AppendOutput chunks"] assms(1,2) by simp
  have done_op: "exec_apply (AppendOutput chunks) db leases k now = Inr db'" using assms(2) by simp
  obtain r where r: "read_record as_execution db ''execution'' k = Inr (Some r)"
    using assms(3) by (auto simp: read_output_def result_simps)
  note out = read_output_eq[OF assms(1) r, unfolded assms(3)]
  from done_op show ?thesis
  proof (cases rule: exec_apply_cases)
    case skip
    have "bytes_on st chunks = []" for st
      using coalesce_output_bytes[of st chunks] skip by simp
    then show ?thesis using assms(3) skip by simp
  next
    case (move r0 r1)
    have "exec_id r0 = k" using exec_row[OF assms(1) move(1)] by simp
    then have rows: "filter (\<lambda>(e, _). e = k) (execution_output db')
        = filter (\<lambda>(e, _). e = k) (execution_output db)
          @ map (\<lambda>(s, b). (k, stream_name s, b)) (coalesce_output chunks)"
      using move(4) filter_own_rows[of k stream_name "\<lambda>b. b"] by simp
    have "read_record as_execution db' ''execution'' k = Inr (Some (r1\<lparr>updated_at_millis := now\<rparr>))"
      using move(4) by (simp add: read_after_write)
    from read_output_eq[OF ok' this] show ?thesis
      using out bytes_named_chunks[of Stdout k "coalesce_output chunks"]
        bytes_named_chunks[of Stderr k "coalesce_output chunks"]
      unfolding rows by (simp add: coalesce_output_bytes)
  qed
qed

theorem append_output_accumulates_witness:
  "\<exists>db'. append_output (exec_db Running) [] ''x'' 5 [(Stdout, ''c''), (Stdout, ''d''), (Stderr, ''e'')] = Inr db'
     \<and> read_output db' ''x'' = Inr \<lparr>out_stdout = ''abcd'', out_stderr = ''e''\<rparr>"
proof -
  obtain db' where db': "append_output (exec_db Running) [] ''x'' 5 [(Stdout, ''c''), (Stdout, ''d''), (Stderr, ''e'')] = Inr db'"
    by (simp add: append_output_def exec_update_def require_phase_def state_of_def sample_exec_def
        coalesce_output_def coalesce_step_def Let_def)
  have "read_output (exec_db Running) ''x'' = Inr \<lparr>out_stdout = ''ab'', out_stderr = []\<rparr>"
    by (simp add: read_output_def read_output_row_def exec_db_def read_record_def)
  from append_output_accumulates[OF exec_db_ok db' this] show ?thesis using db' by auto
qed

text \<open>Finishing an execution replaces its output by the final one: afterwards the stored
  streams are exactly the completion's, the phase is finished, and the outcome reads back the
  completion's status and exit code.\<close>

theorem finish_replaces_output:
  assumes "execs_ok db" "exec_finish db leases k now c = Inr (r, db')"
  shows "read_output db' k = Inr \<lparr>out_stdout = completion_stdout c, out_stderr = completion_stderr c\<rparr>
    \<and> exec_get db' k = Inr (Some r) \<and> exec_phase r = Finished
    \<and> exec_outcome r = Inr \<lparr>outcome_status = completion_status c, outcome_exit_code = completion_exit_code c\<rparr>"
proof -
  have done_op: "exec_apply (FinishExec c) db leases k now = Inr db'"
    using assms(2) by (auto simp: result_simps)
  have ok': "execs_ok db'" using exec_apply_execs_ok[OF done_op assms(1)] .
  obtain r0 where r0: "read_record as_execution db ''execution'' k = Inr (Some r0)"
      and r: "r = r0\<lparr>exec_phase := Finished, exec_status := Some (completion_status c),
         exit_code := completion_exit_code c, sandbox_denied := completion_sandbox_denied c,
         exec_error := completion_error c, updated_at_millis := now\<rparr>"
      and db': "db' = write_record (db\<lparr>execution_output := output_after (FinishExec c) (exec_id r0) (execution_output db)\<rparr>)
         ''execution'' k (Some (exec_session_id r0)) (ExecutionRecord r)"
    using assms(2) by (auto simp: exec_finish_def exec_update_iff Let_def result_simps)
  have k: "exec_id r0 = k" using exec_row[OF assms(1) r0] by simp
  have rows: "filter (\<lambda>(e, _). e = k) (execution_output db') =
      (if completion_stdout c = [] then [] else [(k, ''stdout'', completion_stdout c)])
      @ (if completion_stderr c = [] then [] else [(k, ''stderr'', completion_stderr c)])"
    using db' k by (auto simp: filter_empty_conv)
  have "read_record as_execution db' ''execution'' k = Inr (Some r)"
    using db' by (simp add: read_after_write)
  from read_output_eq[OF ok' this] this show ?thesis
    unfolding rows using r by (simp add: exec_get_def exec_outcome_def)
qed

definition sample_completion :: script_execution_completion where
  "sample_completion = \<lparr>completion_status = Completed, completion_exit_code = Some 0,
     completion_sandbox_denied = False, completion_error = None, completion_stdout = ''z'', completion_stderr = []\<rparr>"

theorem finish_replaces_output_witness:
  "\<exists>r db'. exec_finish (exec_db Running) [] ''x'' 9 sample_completion = Inr (r, db')
     \<and> read_output db' ''x'' = Inr \<lparr>out_stdout = ''z'', out_stderr = []\<rparr>"
proof -
  obtain r db' where f: "exec_finish (exec_db Running) [] ''x'' 9 sample_completion = Inr (r, db')"
    by (simp add: exec_finish_def exec_update_def require_completion_transition_def sample_completion_def
        sample_exec_def Let_def)
  from finish_replaces_output[OF exec_db_ok f] show ?thesis using f by (auto simp: sample_completion_def)
qed

end
