(* ===== verification/Sessions.thy ===== *)
theory Sessions
  imports Message_Graph Executions
begin

text \<open>
  Sessions and the messages linked to them (crates/kraai-persistence, sessions.rs, messages.rs and
  the activity query of leases.rs). Saving a session is guarded by the metadata revision it was
  read at; linking messages moves the tip and stores the messages in one transaction; deleting a
  session removes what only it shows. The theorems say that a stale save is rejected and that
  deleting a session leaves every other conversation as it was.
\<close>

section \<open>Session rows\<close>

definition read_session :: "database \<Rightarrow> string \<Rightarrow> session_meta option" where
  "read_session db s =
     map_option (\<lambda>row. (row_data row)\<lparr>meta_revision := metadata_revision row\<rparr>) (bt_get (sessions db) s)"

text \<open>The revision is not serialised, so the stored copy has the default.\<close>

definition save_session :: "database \<Rightarrow> session_meta \<Rightarrow> database" where
  "save_session db session =
     (let data = session\<lparr>meta_revision := 0\<rparr>
      in db\<lparr>sessions :=
        (case bt_get (sessions db) (meta_id session) of
           None \<Rightarrow>
             bt_insert (meta_id session)
               \<lparr>row_data = data, row_tip = tip_id session, revision = 1, metadata_revision = 1,
                lease_active = False, lease_expires_at = 0, lease_token = 0, turn_timer = None\<rparr>
               (sessions db)
         | Some _ \<Rightarrow>
             bt_update (meta_id session)
               (\<lambda>row. row\<lparr>row_data := data, row_tip := tip_id session, revision := revision row + 1,
                          metadata_revision := metadata_revision row + 1\<rparr>)
               (sessions db))\<rparr>)"

definition assert_session_revision ::
  "session_meta option \<Rightarrow> session_meta \<Rightarrow> (store_error, unit) result" where
  "assert_session_revision current updated =
     (case current of
        Some current \<Rightarrow>
          ensure (meta_revision current = meta_revision updated)
            (Domain (conflict ''Session changed while updating metadata''))
      | None \<Rightarrow>
          ensure (meta_revision updated = 0)
            (Domain (not_found (''Session not found: '' @ meta_id updated))))"

text \<open>\<open>UPDATE records SET session_id = COALESCE(session_id, ?1)\<close> on the message of the tip.\<close>

definition adopt_tip :: "database \<Rightarrow> session_meta \<Rightarrow> database" where
  "adopt_tip db session =
     (case tip_id session of
        None \<Rightarrow> db
      | Some tip \<Rightarrow>
          db\<lparr>records := bt_update (''message'', tip)
             (\<lambda>row. row\<lparr>record_session_id :=
                (case record_session_id row of None \<Rightarrow> Some (meta_id session) | Some s \<Rightarrow> Some s)\<rparr>)
             (records db)\<rparr>)"

definition session_update ::
  "database \<Rightarrow> lease_tokens \<Rightarrow> session_meta \<Rightarrow> string option option \<Rightarrow> bool
     \<Rightarrow> (store_error, bool \<times> database) result" where
  "session_update db leases session expected require_message =
     bindR (assert_owner db leases (meta_id session)) (\<lambda>_.
     let current = read_session db (meta_id session) in
     if (case expected of
           None \<Rightarrow> False
         | Some tip \<Rightarrow> (case current of None \<Rightarrow> True | Some c \<Rightarrow> tip_id c \<noteq> tip))
     then Inr (False, db)
     else
       bindR (assert_session_revision current session) (\<lambda>_.
       bindR (case tip_id session of
                None \<Rightarrow> Inr ()
              | Some tip \<Rightarrow>
                  if require_message
                  then bindR (read_record as_message db ''message'' tip) (\<lambda>found.
                       ensure (found \<noteq> None) (Report (''Cannot link missing message '' @ tip)))
                  else Inr ()) (\<lambda>_.
       Inr (True, adopt_tip (save_session db session) session))))"

definition session_save ::
  "database \<Rightarrow> lease_tokens \<Rightarrow> session_meta \<Rightarrow> (store_error, unit \<times> database) result" where
  "session_save db leases session =
     bindR (session_update db leases session None False) (\<lambda>(_, db). Inr ((), db))"

definition save_if_tip_matches ::
  "database \<Rightarrow> lease_tokens \<Rightarrow> session_meta \<Rightarrow> string option \<Rightarrow> (store_error, bool \<times> database) result" where
  "save_if_tip_matches db leases session expected_tip =
     session_update db leases session (Some expected_tip) False"

definition link_message_if_tip_matches ::
  "database \<Rightarrow> lease_tokens \<Rightarrow> session_meta \<Rightarrow> string option \<Rightarrow> (store_error, bool \<times> database) result" where
  "link_message_if_tip_matches db leases session expected_tip =
     session_update db leases session (Some expected_tip) True"

text \<open>\<open>ORDER BY updated_at DESC, id\<close>: rows are in the order of their ids and the sort is stable.\<close>

definition session_list :: "database \<Rightarrow> session_meta list" where
  "session_list db =
     map (\<lambda>(_, row). (row_data row)\<lparr>meta_revision := metadata_revision row\<rparr>)
       (sort_key (\<lambda>(_, row). - int (updated_at (row_data row))) (sessions db))"

definition session_get :: "database \<Rightarrow> string \<Rightarrow> session_meta option" where
  "session_get db s = read_session db s"

section \<open>Deletion\<close>

definition delete_message_records ::
  "database \<Rightarrow> lease_tokens \<Rightarrow> string \<Rightarrow> (store_error, database) result" where
  "delete_message_records db leases k =
     bindR (record_session db ''message'' k) (\<lambda>owner.
     bindR (case owner of
              None \<Rightarrow> Inr ()
            | Some s \<Rightarrow> if read_session db s \<noteq> None then assert_owner db leases s else Inr ()) (\<lambda>_.
     Inr (clear_stream_deltas
       (db\<lparr>records := bt_retain (\<lambda>(kind, i) _. \<not> (kind \<in> {''message'', ''compaction''} \<and> i = k)) (records db)\<rparr>)
       k)))"

definition delete_unreferenced ::
  "database \<Rightarrow> lease_tokens \<Rightarrow> string \<Rightarrow> (store_error, database) result" where
  "delete_unreferenced db leases k =
     (if message_referenced db k then Inr db else delete_message_records db leases k)"

definition delete_message_if_unreferenced ::
  "database \<Rightarrow> lease_tokens \<Rightarrow> string \<Rightarrow> (store_error, unit \<times> database) result" where
  "delete_message_if_unreferenced db leases k =
     bindR (delete_unreferenced db leases k) (\<lambda>db. Inr ((), db))"

text \<open>\<open>history UNION own messages EXCEPT retained_history\<close>.\<close>

definition own_messages :: "database \<Rightarrow> string \<Rightarrow> string list" where
  "own_messages db s =
     map (\<lambda>((_, k), _). k)
       (filter (\<lambda>((kind, _), row). kind = ''message'' \<and> record_session_id row = Some s) (records db))"

definition doomed_messages :: "database \<Rightarrow> string \<Rightarrow> string list" where
  "doomed_messages db s =
     (let retained = set (ancestors db (session_tips db (\<lambda>t. t \<noteq> s)))
      in filter (\<lambda>k. k \<notin> retained)
           (remdups (ancestors db (session_tips db (\<lambda>t. t = s)) @ own_messages db s)))"

definition session_executions :: "database \<Rightarrow> string \<Rightarrow> string list" where
  "session_executions db s =
     map (\<lambda>((_, k), _). k)
       (filter (\<lambda>((kind, _), row). kind = ''execution'' \<and> record_session_id row = Some s) (records db))"

definition delete_session_records :: "database \<Rightarrow> string \<Rightarrow> database" where
  "delete_session_records db s =
     (let executions = set (session_executions db s)
      in db\<lparr>execution_output := filter (\<lambda>(k, _). k \<notin> executions) (execution_output db),
            execution_sources := bt_retain (\<lambda>k _. k \<notin> executions) (execution_sources db),
            records := bt_retain
              (\<lambda>(kind, _) row. \<not> (record_session_id row = Some s \<and> kind \<notin> {''message'', ''compaction''}))
              (records db)\<rparr>)"

definition session_delete :: "database \<Rightarrow> lease_tokens \<Rightarrow> string \<Rightarrow> (store_error, database) result" where
  "session_delete db leases s =
     bindR (assert_owner db leases s) (\<lambda>_.
     let doomed = doomed_messages db s;
         db = delete_queued (db\<lparr>sessions := bt_remove s (sessions db)\<rparr>) s
     in bindR (foldR (\<lambda>db k. delete_message_records db leases k) db doomed) (\<lambda>db.
        Inr (delete_session_records db s)))"

section \<open>Messages\<close>

definition message_save ::
  "database \<Rightarrow> lease_tokens \<Rightarrow> message \<Rightarrow> (store_error, database) result" where
  "message_save db leases m =
     bindR (record_session db ''message'' (message_id m)) (\<lambda>session.
     let associated_session_exists =
           (case session of None \<Rightarrow> False | Some s \<Rightarrow> bt_get (sessions db) s \<noteq> None) in
     bindR (case (associated_session_exists, parent_id m) of
              (False, Some parent) \<Rightarrow>
                bindR (assert_message_owners db leases parent None) (\<lambda>_.
                if session = None then record_session db ''message'' parent else Inr session)
            | _ \<Rightarrow> Inr session) (\<lambda>session.
     write_message_record db leases ''message'' (message_id m) session (MessageRecord m)))"

definition message_delete :: "database \<Rightarrow> lease_tokens \<Rightarrow> string \<Rightarrow> (store_error, database) result" where
  "message_delete db leases k = delete_message_record db leases ''message'' k"

record link_request =
  link_messages :: "message list"
  link_session :: session_meta
  link_expected_tip :: "string option"
  consumed_queue_through :: "int option"

definition link_step ::
  "lease_tokens \<Rightarrow> string \<Rightarrow> database \<Rightarrow> message \<Rightarrow> (store_error, database) result" where
  "link_step leases s db m =
     bindR (read_message db (message_id m)) (\<lambda>found.
     bindR (case found of
              None \<Rightarrow> Inr ()
            | Some existing \<Rightarrow> ensure (existing = m) (Report ''Message ID reused with different content'')) (\<lambda>_.
     write_message_record db leases ''message'' (message_id m) (Some s) (MessageRecord m)))"

text \<open>\<open>Some\<close>: this store links atomically; \<open>None\<close> is what a store that cannot would answer.\<close>

definition save_linked ::
  "database \<Rightarrow> lease_tokens \<Rightarrow> link_request \<Rightarrow> (store_error, bool option \<times> database) result" where
  "save_linked db leases request =
     (let session = link_session request; s = meta_id session in
      bindR (assert_owner db leases s) (\<lambda>_.
      let current = read_session db s in
      if (case current of None \<Rightarrow> True | Some c \<Rightarrow> tip_id c \<noteq> link_expected_tip request)
      then Inr (Some False, db)
      else
        bindR (assert_session_revision current session) (\<lambda>_.
        bindR (foldR (link_step leases s) db (link_messages request)) (\<lambda>db.
        let db = save_session db session;
            db = (case consumed_queue_through request of
                    None \<Rightarrow> db
                  | Some through \<Rightarrow> consume_queued_messages db s through)
        in Inr (Some True, db)))))"

definition message_exists :: "database \<Rightarrow> string \<Rightarrow> (store_error, bool) result" where
  "message_exists db k = bindR (read_message db k) (\<lambda>found. Inr (found \<noteq> None))"

definition list_message_ids :: "database \<Rightarrow> (store_error, string list) result" where
  "list_message_ids db =
     mapR (\<lambda>k. case id_try_new validate_message_id k of Inl e \<Rightarrow> Inl (Report e) | Inr k \<Rightarrow> Inr k)
       (message_ids db)"

section \<open>Reads across tables\<close>

record conversation_snapshot =
  snapshot_session :: session_meta
  snapshot_history :: "(string, message) btree"
  snapshot_requests :: "(string, request_usage) btree"

definition read_conversation ::
  "database \<Rightarrow> string \<Rightarrow> (store_error, conversation_snapshot option) result" where
  "read_conversation db s =
     (case read_session db s of
        None \<Rightarrow> Inr None
      | Some session \<Rightarrow>
          bindR (case tip_id session of
                   None \<Rightarrow> Inr []
                 | Some tip \<Rightarrow>
                     bindR (read_history_chain db tip usize_max) (\<lambda>history. Inr (history_by_id history))) (\<lambda>history.
          bindR (list_records as_usage db ''usage'' (Some s)) (\<lambda>requests.
          Inr (Some \<lparr>snapshot_session = session, snapshot_history = history,
            snapshot_requests = bt_of_list (map (\<lambda>r. (usage_message_id r, r)) requests)\<rparr>))))"

record foreign_activity =
  awaiting_approval :: bool
  activity_streaming :: bool

definition session_activity ::
  "database \<Rightarrow> string \<Rightarrow> string option \<Rightarrow> (store_error, foreign_activity) result" where
  "session_activity db s tip =
     bindR (list_records as_execution db ''execution'' (Some s)) (\<lambda>execs.
     bindR (case tip of
              None \<Rightarrow> Inr False
            | Some tip \<Rightarrow> bindR (read_message db tip) (\<lambda>found.
                Inr (case found of None \<Rightarrow> False | Some m \<Rightarrow> is_streaming (message_status m)))) (\<lambda>streaming.
     Inr \<lparr>awaiting_approval = list_ex (\<lambda>e. exec_phase e = AwaitingApproval) execs,
          activity_streaming = streaming\<rparr>))"

definition foreign_session_activity ::
  "database \<Rightarrow> lease_tokens \<Rightarrow> int \<Rightarrow> (store_error, (string, foreign_activity) btree) result" where
  "foreign_session_activity db leases now =
     foldR (\<lambda>found (s, row).
       bindR (parse_session_id s) (\<lambda>s.
       if leases_get leases s = Some (lease_token row) then Inr found
       else bindR (session_activity db s (row_tip row)) (\<lambda>a. Inr (bt_insert s a found))))
     [] (filter (\<lambda>(_, row). lease_active row \<and> now \<le> lease_expires_at row) (sessions db))"

section \<open>Saving\<close>

lemma record_session_valid:
  assumes "db_wf db" "record_session db kind k = Inr assoc"
  shows "case assoc of None \<Rightarrow> True | Some s \<Rightarrow> valid_id s"
  using assms(2) by (auto simp: record_session_def result_simps parse_session_id_iff split: option.splits)

lemma message_save_iff:
  assumes "db_wf db" "message_save db leases m = Inr db'"
  shows "\<exists>assoc. write_message_record db leases ''message'' (message_id m) assoc (MessageRecord m) = Inr db'
    \<and> (case assoc of None \<Rightarrow> True | Some s \<Rightarrow> valid_id s)"
proof -
  obtain session assoc where "record_session db ''message'' (message_id m) = Inr session"
    and w: "write_message_record db leases ''message'' (message_id m) assoc (MessageRecord m) = Inr db'"
    and "assoc = session \<or> (\<exists>p. record_session db ''message'' p = Inr assoc)"
    using assms(2) unfolding message_save_def Let_def
    by (auto simp: result_simps split: option.splits bool.splits if_splits)
  then show ?thesis using record_session_valid[OF assms(1)] by blast
qed

lemma save_session_keeps [simp]:
  "records (save_session db m) = records db"
  "stream_deltas (save_session db m) = stream_deltas db"
  "queued_messages (save_session db m) = queued_messages db"
  "execution_sources (save_session db m) = execution_sources db"
  "execution_output (save_session db m) = execution_output db"
  "model_lists (save_session db m) = model_lists db"
  by (simp_all add: save_session_def Let_def)

lemma adopt_tip_keeps [simp]:
  "sessions (adopt_tip db m) = sessions db"
  "stream_deltas (adopt_tip db m) = stream_deltas db"
  "queued_messages (adopt_tip db m) = queued_messages db"
  "execution_sources (adopt_tip db m) = execution_sources db"
  "execution_output (adopt_tip db m) = execution_output db"
  "model_lists (adopt_tip db m) = model_lists db"
  by (simp_all add: adopt_tip_def split: option.split)

lemma save_session_get:
  "bt_get (sessions (save_session db m)) t =
     (if t = meta_id m then
        (case bt_get (sessions db) t of
           None \<Rightarrow> Some \<lparr>row_data = m\<lparr>meta_revision := 0\<rparr>, row_tip = tip_id m, revision = 1,
             metadata_revision = 1, lease_active = False, lease_expires_at = 0, lease_token = 0,
             turn_timer = None\<rparr>
         | Some row \<Rightarrow> Some (row\<lparr>row_data := m\<lparr>meta_revision := 0\<rparr>, row_tip := tip_id m,
             revision := revision row + 1, metadata_revision := metadata_revision row + 1\<rparr>))
      else bt_get (sessions db) t)"
  by (auto simp: save_session_def Let_def bt_get_update split: option.split)

lemma read_saved_session:
  "read_session (save_session db m) (meta_id m) =
     Some (m\<lparr>meta_revision := (case read_session db (meta_id m) of None \<Rightarrow> 1 | Some c \<Rightarrow> meta_revision c + 1)\<rparr>)"
  by (auto simp: read_session_def save_session_get split: option.split)

lemma save_session_wf:
  assumes "db_wf db" "valid_id (meta_id m)"
  shows "db_wf (save_session db m)"
proof -
  have "bt_wf (sessions (save_session db m)) \<and> table_all session_row_ok (sessions (save_session db m))"
    using assms(1,2)
    by (auto simp: save_session_def Let_def session_row_ok_def split: option.split
        intro!: table_all_insert table_all_update)
  then show ?thesis using assms(1) by (simp add: db_wf_def)
qed

lemma adopt_tip_wf:
  assumes "db_wf db" "valid_id (meta_id m)"
  shows "db_wf (adopt_tip db m)"
proof (cases "tip_id m")
  case None
  then show ?thesis using assms(1) by (simp add: adopt_tip_def)
next
  case (Some tip)
  have "table_all record_row_ok (records (adopt_tip db m))"
    using assms Some
    by (auto simp: adopt_tip_def record_row_ok_def split: option.split intro!: table_all_update)
  then show ?thesis using assms(1) Some by (simp add: db_wf_def) (simp add: adopt_tip_def)
qed

lemma session_update_iff:
  "session_update db leases m expected req = Inr (ok, db') \<longleftrightarrow>
     assert_owner db leases (meta_id m) = Inr () \<and>
     (if (case expected of None \<Rightarrow> False
          | Some tip \<Rightarrow> (case read_session db (meta_id m) of None \<Rightarrow> True | Some c \<Rightarrow> tip_id c \<noteq> tip))
      then \<not> ok \<and> db' = db
      else ok \<and> assert_session_revision (read_session db (meta_id m)) m = Inr ()
        \<and> (\<forall>tip. req \<longrightarrow> tip_id m = Some tip \<longrightarrow> (\<exists>msg. read_record as_message db ''message'' tip = Inr (Some msg)))
        \<and> db' = adopt_tip (save_session db m) m)"
  by (auto simp: session_update_def Let_def result_simps split: option.splits if_splits)

lemma session_update_wf:
  assumes "db_wf db" "valid_id (meta_id m)" "session_update db leases m expected req = Inr (ok, db')"
  shows "db_wf db'"
  using assms by (auto simp: session_update_iff save_session_wf adopt_tip_wf split: if_splits)

lemma lease_columns_adopt [simp]: "lease_columns (adopt_tip db m) t = lease_columns db t"
  by (simp add: lease_columns_def)

lemma lease_columns_save_session:
  "lease_columns (save_session db m) t =
     (if t = meta_id m \<and> lease_columns db t = None then Some (False, 0, 0) else lease_columns db t)"
  by (auto simp: lease_columns_def save_session_get split: option.split)

lemma lease_columns_update:
  assumes "session_update db leases m expected req = Inr (ok, db')"
  shows "lease_columns db' t = lease_columns db t
    \<or> t = meta_id m \<and> lease_columns db t = None \<and> leases_get leases t = None \<and> lease_columns db' t = Some (False, 0, 0)"
  using assms
  by (auto simp: session_update_iff lease_columns_save_session assert_owner_iff split: if_splits option.splits)

section \<open>Histories are read along parents only\<close>

lemma read_message_parent:
  assumes "read_message db k = Inr (Some m)"
  shows "parent_of db k = parent_id m"
  using read_message_record[OF assms] by (auto simp: parent_of_def)

lemma chain_loop_cong:
  assumes "\<And>k. k \<in> A \<Longrightarrow> get' k = get k"
    and "\<And>k m p. k \<in> A \<Longrightarrow> get k = Inr (Some m) \<Longrightarrow> parent_id m = Some p \<Longrightarrow> p \<in> A"
    and "set_option c \<subseteq> A"
  shows "chain_loop get' limit hist visited c = chain_loop get limit hist visited c"
  using assms
proof (induction get limit hist visited c rule: chain_loop.induct)
  case (1 get limit hist visited c)
  show ?case
  proof (cases c)
    case None
    then show ?thesis by (simp add: chain_loop.simps)
  next
    case (Some k)
    have eq: "get' k = get k" using Some 1(2,4) by auto
    have "chain_loop get' limit (hist @ [m]) (insert k visited) (parent_id m)
        = chain_loop get limit (hist @ [m]) (insert k visited) (parent_id m)"
      if "length hist < limit" "k \<notin> visited" "get k = Inr (Some m)" for m
      using 1(1)[OF Some that(1,2,3) refl] 1(2,3,4) that(3) Some by (auto split: option.split)
    then show ?thesis
      using Some eq by (auto simp: chain_loop.simps[of get'] chain_loop.simps[of get] split: sum.split option.split)
  qed
qed

lemma history_cong:
  assumes "\<And>k. in_history db t k \<Longrightarrow> read_message db' k = read_message db k"
    and "bt_get (sessions db) t = Some row" "row_tip row = Some tip"
  shows "read_history_chain db' tip n = read_history_chain db tip n"
  unfolding read_history_chain_def
proof (rule chain_loop_cong[where A = "{k. in_history db t k}"])
  fix k m p
  assume "k \<in> {k. in_history db t k}" "read_message db k = Inr (Some m)" "parent_id m = Some p"
  then show "p \<in> {k. in_history db t k}"
    using read_message_parent[of db k m] by (auto simp: in_history_def parents_def intro: rtrancl_into_rtrancl)
qed (use assms in \<open>auto simp: in_history_def\<close>)

section \<open>What a deletion removes\<close>

lemma doomed_iff:
  assumes "db_wf db"
  shows "k \<in> set (doomed_messages db s) \<longleftrightarrow>
    (in_history db s k \<or> Option.bind (bt_get (records db) (''message'', k)) record_session_id = Some s)
    \<and> (\<forall>t. t \<noteq> s \<longrightarrow> \<not> in_history db t k)"
proof -
  have tips: "k \<in> (parents db)\<^sup>* `` set (session_tips db p) \<longleftrightarrow> (\<exists>t. p t \<and> in_history db t k)" for p
  proof -
    have "bt_get (sessions db) t = Some row \<longleftrightarrow> (t, row) \<in> set (sessions db)" for t row
      using bt_get_mem[of "sessions db"] assms by blast
    then show ?thesis by (auto simp: set_session_tips in_history_def Image_iff Bex_def)
  qed
  have own: "k \<in> set (own_messages db s)
      \<longleftrightarrow> Option.bind (bt_get (records db) (''message'', k)) record_session_id = Some s"
  proof -
    have "k \<in> set (own_messages db s)
        \<longleftrightarrow> (\<exists>row. ((''message'', k), row) \<in> set (records db) \<and> record_session_id row = Some s)"
      by (force simp: own_messages_def)
    moreover have "bt_get (records db) (''message'', k) = Some row \<longleftrightarrow> ((''message'', k), row) \<in> set (records db)" for row
      using bt_get_mem[of "records db"] assms by blast
    ultimately show ?thesis by (simp add: bind_eq_Some_conv)
  qed
  show ?thesis
    unfolding doomed_messages_def Let_def by (auto simp: set_ancestors own tips)
qed

lemma delete_message_records_iff:
  "delete_message_records db leases k = Inr db' \<longleftrightarrow>
     (\<exists>owner. record_session db ''message'' k = Inr owner
        \<and> (\<forall>s. owner = Some s \<longrightarrow> read_session db s \<noteq> None \<longrightarrow> assert_owner db leases s = Inr ())
        \<and> db' = clear_stream_deltas
            (db\<lparr>records := bt_retain (\<lambda>(kind, i) _. \<not> (kind \<in> {''message'', ''compaction''} \<and> i = k)) (records db)\<rparr>) k)"
  by (auto simp: delete_message_records_def result_simps split: option.splits if_splits)

lemma clear_deltas_rows: "stream_deltas (clear_stream_deltas db k) = bt_retain (\<lambda>(m, _) _. m \<noteq> k) (stream_deltas db)"
  by (simp add: clear_stream_deltas_def)

lemma delete_all_keeps:
  assumes "foldR (\<lambda>db k. delete_message_records db leases k) db ks = Inr db'"
  shows "sessions db' = sessions db \<and> queued_messages db' = queued_messages db
    \<and> execution_output db' = execution_output db \<and> execution_sources db' = execution_sources db
    \<and> model_lists db' = model_lists db
    \<and> records db' = filter (\<lambda>((kind, i), _). \<not> (kind \<in> {''message'', ''compaction''} \<and> i \<in> set ks)) (records db)
    \<and> stream_deltas db' = filter (\<lambda>((m, _), _). m \<notin> set ks) (stream_deltas db)"
  using assms
proof (induction ks arbitrary: db)
  case Nil
  then show ?case by simp
next
  case (Cons k ks)
  then obtain db1 where db1: "delete_message_records db leases k = Inr db1"
      "foldR (\<lambda>db k. delete_message_records db leases k) db1 ks = Inr db'"
    by (auto simp: result_simps)
  have step: "sessions db1 = sessions db" "queued_messages db1 = queued_messages db"
    "execution_output db1 = execution_output db" "execution_sources db1 = execution_sources db"
    "model_lists db1 = model_lists db"
    "records db1 = filter (\<lambda>((kind, i), _). \<not> (kind \<in> {''message'', ''compaction''} \<and> i = k)) (records db)"
    "stream_deltas db1 = filter (\<lambda>((m, _), _). m \<noteq> k) (stream_deltas db)"
    using db1(1)
    by (auto simp: delete_message_records_iff bt_retain_def clear_deltas_rows clear_stream_deltas_def case_prod_beta')
  show ?case
    using Cons.IH[OF db1(2)] unfolding step
    by (auto simp: case_prod_beta' intro!: filter_cong)
qed

text \<open>The database after a deletion, table by table.\<close>

definition record_doomed :: "database \<Rightarrow> string \<Rightarrow> (string \<times> string) \<times> record_row \<Rightarrow> bool" where
  "record_doomed db s r =
     (case r of ((kind, k), row) \<Rightarrow>
        if kind \<in> {''message'', ''compaction''} then k \<in> set (doomed_messages db s)
        else record_session_id row = Some s)"

lemma session_delete_tables:
  assumes "session_delete db leases s = Inr db'"
  shows "assert_owner db leases s = Inr ()"
    "sessions db' = bt_remove s (sessions db)"
    "queued_messages db' = bt_retain (\<lambda>(k, _) _. k \<noteq> s) (queued_messages db)"
    "records db' = filter (\<lambda>r. \<not> record_doomed db s r) (records db)"
    "stream_deltas db' = filter (\<lambda>((m, _), _). m \<notin> set (doomed_messages db s)) (stream_deltas db)"
    "execution_sources db' = bt_retain (\<lambda>k _. k \<notin> set (session_executions db s)) (execution_sources db)"
    "execution_output db' = filter (\<lambda>(k, _). k \<notin> set (session_executions db s)) (execution_output db)"
    "model_lists db' = model_lists db"
proof -
  let ?db = "delete_queued (db\<lparr>sessions := bt_remove s (sessions db)\<rparr>) s"
  obtain db1 where db1: "foldR (\<lambda>db k. delete_message_records db leases k) ?db (doomed_messages db s) = Inr db1"
      "db' = delete_session_records db1 s" "assert_owner db leases s = Inr ()"
    using assms by (auto simp: session_delete_def Let_def result_simps)
  note keeps = delete_all_keeps[OF db1(1)]
  have execs: "session_executions db1 s = session_executions db s"
    using keeps by (auto simp: session_executions_def delete_queued_def intro!: arg_cong[where f = "map _"] filter_cong)
  show "assert_owner db leases s = Inr ()" by fact
  show "sessions db' = bt_remove s (sessions db)"
    "queued_messages db' = bt_retain (\<lambda>(k, _) _. k \<noteq> s) (queued_messages db)"
    "stream_deltas db' = filter (\<lambda>((m, _), _). m \<notin> set (doomed_messages db s)) (stream_deltas db)"
    "execution_sources db' = bt_retain (\<lambda>k _. k \<notin> set (session_executions db s)) (execution_sources db)"
    "execution_output db' = filter (\<lambda>(k, _). k \<notin> set (session_executions db s)) (execution_output db)"
    "model_lists db' = model_lists db"
    using keeps db1(2) by (simp_all add: delete_session_records_def Let_def delete_queued_def execs)
  show "records db' = filter (\<lambda>r. \<not> record_doomed db s r) (records db)"
    using keeps db1(2)
    by (auto simp: delete_session_records_def Let_def delete_queued_def bt_retain_def record_doomed_def
        case_prod_beta' intro!: filter_cong)
qed

lemma bt_get_filter:
  "bt_wf m \<Longrightarrow> bt_get (filter p m) k = (case bt_get m k of None \<Rightarrow> None | Some v \<Rightarrow> if p (k, v) then Some v else None)"
  using bt_get_retain[of m "\<lambda>k v. p (k, v)" k] by (simp add: bt_retain_def)

lemma session_delete_wf:
  assumes "db_wf db" "session_delete db leases s = Inr db'"
  shows "db_wf db'"
proof -
  have filt: "bt_wf (filter p m) \<and> table_all q (filter p m)" if "bt_wf m" "table_all q m"
    for p q and m :: "('k::linorder, 'v) btree"
    using bt_wf_retain[of m "\<lambda>k v. p (k, v)"] table_all_retain[of q m "\<lambda>k v. p (k, v)"] that
    by (simp add: bt_retain_def)
  have "table_all (\<lambda>_ _. True) (stream_deltas db)" by (auto simp: table_all_def list_all_iff)
  then show ?thesis
    using assms(1) filt[of "records db" record_row_ok] filt[of "stream_deltas db" "\<lambda>_ _. True"]
    by (simp add: db_wf_def session_delete_tables[OF assms(2)])
qed

lemma kept_message:
  assumes "db_wf db" "session_delete db leases s = Inr db'" "k \<notin> set (doomed_messages db s)"
  shows "read_message db' k = read_message db k"
proof -
  have "bt_get (records db') (''message'', k) = bt_get (records db) (''message'', k)"
    using assms(1,3) by (auto simp: session_delete_tables[OF assms(2)] bt_get_filter record_doomed_def split: option.split)
  moreover have "delta_rows db' k = delta_rows db k"
    using assms(3) by (auto simp: session_delete_tables[OF assms(2)] delta_rows_def intro!: filter_cong)
  ultimately show ?thesis by (simp only: read_message_def read_record_def)
qed

lemma kept_list:
  assumes "session_delete db leases s = Inr db'" "t \<noteq> s" "kind \<notin> {''message'', ''compaction''}"
  shows "list_records as db' kind (Some t) = list_records as db kind (Some t)"
proof -
  have "filter (\<lambda>((k, _), row). k = kind \<and> (Some t = None \<or> record_session_id row = Some t)) (records db')
      = filter (\<lambda>((k, _), row). k = kind \<and> (Some t = None \<or> record_session_id row = Some t)) (records db)"
    using assms(2,3) by (auto simp: session_delete_tables[OF assms(1)] record_doomed_def intro!: filter_cong)
  then show ?thesis by (simp only: list_records_def)
qed

section \<open>Properties\<close>

text \<open>C5. Deleting a session never touches another conversation: for every other session its row, its
  whole conversation (the metadata, every message of its history although branches share
  messages, its request usage), its queue, its script executions and their sources and output
  read exactly as before.\<close>

theorem delete_keeps_other_conversations:
  assumes "db_wf db" "session_delete db leases s = Inr db'" "t \<noteq> s"
  shows "bt_get (sessions db') t = bt_get (sessions db) t
    \<and> read_conversation db' t = read_conversation db t
    \<and> queued_entries db' t = queued_entries db t
    \<and> list_for_session db' t = list_for_session db t
    \<and> (Option.bind (bt_get (records db) (''execution'', k)) record_session_id \<noteq> Some t
       \<or> read_source db' k = read_source db k \<and> read_output db' k = read_output db k)"
proof -
  have row: "bt_get (sessions db') t = bt_get (sessions db) t"
    using assms(3) by (simp add: session_delete_tables[OF assms(2)])
  have kept: "read_message db' k = read_message db k" if "in_history db t k" for k
    using that assms(3) by (intro kept_message[OF assms(1,2)]) (auto simp: doomed_iff[OF assms(1)])
  have tip: "read_history_chain db' tip n = read_history_chain db tip n"
    if m: "read_session db t = Some m" "tip_id m = Some tip" for m tip n
  proof -
    obtain r where r: "bt_get (sessions db) t = Some r" "tip_id (row_data r) = Some tip"
      using m by (auto simp: read_session_def)
    moreover have "row_tip r = tip_id (row_data r)"
      using table_all_get[of session_row_ok, OF _ r(1)] assms(1) by (auto simp: session_row_ok_def)
    ultimately show ?thesis by (intro history_cong[OF kept]) auto
  qed
  have "read_session db' t = read_session db t" by (simp add: read_session_def row)
  moreover have "list_records as_usage db' ''usage'' (Some t) = list_records as_usage db ''usage'' (Some t)"
    by (rule kept_list[OF assms(2,3)]) simp
  ultimately have conv: "read_conversation db' t = read_conversation db t"
    using tip by (auto simp: read_conversation_def split: option.split)
  have queue: "queued_entries db' t = queued_entries db t"
    using assms(3) by (auto simp: queued_entries_def queue_rows_def session_delete_tables[OF assms(2)]
        bt_retain_def intro!: arg_cong[where f = "map _"] filter_cong)
  have execs: "list_for_session db' t = list_for_session db t"
    unfolding list_for_session_def by (rule kept_list[OF assms(2,3)]) simp
  have "read_source db' k = read_source db k \<and> read_output db' k = read_output db k"
    if own: "Option.bind (bt_get (records db) (''execution'', k)) record_session_id = Some t"
  proof -
    from own obtain r where r: "bt_get (records db) (''execution'', k) = Some r" "record_session_id r = Some t"
      by (auto simp: bind_eq_Some_conv)
    have no: "k \<notin> set (session_executions db s)"
      using bt_get_mem[of "records db"] assms(1,3) r by (force simp: session_executions_def)
    have "bt_get (records db') (''execution'', k) = bt_get (records db) (''execution'', k)"
      using assms(1,3) r by (auto simp: session_delete_tables[OF assms(2)] bt_get_filter record_doomed_def)
    moreover have "filter (\<lambda>(e, _). e = k) (execution_output db') = filter (\<lambda>(e, _). e = k) (execution_output db)"
      using no by (auto simp: session_delete_tables[OF assms(2)] intro!: filter_cong)
    moreover have "bt_get (execution_sources db') k = bt_get (execution_sources db) k"
      using no assms(1)
      by (auto simp: session_delete_tables[OF assms(2)] bt_get_retain db_wf_def split: option.split)
    ultimately show ?thesis by (simp only: read_source_def read_output_def read_record_def)
  qed
  then show ?thesis using row conv queue execs by blast
qed

text \<open>Two branches: session \<open>s\<close> shows \<open>n\<close> after \<open>m\<close>, session \<open>t\<close> only \<open>m\<close>.\<close>

definition fork_row :: "string \<Rightarrow> string \<Rightarrow> session_row" where
  "fork_row s tip =
     \<lparr>row_data = (sample_meta s)\<lparr>tip_id := Some tip\<rparr>, row_tip = Some tip, revision = 1, metadata_revision = 1,
      lease_active = False, lease_expires_at = 0, lease_token = 0, turn_timer = None\<rparr>"

definition fork_db :: database where
  "fork_db = graph_db\<lparr>sessions := [(''s'', fork_row ''s'' ''n''), (''t'', fork_row ''t'' ''m'')]\<rparr>"

lemma fork_db_wf: "db_wf fork_db"
proof -
  have "valid_id ''t''"
    by (simp add: valid_id_def validate_message_id_def validate_id_def message_id_byte_def
        is_ascii_alphanumeric_def is_ascii_digit_def byte_def)
  then show ?thesis
    using graph_db_wf by (simp add: fork_db_def db_wf_def bt_wf_def table_all_def session_row_ok_def valid_id_s
        fork_row_def sample_meta_def)
qed

lemma fork_db_doomed: "doomed_messages fork_db ''s'' = [''n'']"
proof -
  have "parent_of fork_db ''n'' = Some ''m''" "parent_of fork_db ''m'' = None"
    by (simp_all add: parent_of_def fork_db_def graph_db_def sample_stream_def)
  moreover have "message_ids fork_db = [''m'', ''n'']" by (simp add: message_ids_def fork_db_def graph_db_def)
  moreover have "session_tips fork_db (\<lambda>t. t = ''s'') = [''n'']" "session_tips fork_db (\<lambda>t. t \<noteq> ''s'') = [''m'']"
    "own_messages fork_db ''s'' = [''m'', ''n'']"
    by (simp_all add: session_tips_def own_messages_def fork_db_def graph_db_def fork_row_def List.map_filter_simps)
  ultimately show ?thesis by (simp add: doomed_messages_def ancestors_def numeral_2_eq_2)
qed

lemma fork_db_delete: "\<exists>db'. session_delete fork_db [] ''s'' = Inr db'"
proof -
  have "record_session d ''message'' ''n'' = Inr (Some ''s'')"
    if "records d = records fork_db" for d
    unfolding record_session_def that by (simp add: fork_db_def graph_db_def valid_id_s)
  moreover have "assert_owner fork_db [] ''s'' = Inr ()"
    by (simp add: assert_owner_def fork_db_def fork_row_def leases_get_def)
  ultimately show ?thesis
    by (simp add: session_delete_def fork_db_doomed delete_message_records_def delete_queued_def read_session_def)
qed

theorem delete_keeps_other_conversations_witness:
  "\<exists>db'. session_delete fork_db [] ''s'' = Inr db' \<and> read_conversation db' ''t'' = read_conversation fork_db ''t''"
  using fork_db_delete delete_keeps_other_conversations[OF fork_db_wf, of "[]" "''s''" _ "''t''"] by auto

text \<open>Nothing of a deleted session is left behind: its row and queue are gone, no record but a
  message or a checkpoint belongs to it any more, and a message of its history, or one it owned,
  is still stored only if the history of another session contains it.\<close>

theorem deleted_session_is_gone:
  assumes "db_wf db" "session_delete db leases s = Inr db'"
  shows "read_session db' s = None \<and> queued_entries db' s = []
    \<and> (\<forall>kind k row. bt_get (records db') (kind, k) = Some row \<longrightarrow> record_session_id row = Some s
         \<longrightarrow> kind \<in> {''message'', ''compaction''})
    \<and> (\<forall>k row. bt_get (records db') (''message'', k) = Some row
         \<longrightarrow> in_history db s k \<or> record_session_id row = Some s
         \<longrightarrow> (\<exists>t. t \<noteq> s \<and> in_history db t k))"
proof -
  note tables = session_delete_tables[OF assms(2)]
  have rec: "bt_get (records db') key = Some row \<longleftrightarrow> bt_get (records db) key = Some row \<and> \<not> record_doomed db s (key, row)" for key row
    using assms(1) by (auto simp: tables bt_get_filter split: option.splits if_splits)
  have "read_session db' s = None" by (simp add: read_session_def tables)
  moreover have "queued_entries db' s = []"
    by (auto simp: queued_entries_def queue_rows_def tables bt_retain_def filter_empty_conv)
  moreover have "kind \<in> {''message'', ''compaction''}"
    if "bt_get (records db') (kind, k) = Some row" "record_session_id row = Some s" for kind k row
    using that by (auto simp: rec record_doomed_def split: if_splits)
  moreover have "\<exists>t. t \<noteq> s \<and> in_history db t k"
    if "bt_get (records db') (''message'', k) = Some row" "in_history db s k \<or> record_session_id row = Some s" for k row
    using that by (auto simp: rec record_doomed_def doomed_iff[OF assms(1)])
  ultimately show ?thesis by blast
qed

theorem deleted_session_is_gone_witness:
  "\<exists>db'. session_delete fork_db [] ''s'' = Inr db' \<and> read_session db' ''s'' = None"
  using fork_db_delete deleted_session_is_gone[OF fork_db_wf, of "[]" "''s''"] by blast

text \<open>C7. No update is lost: a save that succeeds is what the next reader sees, at the next revision,
  and any other save of the same session prepared from the same revision, by whatever runtime
  and in whatever form, is refused afterwards and changes nothing.\<close>

theorem stale_save_rejected:
  assumes "session_update db leases a expected req = Inr (True, db1)"
    and "meta_id b = meta_id a" "meta_revision b = meta_revision a"
  shows "read_session db1 (meta_id a) = Some (a\<lparr>meta_revision := meta_revision a + 1\<rparr>)
    \<and> (case session_update db1 leases' b expected' req' of
         Inl _ \<Rightarrow> True | Inr (saved, db2) \<Rightarrow> saved = False \<and> db2 = db1)"
proof -
  have upd: "db1 = adopt_tip (save_session db a) a" "assert_session_revision (read_session db (meta_id a)) a = Inr ()"
    using assms(1) by (auto simp: session_update_iff split: if_splits)
  have rev: "(case read_session db (meta_id a) of None \<Rightarrow> 1 | Some c \<Rightarrow> meta_revision c + 1) = meta_revision a + 1"
    using upd(2) by (auto simp: assert_session_revision_def ensure_def split: option.splits if_splits)
  have "read_session db1 (meta_id a) = read_session (save_session db a) (meta_id a)"
    unfolding upd(1) by (simp add: read_session_def)
  then have now: "read_session db1 (meta_id a) = Some (a\<lparr>meta_revision := meta_revision a + 1\<rparr>)"
    unfolding read_saved_session rev .
  have "assert_session_revision (read_session db1 (meta_id b)) b \<noteq> Inr ()"
    unfolding assms(2) now using assms(3) by (simp add: assert_session_revision_def ensure_def)
  then have "session_update db1 leases' b expected' req' = Inr (saved, db2) \<Longrightarrow> saved = False \<and> db2 = db1" for saved db2
    unfolding session_update_iff by (auto split: if_splits)
  then show ?thesis using now by (auto split: sum.split)
qed

theorem stale_save_rejected_witness:
  "\<exists>db1. session_update sample_db [] (sample_meta ''s'') None False = Inr (True, db1)
     \<and> (\<forall>db2. session_update db1 [] ((sample_meta ''s'')\<lparr>title := Some ''x''\<rparr>) None False \<noteq> Inr (True, db2))"
proof -
  obtain db1 where u: "session_update sample_db [] (sample_meta ''s'') None False = Inr (True, db1)"
    by (auto simp: session_update_iff sample_db_def assert_owner_def leases_get_def sample_meta_def
        assert_session_revision_def read_session_def)
  show ?thesis
    using stale_save_rejected[OF u, of "(sample_meta ''s'')\<lparr>title := Some ''x''\<rparr>" "[]" None False] u
    by (auto split: sum.splits)
qed

end
