(* ===== verification/Turns.thy ===== *)
theory Turns
  imports Sessions
begin

text \<open>
  Appending to a conversation (crates/kraai-persistence, turns.rs): messages are chained after the
  session's tip and linked in one transaction; a message with a stable id can be appended again
  after an interruption; an abandoned message is rolled back. An operation reads the store first
  and writes it in a later transaction, and other runtimes may have written in between: \<open>seen\<close> is
  the database its reads saw and \<open>db\<close> the one its write transaction finds. The result pairs what
  the caller gets with the database left behind, since a failing operation may still clean up.
\<close>

section \<open>Requests and outcomes\<close>

record append_message_request =
  req_session_id :: string
  req_content :: conversation_item
  req_status :: message_status
  req_agent_profile_id :: "string option"
  req_generation :: "message_generation option"
  title_if_first_message :: "string option"

record appended_message =
  appended_one :: message
  one_previous_tip :: "string option"
  one_previous_title :: "string option"

record idempotent_append_outcome =
  outcome_message :: message
  linked_now :: bool

record new_message =
  new_message_id :: string
  new_content :: conversation_item
  new_status :: message_status
  new_agent_profile_id :: "string option"
  new_generation :: "message_generation option"

record appended_messages =
  appended_list :: "message list"
  previous_tip :: "string option"
  previous_title :: "string option"
  appended_title :: "string option"

section \<open>Appending\<close>

definition unit_op :: "(database \<Rightarrow> (store_error, database) result) \<Rightarrow> database \<Rightarrow> (store_error, unit \<times> database) result" where
  "unit_op f db = bindR (f db) (\<lambda>db. Inr ((), db))"

text \<open>\<open>parent_id.replace(id)\<close>: each message hangs on the one before it.\<close>

fun chain_messages :: "string option \<Rightarrow> new_message list \<Rightarrow> message list" where
  "chain_messages parent [] = []"
| "chain_messages parent (m # ms) =
     \<lparr>message_id = new_message_id m, parent_id = parent, message_content = new_content m,
      message_status = new_status m, agent_profile_id = new_agent_profile_id m,
      generation = new_generation m\<rparr> # chain_messages (Some (new_message_id m)) ms"

definition latest_generation :: "message list \<Rightarrow> message_generation option" where
  "latest_generation ms =
     foldr (\<lambda>m found. case found of None \<Rightarrow> generation m | Some g \<Rightarrow> Some g) ms None"

definition selection_of :: "message_generation \<Rightarrow> model_selection" where
  "selection_of g =
     \<lparr>selection_provider_id = generation_provider_id g, selection_model_id = generation_model_id g,
      selection_options = generation_options g\<rparr>"

definition advance_session ::
  "session_meta \<Rightarrow> message list \<Rightarrow> string option \<Rightarrow> nat \<Rightarrow> session_meta" where
  "advance_session session ms first_title now =
     (let advanced = session\<lparr>tip_id := Some (message_id (last ms)),
            selected_model := (case latest_generation ms of
               None \<Rightarrow> selected_model session | Some g \<Rightarrow> Some (selection_of g)),
            title := (if tip_id session = None \<and> title session = None then first_title else title session)\<rparr>
      in advanced\<lparr>updated_at := now\<rparr>)"

fun save_each :: "lease_tokens \<Rightarrow> message list \<Rightarrow> database \<Rightarrow> (store_error, unit) result \<times> database" where
  "save_each leases [] db = (Inr (), db)"
| "save_each leases (m # ms) db =
     (case transaction (unit_op (\<lambda>db. message_save db leases m)) db of
        (Inl e, db) \<Rightarrow> (Inl e, db)
      | (Inr _, db) \<Rightarrow> save_each leases ms db)"

definition link_individually ::
  "database \<Rightarrow> lease_tokens \<Rightarrow> message list \<Rightarrow> session_meta \<Rightarrow> string option \<Rightarrow> int option
     \<Rightarrow> (store_error, bool) result \<times> database" where
  "link_individually db leases ms session expected_tip through =
     (case save_each leases ms db of
        (Inl e, db) \<Rightarrow> (Inl e, db)
      | (Inr _, db) \<Rightarrow>
          (case transaction (\<lambda>db. save_if_tip_matches db leases session expected_tip) db of
             (Inl e, db) \<Rightarrow> (Inl e, db)
           | (Inr False, db) \<Rightarrow> (Inr False, db)
           | (Inr True, db) \<Rightarrow>
               (case through of
                  None \<Rightarrow> (Inr True, db)
                | Some n \<Rightarrow>
                    (case transaction (unit_op (\<lambda>db. remove_queued_messages db leases (meta_id session) n)) db of
                       (Inl e, db) \<Rightarrow> (Inl e, db)
                     | (Inr _, db) \<Rightarrow> (Inr True, db)))))"

text \<open>A failing cleanup is logged and leaves an orphan.\<close>

definition delete_unreferenced_message :: "lease_tokens \<Rightarrow> database \<Rightarrow> string \<Rightarrow> database" where
  "delete_unreferenced_message leases db k =
     snd (transaction (\<lambda>db. delete_message_if_unreferenced db leases k) db)"

definition append_link ::
  "database \<Rightarrow> lease_tokens \<Rightarrow> session_meta \<Rightarrow> string option \<Rightarrow> message list \<Rightarrow> int option
     \<Rightarrow> (store_error, bool) result \<times> database" where
  "append_link db leases session expected_tip ms through =
     (case transaction (\<lambda>db. save_linked db leases
             \<lparr>link_messages = ms, link_session = session, link_expected_tip = expected_tip,
              consumed_queue_through = through\<rparr>) db of
        (Inl e, db) \<Rightarrow> (Inl e, db)
      | (Inr (Some linked), db) \<Rightarrow> (Inr linked, db)
      | (Inr None, db) \<Rightarrow> link_individually db leases ms session expected_tip through)"

definition append_messages ::
  "database \<Rightarrow> database \<Rightarrow> lease_tokens \<Rightarrow> nat \<Rightarrow> string \<Rightarrow> string option \<Rightarrow> new_message list
     \<Rightarrow> string option \<Rightarrow> int option \<Rightarrow> (store_error, appended_messages) result \<times> database" where
  "append_messages seen db leases now s expected_tip new first_title through =
     (case session_get seen s of
        None \<Rightarrow> (Inl (Report (''Session not found: '' @ s)), db)
      | Some session \<Rightarrow>
          if tip_id session \<noteq> expected_tip
          then (Inl (Report (''Session '' @ s @ '' changed before its messages could be appended'')), db)
          else
            let ms = chain_messages (tip_id session) new in
            if ms = [] then (Inl (Report (''No messages to append to session '' @ s)), db)
            else
              let advanced = advance_session session ms first_title now in
              (case append_link db leases advanced (tip_id session) ms through of
                 (Inl e, db) \<Rightarrow> (Inl e, db)
               | (Inr False, db) \<Rightarrow>
                   (Inl (Report (''Session '' @ s @ '' changed while appending '' @ nat_digits (length ms)
                      @ '' message(s)'')),
                    foldl (delete_unreferenced_message leases) db (map message_id ms))
               | (Inr True, db) \<Rightarrow>
                   (Inr \<lparr>appended_list = ms, previous_tip = tip_id session,
                         previous_title = title session, appended_title = title advanced\<rparr>, db)))"

definition append_new_message ::
  "database \<Rightarrow> database \<Rightarrow> lease_tokens \<Rightarrow> nat \<Rightarrow> string \<Rightarrow> append_message_request
     \<Rightarrow> (store_error, appended_message) result \<times> database" where
  "append_new_message seen db leases now k request =
     (case session_get seen (req_session_id request) of
        None \<Rightarrow> (Inl (Report (''Session not found: '' @ req_session_id request)), db)
      | Some session \<Rightarrow>
          (case append_messages seen db leases now (req_session_id request) (tip_id session)
                  [\<lparr>new_message_id = k, new_content = req_content request, new_status = req_status request,
                    new_agent_profile_id = req_agent_profile_id request,
                    new_generation = req_generation request\<rparr>]
                  (title_if_first_message request) None of
             (Inl e, db) \<Rightarrow> (Inl e, db)
           | (Inr appended, db) \<Rightarrow>
               (case appended_list appended of
                  [] \<Rightarrow> (Inl (Report ''Appending a message linked nothing''), db)
                | m # _ \<Rightarrow>
                    (Inr \<lparr>appended_one = m, one_previous_tip = previous_tip appended,
                          one_previous_title = previous_title appended\<rparr>, db))))"

definition validate_idempotent_message ::
  "message \<Rightarrow> append_message_request \<Rightarrow> (store_error, unit) result" where
  "validate_idempotent_message existing request =
     ensure (message_content existing = req_content request \<and> message_status existing = req_status request
         \<and> agent_profile_id existing = req_agent_profile_id request
         \<and> generation existing = req_generation request)
       (Report (''Message '' @ message_id existing
          @ '' already exists with content that does not match the idempotent append''))"

definition tip_debug :: "string option \<Rightarrow> string" where
  "tip_debug tip = (case tip of None \<Rightarrow> ''None'' | Some k \<Rightarrow> ''Some(MessageId('' @ [CHR 0x22] @ k @ [CHR 0x22] @ ''))'')"

text \<open>\<open>None\<close> when \<open>n\<close> pages do not reach the root of the history.\<close>

definition append_idempotent_message ::
  "nat \<Rightarrow> database \<Rightarrow> database \<Rightarrow> lease_tokens \<Rightarrow> nat \<Rightarrow> string \<Rightarrow> append_message_request
     \<Rightarrow> ((store_error, idempotent_append_outcome) result \<times> database) option" where
  "append_idempotent_message n seen db leases now k request =
     (case read_message seen k of
        Inl e \<Rightarrow> Some (Inl e, db)
      | Inr None \<Rightarrow>
          Some (case append_new_message seen db leases now k request of
                  (Inl e, db) \<Rightarrow> (Inl e, db)
                | (Inr appended, db) \<Rightarrow> (Inr \<lparr>outcome_message = appended_one appended, linked_now = True\<rparr>, db))
      | Inr (Some existing) \<Rightarrow>
          (case validate_idempotent_message existing request of
             Inl e \<Rightarrow> Some (Inl e, db)
           | Inr _ \<Rightarrow>
               (case session_get seen (req_session_id request) of
                  None \<Rightarrow> Some (Inl (Report (''Session not found: '' @ req_session_id request)), db)
                | Some session \<Rightarrow>
                    (case (if tip_id session = Some k then Some (Inr True)
                           else message_is_in_history n (read_history_chain seen) (tip_id session) k) of
                       None \<Rightarrow> None
                     | Some (Inl e) \<Rightarrow> Some (Inl e, db)
                     | Some (Inr True) \<Rightarrow> Some (Inr \<lparr>outcome_message = existing, linked_now = False\<rparr>, db)
                     | Some (Inr False) \<Rightarrow>
                         if tip_id session \<noteq> parent_id existing
                         then Some (Inl (Report (''Cannot recover message '' @ k @ '' for session ''
                                @ req_session_id request @ '': current tip '' @ tip_debug (tip_id session)
                                @ '' does not match durable parent '' @ tip_debug (parent_id existing))), db)
                         else
                           Some (case transaction (\<lambda>db. link_message_if_tip_matches db leases
                                   (session\<lparr>tip_id := Some k, updated_at := now\<rparr>) (tip_id session)) db of
                              (Inl e, db) \<Rightarrow> (Inl e, db)
                            | (Inr False, db) \<Rightarrow>
                                (Inl (Report (''Session '' @ req_session_id request
                                   @ '' changed while recovering message '' @ k)), db)
                            | (Inr True, db) \<Rightarrow>
                                (Inr \<lparr>outcome_message = existing, linked_now = True\<rparr>, db))))))"

definition restore_message ::
  "database \<Rightarrow> database \<Rightarrow> lease_tokens \<Rightarrow> nat \<Rightarrow> string \<Rightarrow> string \<Rightarrow> string option \<Rightarrow> string option
     \<Rightarrow> (store_error, unit) result \<times> database" where
  "restore_message seen db leases now s k tip old_title =
     (case session_get seen s of
        None \<Rightarrow> (Inl (Report (''Session not found: '' @ s)), db)
      | Some session \<Rightarrow>
          if tip_id session \<noteq> Some k
          then (Inl (Report (''Cannot restore session '' @ s @ '': tip is not abandoned message '' @ k)), db)
          else
            (case transaction (\<lambda>db. save_if_tip_matches db leases
                    (session\<lparr>tip_id := tip, title := old_title, updated_at := now\<rparr>) (Some k)) db of
               (Inl e, db) \<Rightarrow> (Inl e, db)
             | (Inr False, db) \<Rightarrow>
                 (Inl (Report (''Cannot restore session '' @ s @ '': tip changed while restoring message '' @ k)), db)
             | (Inr True, db) \<Rightarrow> (Inr (), delete_unreferenced_message leases db k)))"

definition restore_appended_message ::
  "database \<Rightarrow> database \<Rightarrow> lease_tokens \<Rightarrow> nat \<Rightarrow> string \<Rightarrow> appended_message
     \<Rightarrow> (store_error, unit) result \<times> database" where
  "restore_appended_message seen db leases now s appended =
     restore_message seen db leases now s (message_id (appended_one appended))
       (one_previous_tip appended) (one_previous_title appended)"

section \<open>Linking messages\<close>

lemma walk_unique:
  "walk get c ks ms None \<Longrightarrow> walk get c ks' ms' None \<Longrightarrow> ks = ks' \<and> ms = ms'"
proof (induction ks arbitrary: c ms ks' ms')
  case Nil
  then show ?case by auto
next
  case (Cons k ks)
  then obtain m ms1 where m: "ms = m # ms1" "c = Some k" "get k = Inr (Some m)" "walk get (parent_id m) ks ms1 None"
    by auto
  from Cons.prems(2) m(2,3) obtain ks1 ms1' where "ks' = k # ks1" "ms' = m # ms1'" "walk get (parent_id m) ks1 ms1' None"
    by (auto simp: walk_first)
  then show ?case using Cons.IH[OF m(4)] m(1) by auto
qed

text \<open>A walk that reaches a root cannot repeat a message.\<close>

lemma walk_to_root_distinct:
  assumes "walk get c ks ms None"
  shows "distinct ks"
proof (rule ccontr)
  assume "\<not> distinct ks"
  then obtain xs ys zs k where ks: "ks = xs @ [k] @ ys @ [k] @ zs" using not_distinct_decomp by blast
  let ?n = "length xs" and ?i = "Suc (length xs + length ys)"
  have len: "length ks = length ms" using walk_length[OF assms] .
  have cut: "\<exists>c1. walk get c1 (drop n ks) (drop n ms) None" for n
    using walk_append[of "take n ks" "take n ms" get c "drop n ks" "drop n ms" None] assms len by auto
  obtain c1 where c1: "walk get c1 (k # ys @ [k] @ zs) (drop ?n ms) None" using cut[of ?n] ks by auto
  obtain c2 where c2: "walk get c2 (k # zs) (drop ?i ms) None" using cut[of ?i] ks by auto
  have "c1 = Some k" "c2 = Some k" using c1 c2 by auto
  then have "k # ys @ [k] @ zs = k # zs" using walk_unique c1 c2 by blast
  then show False by simp
qed

lemma delta_rows_cleared:
  "delta_rows (clear_stream_deltas db k) j = (if j = k then [] else delta_rows db j)"
  by (auto simp: delta_rows_def clear_stream_deltas_def bt_retain_def filter_empty_conv intro!: filter_cong)

lemma read_message_written:
  assumes "write_message_record db leases ''message'' k assoc (MessageRecord m) = Inr db'"
  shows "read_message db' j = (if j = k then Inr (Some m) else read_message db j)"
proof -
  obtain ss where db': "db' = foldl (\<lambda>db s'. if Some s' \<noteq> assoc then bump_revision db s' else db)
      (clear_stream_deltas (write_record db ''message'' k assoc (MessageRecord m)) k) ss"
    using assms by (auto simp: write_message_record_iff)
  let ?d = "clear_stream_deltas (write_record db ''message'' k assoc (MessageRecord m)) k"
  have "records db' = records ?d" "stream_deltas db' = stream_deltas ?d"
    unfolding db' by (rule bumps_keep)+
  then have "read_message db' j = read_message ?d j" by (rule read_message_cong)
  also have "\<dots> = (if j = k then Inr (Some m) else read_message db j)"
  proof -
    have "delta_rows ?d j = (if j = k then [] else delta_rows db j)"
      by (simp add: delta_rows_cleared) (simp add: delta_rows_def)
    moreover have "bt_get (records ?d) (''message'', j)
        = (if j = k then Some \<lparr>record_session_id = (case bt_get (records db) (''message'', k) of
             Some row \<Rightarrow> (case record_session_id row of Some t \<Rightarrow> Some t | None \<Rightarrow> assoc) | None \<Rightarrow> assoc),
             record_data_of = MessageRecord m\<rparr> else bt_get (records db) (''message'', j))"
      by (simp add: write_record_records)
    ultimately show ?thesis by (cases "j = k") (simp_all only: read_message_def read_record_def, simp_all add: apply_deltas_def)
  qed
  finally show ?thesis .
qed

lemma bumps_metadata:
  "map_option metadata_revision (bt_get (sessions (foldl (\<lambda>db s. if p s then bump_revision db s else db) db ss)) t)
     = map_option metadata_revision (bt_get (sessions db) t)"
proof (induction ss arbitrary: db)
  case (Cons s ss)
  have "map_option metadata_revision (bt_get (sessions (bump_revision db s)) t) = map_option metadata_revision (bt_get (sessions db) t)"
    by (cases "bt_get (sessions db) s") (auto simp: bump_revision_get)
  then show ?case using Cons by simp
qed simp

lemma write_message_metadata:
  assumes "write_message_record db leases ''message'' k (Some s) v = Inr db'"
  shows "map_option metadata_revision (bt_get (sessions db') t) = map_option metadata_revision (bt_get (sessions db) t)"
proof -
  obtain ss where "db' = foldl (\<lambda>db s'. if Some s' \<noteq> Some s then bump_revision db s' else db)
      (clear_stream_deltas (write_record db ''message'' k (Some s) v) k) ss"
    using assms by (auto simp: write_message_record_iff)
  then show ?thesis
    by (cases "bt_get (sessions db) s") (auto simp: bumps_metadata write_record_sessions bump_revision_get)
qed

lemma link_step_iff:
  "link_step leases s db m = Inr db' \<longleftrightarrow>
     (read_message db (message_id m) = Inr None \<or> read_message db (message_id m) = Inr (Some m))
     \<and> write_message_record db leases ''message'' (message_id m) (Some s) (MessageRecord m) = Inr db'"
  by (auto simp: link_step_def result_simps split: option.splits)

text \<open>Every linked message is stored as given, and nothing stored before reads differently.\<close>

lemma linked_messages:
  assumes "foldR (link_step leases s) db ms = Inr db'"
  shows "m \<in> set ms \<Longrightarrow> read_message db' (message_id m) = Inr (Some m)"
    and "k \<notin> message_id ` set ms \<Longrightarrow> read_message db' k = read_message db k"
    and "read_message db k = Inr (Some e) \<Longrightarrow> read_message db' k = Inr (Some e)"
proof -
  have "(m \<in> set ms \<longrightarrow> read_message db' (message_id m) = Inr (Some m))
      \<and> (k \<notin> message_id ` set ms \<longrightarrow> read_message db' k = read_message db k)
      \<and> (read_message db k = Inr (Some e) \<longrightarrow> read_message db' k = Inr (Some e))" for m k e
    using assms
  proof (induction ms arbitrary: db m k e)
    case Nil
    then show ?case by simp
  next
    case (Cons a ms)
    then obtain db1 where db1: "link_step leases s db a = Inr db1" "foldR (link_step leases s) db1 ms = Inr db'"
      by (auto simp: result_simps)
    have read: "read_message db1 j = (if j = message_id a then Inr (Some a) else read_message db j)" for j
      using db1(1) read_message_written[of db leases "message_id a" "Some s" a db1 j] by (auto simp: link_step_iff)
    have old: "read_message db (message_id a) = Inr None \<or> read_message db (message_id a) = Inr (Some a)"
      using db1(1) by (simp add: link_step_iff)
    have "read_message db1 k = Inr (Some e)" if "read_message db k = Inr (Some e)"
      using that old read by auto
    then show ?case
      using Cons.IH[OF db1(2), of a "message_id a" a] Cons.IH[OF db1(2), of m k e] read by auto
  qed
  then show "m \<in> set ms \<Longrightarrow> read_message db' (message_id m) = Inr (Some m)"
    "k \<notin> message_id ` set ms \<Longrightarrow> read_message db' k = read_message db k"
    "read_message db k = Inr (Some e) \<Longrightarrow> read_message db' k = Inr (Some e)" by blast+
qed

lemma walk_kept:
  "walk get c ks ms c' \<Longrightarrow> (\<And>k m. get k = Inr (Some m) \<Longrightarrow> get' k = Inr (Some m)) \<Longrightarrow> walk get' c ks ms c'"
  by (induction rule: walk.induct) auto

lemma chain_messages_walk:
  assumes "\<And>m. m \<in> set (chain_messages tip new) \<Longrightarrow> get (message_id m) = Inr (Some m)"
  shows "walk get (if new = [] then tip else Some (new_message_id (last new)))
    (rev (map new_message_id new)) (rev (chain_messages tip new)) tip"
  using assms
proof (induction new arbitrary: tip)
  case Nil
  then show ?case by simp
next
  case (Cons a new)
  let ?m = "hd (chain_messages tip (a # new))"
  have "walk get (if new = [] then Some (new_message_id a) else Some (new_message_id (last new)))
      (rev (map new_message_id new)) (rev (chain_messages (Some (new_message_id a)) new)) (Some (new_message_id a))"
    using Cons.IH[of "Some (new_message_id a)"] Cons.prems by auto
  moreover have "walk get (Some (new_message_id a)) [new_message_id a] [?m] tip"
    using Cons.prems[of ?m] by auto
  ultimately show ?case
    using walk_append[of "rev (map new_message_id new)" "rev (chain_messages (Some (new_message_id a)) new)"]
      walk_length[of get _ "rev (map new_message_id new)"] by auto
qed

lemma chain_messages_ids: "map message_id (chain_messages tip new) = map new_message_id new"
  by (induction new arbitrary: tip) auto

lemma chain_messages_empty [simp]: "chain_messages tip new = [] \<longleftrightarrow> new = []"
  by (cases new) auto

lemma last_chain_id: "new \<noteq> [] \<Longrightarrow> message_id (last (chain_messages tip new)) = new_message_id (last new)"
  using chain_messages_ids[of tip new] by (metis chain_messages_empty last_map)

definition finish_link :: "database \<Rightarrow> session_meta \<Rightarrow> int option \<Rightarrow> database" where
  "finish_link db session through =
     (case through of None \<Rightarrow> save_session db session
      | Some n \<Rightarrow> consume_queued_messages (save_session db session) (meta_id session) n)"

lemma finish_link_keeps [simp]:
  "records (finish_link db session through) = records db"
  "stream_deltas (finish_link db session through) = stream_deltas db"
  "sessions (finish_link db session through) = sessions (save_session db session)"
  by (simp_all add: finish_link_def consume_queued_messages_def split: option.split)

lemma save_linked_iff:
  "save_linked db leases \<lparr>link_messages = ms, link_session = session, link_expected_tip = tip, consumed_queue_through = through\<rparr>
      = Inr (linked, db') \<longleftrightarrow>
     assert_owner db leases (meta_id session) = Inr () \<and>
     (if (case read_session db (meta_id session) of None \<Rightarrow> True | Some c \<Rightarrow> tip_id c \<noteq> tip)
      then linked = Some False \<and> db' = db
      else linked = Some True \<and> assert_session_revision (read_session db (meta_id session)) session = Inr ()
        \<and> (\<exists>db1. foldR (link_step leases (meta_id session)) db ms = Inr db1 \<and> db' = finish_link db1 session through))"
  by (auto simp: save_linked_def Let_def result_simps finish_link_def split: option.splits if_splits)

lemma append_link_iff:
  "append_link db leases session tip ms through = (Inr True, db') \<longleftrightarrow>
     save_linked db leases \<lparr>link_messages = ms, link_session = session, link_expected_tip = tip,
       consumed_queue_through = through\<rparr> = Inr (Some True, db')"
proof (cases "save_linked db leases \<lparr>link_messages = ms, link_session = session, link_expected_tip = tip,
    consumed_queue_through = through\<rparr>")
  case (Inr r)
  then obtain linked d where "r = (linked, d)" by (cases r)
  moreover from this Inr have "linked = Some True \<or> linked = Some False"
    by (auto simp: save_linked_iff split: if_splits)
  ultimately show ?thesis using Inr by (auto simp: append_link_def transaction_def)
qed (simp add: append_link_def transaction_def)

lemma advance_session_simps [simp]:
  "meta_id (advance_session session ms first_title now) = meta_id session"
  "meta_revision (advance_session session ms first_title now) = meta_revision session"
  "tip_id (advance_session session ms first_title now) = Some (message_id (last ms))"
  by (simp_all add: advance_session_def Let_def)

text \<open>An append that succeeded, in terms of the two databases it worked on.\<close>

lemma append_messages_iff:
  "append_messages seen db leases now s tip new first_title through = (Inr out, db') \<longleftrightarrow>
     (\<exists>session. read_session seen s = Some session \<and> tip_id session = tip \<and> new \<noteq> []
        \<and> (\<exists>advanced. advanced = advance_session session (chain_messages tip new) first_title now
          \<and> out = \<lparr>appended_list = chain_messages tip new, previous_tip = tip, previous_title = title session,
                  appended_title = title advanced\<rparr>
          \<and> append_link db leases advanced tip (chain_messages tip new) through = (Inr True, db')))"
  by (auto simp: append_messages_def session_get_def Let_def split: option.split prod.split sum.split bool.split if_splits)

lemma read_session_id:
  assumes "db_wf db" "read_session db s = Some session"
  shows "meta_id session = s" "valid_id s"
proof -
  obtain row where row: "bt_get (sessions db) s = Some row" "session = (row_data row)\<lparr>meta_revision := metadata_revision row\<rparr>"
    using assms(2) by (auto simp: read_session_def)
  have "session_row_ok s row" using table_all_get[OF _ row(1)] assms(1) by (auto simp: db_wf_def)
  then show "meta_id session = s" "valid_id s" using row(2) by (auto simp: session_row_ok_def)
qed

lemma read_message_adopted: "read_message (adopt_tip db m) k = read_message db k"
proof -
  have "map_option record_data_of (bt_get (records (adopt_tip db m)) (''message'', k))
      = map_option record_data_of (bt_get (records db) (''message'', k))"
    by (auto simp: adopt_tip_def bt_get_update option.map_comp comp_def split: option.split)
  then have "read_record as_message (adopt_tip db m) ''message'' k = read_record as_message db ''message'' k"
    by (cases "bt_get (records db) (''message'', k)"; cases "bt_get (records (adopt_tip db m)) (''message'', k)")
      (auto simp: read_record_def)
  moreover have "delta_rows (adopt_tip db m) k = delta_rows db k" by (simp add: delta_rows_def)
  ultimately show ?thesis by (simp only: read_message_def)
qed

definition requested_message :: "string \<Rightarrow> string option \<Rightarrow> append_message_request \<Rightarrow> message" where
  "requested_message k tip request =
     \<lparr>message_id = k, parent_id = tip, message_content = req_content request, message_status = req_status request,
      agent_profile_id = req_agent_profile_id request, generation = req_generation request\<rparr>"

lemma append_new_message_iff:
  "append_new_message seen db leases now k request = (Inr a, db') \<longleftrightarrow>
     (\<exists>session m advanced. read_session seen (req_session_id request) = Some session
        \<and> m = requested_message k (tip_id session) request
        \<and> advanced = advance_session session [m] (title_if_first_message request) now
        \<and> a = \<lparr>appended_one = m, one_previous_tip = tip_id session, one_previous_title = title session\<rparr>
        \<and> append_link db leases advanced (tip_id session) [m] None = (Inr True, db'))"
  by (auto simp: append_new_message_def append_messages_def session_get_def Let_def requested_message_def
      split: option.split prod.split sum.split bool.split if_splits)

text \<open>After one message was linked, it is the tip and reads as given.\<close>

lemma append_one:
  assumes "append_link db leases advanced tip [m] None = (Inr True, db')"
  shows "read_message db' j = (if j = message_id m then Inr (Some m) else read_message db j)"
    "read_session db' (meta_id advanced) = Some (advanced\<lparr>meta_revision := meta_revision advanced + 1\<rparr>)"
    "assert_owner db leases (meta_id advanced) = Inr ()"
    "\<exists>before. read_session db (meta_id advanced) = Some before \<and> tip_id before = tip"
    "\<exists>db1. link_step leases (meta_id advanced) db m = Inr db1 \<and> db' = save_session db1 advanced"
proof -
  obtain db1 where db1: "link_step leases (meta_id advanced) db m = Inr db1" "db' = save_session db1 advanced"
      "assert_owner db leases (meta_id advanced) = Inr ()"
      "\<exists>c. read_session db (meta_id advanced) = Some c \<and> tip_id c = tip \<and> meta_revision c = meta_revision advanced"
    using assms by (auto simp: append_link_iff save_linked_iff finish_link_def result_simps assert_session_revision_def
        ensure_def split: if_splits option.splits)
  have w: "write_message_record db leases ''message'' (message_id m) (Some (meta_id advanced)) (MessageRecord m) = Inr db1"
    using db1(1) by (simp add: link_step_iff)
  have "read_message db' j = read_message db1 j" using db1(2) by (intro read_message_cong) simp_all
  then show "read_message db' j = (if j = message_id m then Inr (Some m) else read_message db j)"
    using read_message_written[OF w] by simp
  have "map_option metadata_revision (bt_get (sessions db1) t) = map_option metadata_revision (bt_get (sessions db) t)" for t
    using write_message_metadata[OF w] .
  then have "map_option meta_revision (read_session db1 t) = map_option meta_revision (read_session db t)" for t
    by (simp add: read_session_def option.map_comp comp_def)
  then have "map_option meta_revision (read_session db1 (meta_id advanced)) = Some (meta_revision advanced)"
    using db1(4) by auto
  then show "read_session db' (meta_id advanced) = Some (advanced\<lparr>meta_revision := meta_revision advanced + 1\<rparr>)"
    unfolding db1(2) read_saved_session by auto
  show "assert_owner db leases (meta_id advanced) = Inr ()"
    "\<exists>before. read_session db (meta_id advanced) = Some before \<and> tip_id before = tip"
    "\<exists>db1. link_step leases (meta_id advanced) db m = Inr db1 \<and> db' = save_session db1 advanced"
    using db1 by blast+
qed

text \<open>How an idempotent append succeeds: the message is new, it is in the history, or it is linked again.\<close>

lemma append_idempotent_cases:
  assumes "append_idempotent_message n db db leases now k request = Some (Inr out, db1)"
  obtains
    (fresh) session where "read_message db k = Inr None" "read_session db (req_session_id request) = Some session"
      "outcome_message out = requested_message k (tip_id session) request"
      "append_link db leases (advance_session session [requested_message k (tip_id session) request]
           (title_if_first_message request) now) (tip_id session) [requested_message k (tip_id session) request] None
         = (Inr True, db1)"
  | (there) session where "read_message db k = Inr (Some (outcome_message out))"
      "validate_idempotent_message (outcome_message out) request = Inr ()"
      "read_session db (req_session_id request) = Some session" "db1 = db" "linked_now out = False"
      "tip_id session = Some k \<or> message_is_in_history n (read_history_chain db) (tip_id session) k = Some (Inr True)"
  | (linked) session where "read_message db k = Inr (Some (outcome_message out))"
      "validate_idempotent_message (outcome_message out) request = Inr ()"
      "read_session db (req_session_id request) = Some session"
      "db1 = adopt_tip (save_session db (session\<lparr>tip_id := Some k, updated_at := now\<rparr>)) (session\<lparr>tip_id := Some k, updated_at := now\<rparr>)"
proof -
  consider (none) "read_message db k = Inr None" | (known) e where "read_message db k = Inr (Some e)"
    using assms by (auto simp: append_idempotent_message_def split: sum.splits option.splits)
  then show thesis
  proof cases
    case none
    then obtain a where "append_new_message db db leases now k request = (Inr a, db1)" "outcome_message out = appended_one a"
      using assms by (auto simp: append_idempotent_message_def split: prod.splits sum.splits)
    then show thesis using fresh none by (auto simp: append_new_message_iff)
  next
    case known
    then have valid: "validate_idempotent_message e request = Inr ()"
      using assms by (auto simp: append_idempotent_message_def split: sum.splits)
    obtain session where session: "read_session db (req_session_id request) = Some session"
      using assms known valid by (auto simp: append_idempotent_message_def session_get_def split: option.splits)
    consider "db1 = db" "outcome_message out = e" "linked_now out = False"
          "tip_id session = Some k \<or> message_is_in_history n (read_history_chain db) (tip_id session) k = Some (Inr True)"
      | "outcome_message out = e"
          "link_message_if_tip_matches db leases (session\<lparr>tip_id := Some k, updated_at := now\<rparr>) (tip_id session) = Inr (True, db1)"
      using assms known valid session
      by (auto simp: append_idempotent_message_def session_get_def transaction_def
          split: option.splits sum.splits bool.splits if_splits prod.splits)
    then show thesis
      using there linked known valid session
      by cases (auto simp: link_message_if_tip_matches_def session_update_iff split: if_splits)
  qed
qed

section \<open>Searching a history page by page\<close>

lemma store_step_visited:
  assumes "foldR (store_step overlay) st ms = Inr st'"
  shows "fst (snd st) \<subseteq> fst (snd st')"
  using assms
  by (rule foldR_invariant[where I = "\<lambda>x. fst (snd st) \<subseteq> fst (snd x)"])
    (auto simp: store_step_def cursor_push_def Let_def result_simps)

lemma next_page_progress:
  assumes "next_page (read_history_chain db) no_overlay cur = Inr (Some page, cur')" "0 < page_size cur"
  shows "set (message_ids db) - cursor_visited cur' \<subset> set (message_ids db) - cursor_visited cur"
    "0 < page_size cur'"
proof -
  obtain k where k: "cursor_next cur = Some k" using assms(1) by (auto simp: next_page_def split: option.splits)
  obtain ms c V where ms: "read_history_chain db k (page_size cur) = Inr ms"
      "foldR (store_step no_overlay) (Some k, cursor_visited cur, []) ms = Inr (c, V, page)"
      "cur' = snd (finish_page (cur\<lparr>cursor_next := None\<rparr>) V page)"
    using assms(1) k by (auto simp: next_page_def overlay_loop.simps Let_def finish_page_def result_simps)
  obtain ks c' where w: "walk (read_message db) (Some k) ks ms c'" "c' = None \<or> page_size cur \<le> length ms"
    using ms(1) unfolding read_history_chain_def chain_loop_walk by auto
  have "ms \<noteq> []" using w assms(2) walk_length[OF w(1)] by (cases ms) auto
  then obtain m ms' where m: "ms = m # ms'" "read_message db k = Inr (Some m)" using w(1) by (auto simp: walk_first)
  obtain st where st: "store_step no_overlay (Some k, cursor_visited cur, []) m = Inr st"
      "foldR (store_step no_overlay) st ms' = Inr (c, V, page)"
    using ms(2) m(1) by (auto simp: result_simps)
  have "k \<notin> cursor_visited cur" "fst (snd st) = insert k (cursor_visited cur)"
    using st(1) by (auto simp: store_step_def cursor_push_def Let_def result_simps)
  moreover have "k \<in> set (message_ids db)"
    using read_message_record[OF m(2)] by (force simp: message_ids_def dest: map_of_SomeD)
  moreover have "cursor_visited cur' = V" using ms(3) by (simp add: finish_page_def)
  ultimately show "set (message_ids db) - cursor_visited cur' \<subset> set (message_ids db) - cursor_visited cur"
    using store_step_visited[OF st(2)] by auto
  show "0 < page_size cur'" using ms(3) sat_mul_pos[OF assms(2)] by (simp add: finish_page_def)
qed

lemma in_pages_ends:
  "0 < page_size cur \<Longrightarrow> card (set (message_ids db) - cursor_visited cur) < n \<Longrightarrow>
   \<exists>r. in_pages n (read_history_chain db) cur target = Some r"
proof (induction n arbitrary: cur)
  case (Suc n)
  show ?case
  proof (cases "next_page (read_history_chain db) no_overlay cur")
    case (Inr r)
    obtain page cur' where r: "r = (page, cur')" by (cases r)
    show ?thesis
    proof (cases page)
      case (Some p)
      then have page: "next_page (read_history_chain db) no_overlay cur = Inr (Some p, cur')" using Inr r by simp
      note progress = next_page_progress[OF page Suc.prems(1)]
      have "card (set (message_ids db) - cursor_visited cur') < card (set (message_ids db) - cursor_visited cur)"
        by (rule psubset_card_mono[OF _ progress(1)]) simp
      then show ?thesis using Suc.IH[of cur'] progress(2) Suc.prems(2) page by simp
    qed (use Inr r in simp)
  qed simp
qed simp

lemma append_idempotent_ends:
  assumes "card (set (message_ids seen)) < n"
  shows "\<exists>r. append_idempotent_message n seen db leases now k request = Some r"
proof -
  have "\<exists>r. message_is_in_history n (read_history_chain seen) tip k = Some r" for tip
    using assms in_pages_ends[of "cursor_new tip" seen n k] by (simp add: message_is_in_history_def cursor_new_def)
  then obtain f where "message_is_in_history n (read_history_chain seen) tip k = Some (f tip)" for tip by metis
  then show ?thesis
    unfolding append_idempotent_message_def by (auto split: sum.split option.split bool.split)
qed

text \<open>An operation stores at most one message that was not there.\<close>

lemma message_ids_iff: "k \<in> set (message_ids db) \<longleftrightarrow> (''message'', k) \<in> fst ` set (records db)"
  by (force simp: message_ids_def)

lemma message_ids_cong: "fst ` set (records db') = fst ` set (records db) \<Longrightarrow> set (message_ids db') = set (message_ids db)"
  by (rule set_eqI) (simp add: message_ids_iff)

lemma card_message_ids_insert:
  assumes "fst ` set (records db') \<subseteq> insert (''message'', k) (fst ` set (records db))"
  shows "card (set (message_ids db')) \<le> Suc (card (set (message_ids db)))"
proof -
  have "set (message_ids db') \<subseteq> insert k (set (message_ids db))" using assms by (intro subsetI) (simp only: message_ids_iff insert_iff, blast)
  then have "card (set (message_ids db')) \<le> card (insert k (set (message_ids db)))" by (intro card_mono) auto
  also have "\<dots> \<le> Suc (card (set (message_ids db)))" by (rule card_insert_le_m1) simp_all
  finally show ?thesis .
qed

lemma card_written_message:
  assumes "write_message_record db leases ''message'' k assoc v = Inr db'"
  shows "card (set (message_ids db')) \<le> Suc (card (set (message_ids db)))"
proof (rule card_message_ids_insert)
  have "records db' = records (write_record db ''message'' k assoc v)"
    using assms by (auto simp: write_message_record_iff bumps_keep)
  then show "fst ` set (records db') \<subseteq> insert (''message'', k) (fst ` set (records db))"
    by (simp add: write_record_records)
qed

lemma card_appended_message:
  assumes "append_idempotent_message n db db leases now k request = Some (Inr out, db')"
  shows "card (set (message_ids db')) \<le> Suc (card (set (message_ids db)))"
  using assms
proof (cases rule: append_idempotent_cases)
  case (fresh session)
  then obtain db1 where "write_message_record db leases ''message'' k (Some (meta_id session)) (MessageRecord (outcome_message out)) = Inr db1"
      "records db' = records db1"
    using append_one(5)[OF fresh(4)] by (auto simp: link_step_iff requested_message_def)
  then show ?thesis using card_written_message message_ids_cong[of db' db1] by metis
next
  case (linked session)
  have "fst ` set (records db') = fst ` set (records db)"
    unfolding linked(4) set_map[symmetric] by (simp add: adopt_tip_def split: option.split)
  then show ?thesis using message_ids_cong[of db' db] by simp
qed simp

section \<open>Rolling back\<close>

lemma written_records:
  assumes "write_message_record db leases ''message'' k (Some s) v = Inr db'"
  shows "records db' = records (write_record db ''message'' k (Some s) v)"
    "map_option row_tip (bt_get (sessions db') t) = map_option row_tip (bt_get (sessions db) t)"
proof -
  obtain ss where db': "db' = foldl (\<lambda>db s'. if Some s' \<noteq> Some s then bump_revision db s' else db)
      (clear_stream_deltas (write_record db ''message'' k (Some s) v) k) ss"
    using assms by (auto simp: write_message_record_iff)
  show "records db' = records (write_record db ''message'' k (Some s) v)" unfolding db' bumps_keep by simp
  have bump: "map_option row_tip (bt_get (sessions (bump_revision d u)) t) = map_option row_tip (bt_get (sessions d) t)" for d u
    by (cases "bt_get (sessions d) u") (auto simp: bump_revision_get)
  have "map_option row_tip (bt_get (sessions (foldl (\<lambda>db s'. if Some s' \<noteq> Some s then bump_revision db s' else db) d ss)) t)
      = map_option row_tip (bt_get (sessions d) t)" for d
    by (induction ss arbitrary: d) (simp_all add: bump)
  then show "map_option row_tip (bt_get (sessions db') t) = map_option row_tip (bt_get (sessions db) t)"
    unfolding db' by (simp add: write_record_sessions bump)
qed

lemma parent_of_cong:
  "map_option record_data_of (bt_get (records db') (''message'', k)) = map_option record_data_of (bt_get (records db) (''message'', k))
   \<Longrightarrow> parent_of db' k = parent_of db k"
  by (cases "bt_get (records db') (''message'', k)"; cases "bt_get (records db) (''message'', k)") (auto simp: parent_of_def)

lemma adopted_data:
  "map_option record_data_of (bt_get (records (adopt_tip db m)) key) = map_option record_data_of (bt_get (records db) key)"
  by (auto simp: adopt_tip_def bt_get_update option.map_comp comp_def split: option.split)

lemma no_new_references:
  assumes "\<And>j. j \<noteq> k \<Longrightarrow> parent_of db' j = parent_of db j"
    and "\<And>t. map_option row_tip (bt_get (sessions db') t) = map_option row_tip (bt_get (sessions db) t)"
    and "in_history db' t k"
  shows "in_history db t k"
proof -
  obtain row' x where x: "bt_get (sessions db') t = Some row'" "row_tip row' = Some x" "(x, k) \<in> (parents db')\<^sup>*"
    using assms(3) by (auto simp: in_history_def)
  from x(3) have "(x, k) \<in> (parents db)\<^sup>*"
  proof (induction rule: converse_rtrancl_induct)
    case (step y z)
    then show ?case
    proof (cases "y = k")
      case False
      then have "(y, z) \<in> parents db" using step(1) assms(1) by (simp add: parents_def)
      then show ?thesis using step(3) by (rule converse_rtrancl_into_rtrancl)
    qed simp
  qed simp
  moreover obtain row where "bt_get (sessions db) t = Some row" "row_tip row = Some x"
    using assms(2)[of t] x(1,2) by (cases "bt_get (sessions db) t") auto
  ultimately show ?thesis by (auto simp: in_history_def)
qed

lemma delete_owned_message:
  assumes "db_wf db" "\<And>t. \<not> in_history db t k"
    and "\<And>s. Option.bind (bt_get (records db) (''message'', k)) record_session_id = Some s \<Longrightarrow> assert_owner db leases s = Inr ()"
  shows "read_message (delete_unreferenced_message leases db k) j = (if j = k then Inr None else read_message db j)"
    "sessions (delete_unreferenced_message leases db k) = sessions db"
proof -
  let ?d = "clear_stream_deltas
      (db\<lparr>records := bt_retain (\<lambda>(kind, i) _. \<not> (kind \<in> {''message'', ''compaction''} \<and> i = k)) (records db)\<rparr>) k"
  have "delete_message_records db leases k = Inr ?d"
    unfolding delete_message_records_iff using assms(3) record_session_wf[OF assms(1), of "''message''" k] by auto
  moreover have "\<not> message_referenced db k" using message_referenced_iff[OF assms(1)] assms(2) by simp
  ultimately have d: "delete_unreferenced_message leases db k = ?d"
    by (simp add: delete_unreferenced_message_def transaction_def delete_message_if_unreferenced_def delete_unreferenced_def)
  have rows: "delta_rows ?d j = (if j = k then [] else delta_rows db j)"
    by (simp add: delta_rows_cleared) (simp add: delta_rows_def)
  have recs: "bt_get (records ?d) (''message'', j) = (if j = k then None else bt_get (records db) (''message'', j))"
    using assms(1) by (auto simp: bt_get_retain split: option.split)
  show "read_message (delete_unreferenced_message leases db k) j = (if j = k then Inr None else read_message db j)"
    unfolding d using rows recs
    by (cases "j = k") (simp_all only: read_message_def read_record_def, simp_all)
  show "sessions (delete_unreferenced_message leases db k) = sessions db" unfolding d by simp
qed

text \<open>What linking one message and saving the session leave of the rest of the store.\<close>

lemma linked_one_state:
  assumes "db_wf db" "append_link db leases adv tip [m] None = (Inr True, db1)" "valid_id (meta_id adv)"
  shows "db_wf db1" "lease_columns db1 t = lease_columns db t"
    "i \<noteq> message_id m \<Longrightarrow> parent_of db1 i = parent_of db i"
    "t \<noteq> meta_id adv \<Longrightarrow> map_option row_tip (bt_get (sessions db1) t) = map_option row_tip (bt_get (sessions db) t)"
    "bt_get (records db) (''message'', message_id m) = None \<Longrightarrow>
       Option.bind (bt_get (records db1) (''message'', message_id m)) record_session_id = Some (meta_id adv)"
proof -
  obtain d where d: "write_message_record db leases ''message'' (message_id m) (Some (meta_id adv)) (MessageRecord m) = Inr d"
      "db1 = save_session d adv"
    using append_one(5)[OF assms(2)] by (auto simp: link_step_iff)
  note recs = written_records[OF d(1)]
  show "db_wf db1" using write_message_record_wf[OF assms(1) d(1)] assms(3) d(2) save_session_wf[of d adv] by auto
  have "lease_columns d t = lease_columns db t" for t using lease_columns_message_record(1)[OF d(1)] .
  moreover have "lease_columns db (meta_id adv) \<noteq> None"
    using append_one(4)[OF assms(2)] by (auto simp: lease_columns_def read_session_def)
  ultimately show "lease_columns db1 t = lease_columns db t" unfolding d(2) lease_columns_save_session by auto
  show "parent_of db1 i = parent_of db i" if "i \<noteq> message_id m"
    using that by (intro parent_of_cong) (simp add: d(2) recs(1) write_record_records)
  show "map_option row_tip (bt_get (sessions db1) t) = map_option row_tip (bt_get (sessions db) t)" if "t \<noteq> meta_id adv"
    using that recs(2) by (simp add: d(2) save_session_get)
  show "Option.bind (bt_get (records db1) (''message'', message_id m)) record_session_id = Some (meta_id adv)"
    if "bt_get (records db) (''message'', message_id m) = None"
    using that by (simp add: d(2) recs(1) write_record_records)
qed

lemma saved_state:
  assumes "db_wf db" "valid_id (meta_id new)" "read_session db (meta_id new) \<noteq> None"
    and "db' = adopt_tip (save_session db new) new"
  shows "db_wf db'" "lease_columns db' t = lease_columns db t" "parent_of db' i = parent_of db i"
    "read_message db' i = read_message db i"
    "map_option row_tip (bt_get (sessions db') t)
       = (if t = meta_id new then Some (tip_id new) else map_option row_tip (bt_get (sessions db) t))"
    "tip_id new \<noteq> Some i \<Longrightarrow> bt_get (records db') (''message'', i) = bt_get (records db) (''message'', i)"
proof -
  show "db_wf db'" using assms by (simp add: save_session_wf adopt_tip_wf)
  show "lease_columns db' t = lease_columns db t"
    using assms(3) unfolding assms(4) lease_columns_adopt lease_columns_save_session
    by (auto simp: lease_columns_def read_session_def)
  show "parent_of db' i = parent_of db i" unfolding assms(4) by (intro parent_of_cong) (simp add: adopted_data)
  show "read_message db' i = read_message db i"
    using read_message_cong[of "save_session db new" db i] by (simp add: assms(4) read_message_adopted)
  show "map_option row_tip (bt_get (sessions db') t)
       = (if t = meta_id new then Some (tip_id new) else map_option row_tip (bt_get (sessions db) t))"
    by (auto simp: assms(4) save_session_get split: option.split)
  show "bt_get (records db') (''message'', i) = bt_get (records db) (''message'', i)" if "tip_id new \<noteq> Some i"
    using that by (auto simp: assms(4) adopt_tip_def bt_get_update split: option.split)
qed

lemma read_session_tip:
  assumes "db_wf db" "read_session db s = Some session"
  shows "map_option row_tip (bt_get (sessions db) s) = Some (tip_id session)"
  using assms table_all_get[of session_row_ok "sessions db" s]
  by (auto simp: read_session_def session_row_ok_def db_wf_def)

section \<open>A conversation to evaluate\<close>

definition sample_request :: append_message_request where
  "sample_request = \<lparr>req_session_id = ''s'', req_content = AssistantItems [], req_status = MessageComplete,
     req_agent_profile_id = None, req_generation = None, title_if_first_message = Some ''hello''\<rparr>"

lemma sample_owners: "assert_message_owners sample_db [] ''m'' (Some ''s'') = Inr [''s'']"
  by (simp add: assert_message_owners_def owners_loop.simps record_session_def sample_db_def empty_database_def
      assert_owner_def leases_get_def message_sessions_def shows_message_def valid_id_s assert_owners_def)

lemma sample_link:
  assumes "meta_id advanced = ''s''" "meta_revision advanced = 1" "message_id m = ''m''"
  shows "\<exists>db1. append_link sample_db [] advanced None [m] None = (Inr True, db1)"
proof -
  have "read_session sample_db ''s'' = Some (sample_meta ''s'')"
    by (simp add: read_session_def sample_db_def sample_meta_def)
  moreover have "assert_owner sample_db [] ''s'' = Inr ()" by (simp add: assert_owner_def sample_db_def leases_get_def)
  moreover have "read_message sample_db ''m'' = Inr None"
    by (simp add: read_message_def read_record_def sample_db_def empty_database_def)
  moreover have "\<exists>d. link_step [] ''s'' sample_db m = Inr d"
    using calculation(3) assms(3) sample_owners by (auto simp: link_step_iff write_message_record_iff)
  ultimately show ?thesis
    using assms by (auto simp: append_link_iff save_linked_iff sample_meta_def assert_session_revision_def result_simps)
qed

lemma sample_append: "\<exists>a db1. append_new_message sample_db sample_db [] 5 ''m'' sample_request = (Inr a, db1)"
  using sample_link[of "advance_session (sample_meta ''s'') [requested_message ''m'' None sample_request] (Some ''hello'') 5"
      "requested_message ''m'' None sample_request"]
  by (auto simp: append_new_message_iff read_session_def sample_db_def sample_meta_def sample_request_def requested_message_def)

section \<open>Properties\<close>

text \<open>C3. Appending extends the conversation and changes nothing else in it: when messages are
  appended to a session, whatever other runtimes did between reading the session and linking,
  the tip had not moved, the session's new tip is the last of them, and its history is exactly
  the new messages, newest first, before the history the session had.\<close>

theorem append_extends_history:
  assumes "db_wf seen" "append_messages seen db leases now s tip new first_title through = (Inr out, db')"
    and "case tip of None \<Rightarrow> old = [] | Some t \<Rightarrow> read_history_chain db t n = Inr old \<and> length old < n"
  shows "(\<exists>before. read_session db s = Some before \<and> tip_id before = tip)
    \<and> (\<exists>after. read_session db' s = Some after \<and> tip_id after = Some (new_message_id (last new)))
    \<and> map message_id (appended_list out) = map new_message_id new
    \<and> read_history_chain db' (new_message_id (last new)) (n + length new) = Inr (rev (appended_list out) @ old)"
proof -
  let ?ms = "chain_messages tip new"
  obtain session where session: "read_session seen s = Some session" "new \<noteq> []" "appended_list out = ?ms"
      "append_link db leases (advance_session session ?ms first_title now) tip ?ms through = (Inr True, db')"
    using assms(2) by (auto simp: append_messages_iff)
  let ?a = "advance_session session ?ms first_title now"
  have s: "meta_id ?a = s" using read_session_id[OF assms(1) session(1)] by simp
  obtain db1 where db1: "foldR (link_step leases s) db ?ms = Inr db1" "db' = finish_link db1 ?a through"
      "\<exists>c. read_session db s = Some c \<and> tip_id c = tip"
    using session(4) s by (auto simp: append_link_iff save_linked_iff split: if_splits option.splits)
  have read: "read_message db' k = read_message db1 k" for k
    using db1(2) by (intro read_message_cong) simp_all
  have "read_session db' s = read_session (save_session db1 ?a) s"
    unfolding db1(2) by (simp add: read_session_def)
  then have after: "\<exists>after. read_session db' s = Some after \<and> tip_id after = Some (new_message_id (last new))"
    using read_saved_session[of db1 ?a] s last_chain_id[OF session(2)] by simp
  obtain ks where old: "walk (read_message db) tip ks old None"
  proof (cases tip)
    case None
    then show ?thesis using assms(3) that[of "[]"] by simp
  next
    case (Some t)
    have "read_history (read_message db) t n = read_history_chain db t n"
      by (simp add: read_history_def read_history_chain_def)
    then show ?thesis
      using chain_reaches_root[of "read_message db" t n old] assms(3) Some that by auto
  qed
  have w_old: "walk (read_message db') tip ks old None"
    using walk_kept[OF old, of "read_message db'"] linked_messages(3)[OF db1(1)] read by simp
  have w_new: "walk (read_message db') (Some (new_message_id (last new))) (rev (map new_message_id new)) (rev ?ms) tip"
    using chain_messages_walk[of tip new "read_message db'"] linked_messages(1)[OF db1(1)] read session(2) by simp
  have w: "walk (read_message db') (Some (new_message_id (last new))) (rev (map new_message_id new) @ ks) (rev ?ms @ old) None"
    using w_old w_new walk_append[of "rev (map new_message_id new)" "rev ?ms"] walk_length[OF w_new] by blast
  have len: "length ?ms = length new" using chain_messages_ids[of tip new] by (metis length_map)
  have "length old \<le> n" using assms(3) by (cases tip) auto
  then have "read_history_chain db' (new_message_id (last new)) (n + length new) = Inr (rev ?ms @ old)"
    unfolding read_history_chain_def chain_loop_walk
    using w walk_to_root_distinct[OF w] len by (intro exI[of _ "rev (map new_message_id new) @ ks"] exI[of _ "rev ?ms @ old"]) auto
  then show ?thesis using db1(3) after session(3) chain_messages_ids[of tip new] by simp
qed

theorem append_extends_history_witness:
  "\<exists>out db'. append_messages sample_db sample_db [] 5 ''s'' None
       [\<lparr>new_message_id = ''m'', new_content = AssistantItems [], new_status = MessageComplete,
         new_agent_profile_id = None, new_generation = None\<rparr>] None None = (Inr out, db')
     \<and> read_history_chain db' ''m'' 1 = Inr (appended_list out)"
proof -
  let ?new = "\<lparr>new_message_id = ''m'', new_content = AssistantItems [], new_status = MessageComplete,
         new_agent_profile_id = None, new_generation = None\<rparr>"
  obtain db1 where link: "append_link sample_db [] (advance_session (sample_meta ''s'') (chain_messages None [?new]) None 5) None
      (chain_messages None [?new]) None = (Inr True, db1)"
    using sample_link[of "advance_session (sample_meta ''s'') (chain_messages None [?new]) None 5"
        "hd (chain_messages None [?new])"] by (auto simp: sample_meta_def)
  have "read_session sample_db ''s'' = Some (sample_meta ''s'')"
    by (simp add: read_session_def sample_db_def sample_meta_def)
  then obtain out where out: "append_messages sample_db sample_db [] 5 ''s'' None [?new] None None = (Inr out, db1)"
    using link by (auto simp: append_messages_iff sample_meta_def)
  from append_extends_history[OF sample_db_wf out, of "[]" 0]
  have "read_history_chain db1 ''m'' 1 = Inr (rev (appended_list out))" "map message_id (appended_list out) = [''m'']"
    by simp_all
  then show ?thesis using out by (auto simp: map_eq_Cons_conv)
qed

text \<open>C8. Delivering a message twice delivers it once: after an idempotent append returned, appending
  the same request under the same id again, at any time and by any runtime, returns the same
  message, reports that nothing was linked and leaves the store unchanged.\<close>

theorem idempotent_append_once:
  assumes "db_wf db" "append_idempotent_message n db db leases now k request = Some (Inr out, db1)"
  shows "append_idempotent_message n db1 db1 leases' now' k request
    = Some (Inr \<lparr>outcome_message = outcome_message out, linked_now = False\<rparr>, db1)"
proof -
  let ?s = "req_session_id request"
  have again: ?thesis
    if "read_message db1 k = Inr (Some (outcome_message out))"
      "validate_idempotent_message (outcome_message out) request = Inr ()"
      "\<exists>m. read_session db1 ?s = Some m \<and> tip_id m = Some k"
    using that by (auto simp: append_idempotent_message_def session_get_def)
  from assms(2) show ?thesis
  proof (cases rule: append_idempotent_cases)
    case (fresh session)
    show ?thesis
    proof (rule again)
      show "read_message db1 k = Inr (Some (outcome_message out))"
        using append_one(1)[OF fresh(4), of k] fresh(3) by (simp add: requested_message_def)
      show "validate_idempotent_message (outcome_message out) request = Inr ()"
        using fresh(3) by (simp add: validate_idempotent_message_def requested_message_def)
      show "\<exists>m. read_session db1 ?s = Some m \<and> tip_id m = Some k"
        using append_one(2)[OF fresh(4)] read_session_id(1)[OF assms(1) fresh(2)] by (simp add: requested_message_def)
    qed
  next
    case (there session)
    then have "out = \<lparr>outcome_message = outcome_message out, linked_now = False\<rparr>" by simp
    then show ?thesis
      using there by (auto simp: append_idempotent_message_def session_get_def)
  next
    case (linked session)
    let ?new = "session\<lparr>tip_id := Some k, updated_at := now\<rparr>"
    show ?thesis
    proof (rule again)
      show "read_message db1 k = Inr (Some (outcome_message out))"
        using linked(1) read_message_cong[of "save_session db ?new" db k] by (simp add: linked(4) read_message_adopted)
      show "validate_idempotent_message (outcome_message out) request = Inr ()" using linked(2) .
      have "read_session db1 ?s = read_session (save_session db ?new) (meta_id ?new)"
        unfolding linked(4) using read_session_id(1)[OF assms(1) linked(3)] by (simp add: read_session_def)
      then show "\<exists>m. read_session db1 ?s = Some m \<and> tip_id m = Some k" unfolding read_saved_session by simp
    qed
  qed
qed

theorem idempotent_append_once_witness:
  "\<exists>out db1. append_idempotent_message 1 sample_db sample_db [] 5 ''m'' sample_request = Some (Inr out, db1)
     \<and> append_idempotent_message 1 db1 db1 [] 9 ''m'' sample_request
         = Some (Inr \<lparr>outcome_message = outcome_message out, linked_now = False\<rparr>, db1)"
proof -
  have "read_message sample_db ''m'' = Inr None"
    by (simp add: read_message_def read_record_def sample_db_def empty_database_def)
  then obtain out db1 where "append_idempotent_message 1 sample_db sample_db [] 5 ''m'' sample_request = Some (Inr out, db1)"
    using sample_append by (auto simp: append_idempotent_message_def)
  then show ?thesis using idempotent_append_once[OF sample_db_wf] by blast
qed

text \<open>C28. An idempotent append always returns, also on a corrupt history with missing messages or
  cycles: reading as many pages as there are stored messages, and one, settles whether the
  message is already part of the conversation.\<close>

theorem idempotent_append_returns:
  assumes "length (message_ids seen) < n"
  shows "\<exists>r. append_idempotent_message n seen db leases now k request = Some r"
proof -
  have "card (set (message_ids seen)) < n" using assms card_length[of "message_ids seen"] by linarith
  then show ?thesis by (rule append_idempotent_ends)
qed

theorem idempotent_append_returns_witness:
  "length (message_ids sample_db) < 1
   \<and> (\<exists>r. append_idempotent_message 1 sample_db sample_db [] 5 ''m'' sample_request = Some r)"
proof -
  have "length (message_ids sample_db) < 1" by (simp add: message_ids_def sample_db_def empty_database_def)
  then show ?thesis using idempotent_append_returns by blast
qed

text \<open>C9. Rolling back an append undoes it: after a new message was appended, restoring succeeds,
  the session has the tip and the title it had, and every message of the store reads as it did
  before the append, so the abandoned one is gone.\<close>

theorem rollback_undoes_append:
  assumes "db_wf db" "append_new_message db db leases now k request = (Inr a, db1)"
    and "read_message db k = Inr None" "\<And>t. \<not> in_history db t k"
  shows "\<exists>db2 before after.
    restore_appended_message db1 db1 leases now' (req_session_id request) a = (Inr (), db2)
    \<and> read_session db (req_session_id request) = Some before
    \<and> read_session db2 (req_session_id request) = Some after
    \<and> tip_id after = tip_id before \<and> title after = title before
    \<and> read_message db2 j = read_message db j"
proof -
  let ?s = "req_session_id request"
  obtain session m adv where session: "read_session db ?s = Some session"
    and m: "m = requested_message k (tip_id session) request"
    and adv: "adv = advance_session session [m] (title_if_first_message request) now"
    and a: "a = \<lparr>appended_one = m, one_previous_tip = tip_id session, one_previous_title = title session\<rparr>"
    and link: "append_link db leases adv (tip_id session) [m] None = (Inr True, db1)"
    using assms(2) by (auto simp: append_new_message_iff)
  have ids: "meta_id adv = ?s" "valid_id ?s" "message_id m = k" "tip_id adv = Some k"
    using read_session_id[OF assms(1) session] by (simp_all add: adv m requested_message_def)
  note one = append_one[OF link] and linked = linked_one_state[OF assms(1) link]
  let ?new = "adv\<lparr>meta_revision := meta_revision adv + 1, tip_id := tip_id session, title := title session, updated_at := now'\<rparr>"
  define db2 where "db2 = adopt_tip (save_session db1 ?new) ?new"
  have now1: "read_session db1 ?s = Some (adv\<lparr>meta_revision := meta_revision adv + 1\<rparr>)" using one(2) ids(1) by simp
  have wf1: "db_wf db1" and "valid_id (meta_id ?new)" "read_session db1 (meta_id ?new) \<noteq> None"
    using linked(1) ids now1 by simp_all
  note saved = saved_state[OF this db2_def]
  have owned: "assert_owner db2 leases ?s = Inr ()" "assert_owner db1 leases ?s = Inr ()"
    using one(3) ids saved(2) linked(2) by (simp_all add: assert_owner_iff)
  have restored: "save_if_tip_matches db1 leases ?new (Some k) = Inr (True, db2)"
    unfolding save_if_tip_matches_def session_update_iff
    using owned(2) now1 ids(1,4) by (simp add: assert_session_revision_def db2_def)
  have tip: "map_option row_tip (bt_get (sessions db) ?s) = Some (tip_id session)"
    using read_session_tip[OF assms(1) session] .
  then have tip_k: "tip_id session \<noteq> Some k" using assms(4)[of ?s] by (auto simp: in_history_def)
  have unref: "\<not> in_history db2 t k" for t
  proof -
    have "map_option row_tip (bt_get (sessions db2) u) = map_option row_tip (bt_get (sessions db) u)" for u
      using saved(5)[of u] linked(4)[of u] tip ids by (cases "u = ?s") auto
    moreover have "parent_of db2 i = parent_of db i" if "i \<noteq> k" for i using saved(3) linked(3) that ids by simp
    ultimately show ?thesis using no_new_references[of k db2 db t] assms(4) by blast
  qed
  have own: "assert_owner db2 leases u = Inr ()"
    if "Option.bind (bt_get (records db2) (''message'', k)) record_session_id = Some u" for u
  proof -
    have "bt_get (records db) (''message'', k) = None"
      using assms(3) by (auto simp: read_message_def read_record_def result_simps split: option.splits if_splits)
    then show ?thesis using that owned(1) linked(5) saved(6)[of k] tip_k ids by simp
  qed
  note gone = delete_owned_message[OF saved(1) unref own]
  have "restore_appended_message db1 db1 leases now' ?s a = (Inr (), delete_unreferenced_message leases db2 k)"
    using now1 ids restored by (simp add: restore_appended_message_def restore_message_def session_get_def a transaction_def)
  moreover have "read_session (delete_unreferenced_message leases db2 k) ?s = Some (?new\<lparr>meta_revision := meta_revision adv + 2\<rparr>)"
  proof -
    have "read_session (delete_unreferenced_message leases db2 k) ?s = read_session (save_session db1 ?new) (meta_id ?new)"
      using gone(2) ids(1) by (simp add: read_session_def) (simp add: db2_def)
    then show ?thesis unfolding read_saved_session using now1 ids(1) by simp
  qed
  moreover have "read_message (delete_unreferenced_message leases db2 k) j = read_message db j"
    using gone(1)[of j] saved(4)[of j] one(1)[of j] ids(3) assms(3) by auto
  ultimately show ?thesis using session by auto
qed

theorem rollback_undoes_append_witness:
  "\<exists>a db1 db2. append_new_message sample_db sample_db [] 5 ''m'' sample_request = (Inr a, db1)
     \<and> restore_appended_message db1 db1 [] 6 ''s'' a = (Inr (), db2) \<and> read_message db2 ''m'' = Inr None"
proof -
  obtain a db1 where a: "append_new_message sample_db sample_db [] 5 ''m'' sample_request = (Inr a, db1)"
    using sample_append by blast
  have none: "read_message sample_db ''m'' = Inr None"
    by (simp add: read_message_def read_record_def sample_db_def empty_database_def)
  have "\<not> in_history sample_db t ''m''" for t
    by (simp add: in_history_def sample_db_def)
  from rollback_undoes_append[OF sample_db_wf a none this, of 6 "''m''"] show ?thesis
    using a none by (auto simp: sample_request_def)
qed

end
