(* ===== verification/Streaming.thy ===== *)
theory Streaming
  imports Turns Context_Store
begin

text \<open>
  The agent's side of a streaming reply (crates/kraai-agent, manager/streaming.rs, manager/usage.rs
  and the streaming state of manager/mod.rs): while a reply streams, its message lives in memory and
  every change is also queued as a delta; from time to time the queued deltas are published to the
  store, and in the end the message is saved whole, rolled back or cancelled. Other changes to the
  same message may happen while a publication is under way. Notifying observers of the history is
  not modelled.
\<close>

section \<open>State\<close>

record streaming_state =
  ss_session_id :: string
  ss_previous_tip :: "string option"
  ss_previous_title :: "string option"
  ss_message :: message
  cancellation_result_id :: "string option"
  text_item_ids :: "string \<rightharpoonup> nat"
  pending_deltas :: "stream_delta list"
  first_pending_sequence :: nat
  sealed_deltas :: nat
  request_started_at :: nat
  ss_unpriced_attempts :: nat
  reissued_attempts :: nat
  ss_subscription :: bool

type_synonym streams = "(string, streaming_state) btree"

datatype streamed_item = StartedItem nat assistant_item | ItemDelta nat string

section \<open>Changes in memory\<close>

text \<open>A delta is merged into the last one, unless that one is part of a publication.\<close>

definition queue_delta :: "streaming_state \<Rightarrow> stream_delta \<Rightarrow> streaming_state" where
  "queue_delta st d =
     (if pending_deltas st \<noteq> [] \<and> sealed_deltas st < length (pending_deltas st)
      then (case delta_coalesce (last (pending_deltas st)) d of (merged, unmerged) \<Rightarrow>
              st\<lparr>pending_deltas := butlast (pending_deltas st) @ [merged]
                   @ (case unmerged of None \<Rightarrow> [] | Some d' \<Rightarrow> [d'])\<rparr>)
      else st\<lparr>pending_deltas := pending_deltas st @ [d]\<rparr>)"

definition record_delta :: "streaming_state \<Rightarrow> stream_delta \<Rightarrow> (store_error, streaming_state) result" where
  "record_delta st d = bindR (delta_apply d (ss_message st)) (\<lambda>m. Inr (queue_delta (st\<lparr>ss_message := m\<rparr>) d))"

definition append_text_chunk ::
  "streaming_state \<Rightarrow> string \<Rightarrow> assistant_phase \<Rightarrow> string \<Rightarrow> streamed_item option \<times> streaming_state" where
  "append_text_chunk st item_id phase chunk = (case message_content (ss_message st) of
     AssistantItems items \<Rightarrow>
       (let (index, started, st) = (case text_item_ids st item_id of
              Some index \<Rightarrow> (index, False, st)
            | None \<Rightarrow> (length items, True, st\<lparr>text_item_ids := (text_item_ids st)(item_id \<mapsto> length items)\<rparr>))
        in case record_delta st (DeltaText index phase chunk) of
             Inl _ \<Rightarrow> (None, st)
           | Inr st' \<Rightarrow>
               (Some (if started then StartedItem index (AssistantText phase chunk) else ItemDelta index chunk), st'))
   | _ \<Rightarrow> (None, st))"

definition append_item ::
  "streaming_state \<Rightarrow> assistant_item \<Rightarrow> (assistant_item list \<Rightarrow> bool) \<Rightarrow> streamed_item option \<times> streaming_state" where
  "append_item st item allowed = (case assistant_items (message_content (ss_message st)) of
     None \<Rightarrow> (None, st)
   | Some items \<Rightarrow>
       if \<not> allowed items then (None, st)
       else (case record_delta st (DeltaItem item) of
               Inl _ \<Rightarrow> (None, st)
             | Inr st' \<Rightarrow> (Some (StartedItem (length items) item), st')))"

definition append_reasoning :: "streaming_state \<Rightarrow> string \<Rightarrow> json \<Rightarrow> streamed_item option \<times> streaming_state" where
  "append_reasoning st provider payload = append_item st (Reasoning provider payload) (\<lambda>_. True)"

fun is_call :: "string \<Rightarrow> assistant_item \<Rightarrow> bool" where
  "is_call ident (ScriptCallItem call) = (call_id call = ident)"
| "is_call ident _ = False"

definition append_script_call :: "streaming_state \<Rightarrow> script_call \<Rightarrow> streamed_item option \<times> streaming_state" where
  "append_script_call st call =
     append_item st (ScriptCallItem call) (\<lambda>items. \<not> list_ex (is_call (call_id call)) items)"

section \<open>Usage\<close>

definition request_usage_of :: "streaming_state \<Rightarrow> token_usage option \<Rightarrow> request_usage option" where
  "request_usage_of st usage = map_option (\<lambda>g.
     \<lparr>usage_message_id = message_id (ss_message st), usage_provider_id = generation_provider_id g,
      usage_model_id = generation_model_id g, started_at = request_started_at st,
      subscription = ss_subscription st, unpriced_attempts = ss_unpriced_attempts st,
      request_tokens = usage\<rparr>) (generation (ss_message st))"

definition save_usage_of ::
  "database \<Rightarrow> lease_tokens \<Rightarrow> streaming_state \<Rightarrow> request_usage option \<Rightarrow> (store_error, database) result" where
  "save_usage_of db leases st request = (case request of
     None \<Rightarrow> Inr db | Some r \<Rightarrow> usage_save db leases (ss_session_id st) r)"

definition sat32_add :: "nat \<Rightarrow> nat \<Rightarrow> nat" where
  "sat32_add a b = min u32_max (a + b)"

definition record_request_started ::
  "database \<Rightarrow> lease_tokens \<Rightarrow> streams \<Rightarrow> string \<Rightarrow> (store_error, request_usage option \<times> database) result" where
  "record_request_started db leases streams k =
     bindR (ok_or (bt_get streams k) (Report ''Missing streaming message'')) (\<lambda>st.
     let request = request_usage_of st None
     in bindR (save_usage_of db leases st request) (\<lambda>db. Inr (request, db)))"

definition record_request_attempt ::
  "database \<Rightarrow> lease_tokens \<Rightarrow> streams \<Rightarrow> string \<Rightarrow> nat
     \<Rightarrow> (store_error, request_usage option \<times> streams \<times> database) result" where
  "record_request_attempt db leases streams k attempts =
     bindR (ok_or (bt_get streams k) (Report ''Missing streaming message'')) (\<lambda>st.
     let n = sat32_add (reissued_attempts st) attempts;
         request = map_option (\<lambda>r. r\<lparr>unpriced_attempts := n\<rparr>) (request_usage_of st None)
     in bindR (save_usage_of db leases st request) (\<lambda>db.
        Inr (request,
             if request = None then streams else bt_update k (\<lambda>st. st\<lparr>ss_unpriced_attempts := n\<rparr>) streams, db)))"

text \<open>The message as it is after its partial reply has been discarded; the failed attempt counts.\<close>

definition reset_state :: "streaming_state \<Rightarrow> (store_error, streaming_state) result" where
  "reset_state st = bindR (record_delta st DeltaReset) (\<lambda>st.
     let n = sat32_add (ss_unpriced_attempts st) 1
     in Inr (st\<lparr>text_item_ids := Map.empty, reissued_attempts := n, ss_unpriced_attempts := n\<rparr>))"

text \<open>The reset stays when saving the usage fails.\<close>

definition reset_streaming_message ::
  "database \<Rightarrow> lease_tokens \<Rightarrow> streams \<Rightarrow> string
     \<Rightarrow> (store_error, request_usage option option) result \<times> streams \<times> database" where
  "reset_streaming_message db leases streams k = (case bt_get streams k of
     None \<Rightarrow> (Inr None, streams, db)
   | Some st \<Rightarrow>
       (case reset_state st of
          Inl e \<Rightarrow> (Inl e, streams, db)
        | Inr st' \<Rightarrow>
            (let streams' = bt_update k (\<lambda>_. st') streams; request = request_usage_of st' None
             in case save_usage_of db leases st' request of
                  Inl e \<Rightarrow> (Inl e, streams', db)
                | Inr db' \<Rightarrow> (Inr (Some request), streams', db'))))"

definition usage_state :: "streaming_state \<Rightarrow> token_usage \<Rightarrow> (store_error, streaming_state) result" where
  "usage_state st usage =
     (if generation (ss_message st) \<noteq> None then record_delta st (DeltaUsage usage) else Inr st)"

definition set_streaming_message_usage ::
  "database \<Rightarrow> lease_tokens \<Rightarrow> streams \<Rightarrow> string \<Rightarrow> token_usage
     \<Rightarrow> (store_error, request_usage option) result \<times> streams \<times> database" where
  "set_streaming_message_usage db leases streams k usage = (case bt_get streams k of
     None \<Rightarrow> (Inr None, streams, db)
   | Some st \<Rightarrow>
       (case request_usage_of st (Some usage) of
          None \<Rightarrow> (Inr None, streams, db)
        | Some request \<Rightarrow>
            (case usage_save db leases (ss_session_id st) request of
               Inl e \<Rightarrow> (Inl e, streams, db)
             | Inr db' \<Rightarrow>
                 (case usage_state st usage of
                    Inl e \<Rightarrow> (Inl e, streams, db')
                  | Inr st' \<Rightarrow> (Inr (Some request), bt_update k (\<lambda>_. st') streams, db')))))"

section \<open>Publishing\<close>

definition seal :: "streaming_state \<Rightarrow> streaming_state" where
  "seal st = (if pending_deltas st \<noteq> [] then st\<lparr>sealed_deltas := length (pending_deltas st)\<rparr> else st)"

definition batches_of :: "streams \<Rightarrow> (string \<times> nat \<times> stream_delta list) list" where
  "batches_of streams =
     map (\<lambda>(_, st). (message_id (ss_message st), first_pending_sequence st, pending_deltas st))
       (filter (\<lambda>(_, st). pending_deltas st \<noteq> []) streams)"

definition drain :: "nat \<Rightarrow> streaming_state \<Rightarrow> streaming_state" where
  "drain n st =
     st\<lparr>pending_deltas := drop n (pending_deltas st), first_pending_sequence := first_pending_sequence st + n,
        sealed_deltas := 0\<rparr>"

fun publish_batches ::
  "lease_tokens \<Rightarrow> (string \<times> nat \<times> stream_delta list) list \<Rightarrow> streams \<Rightarrow> database
     \<Rightarrow> (store_error, unit) result \<times> streams \<times> database" where
  "publish_batches leases [] streams db = (Inr (), streams, db)"
| "publish_batches leases ((k, first, ds) # rest) streams db =
     (case append_stream_deltas db leases k first ds of
        Inl e \<Rightarrow> (Inl e, streams, db)
      | Inr db' \<Rightarrow> publish_batches leases rest (bt_update k (drain (length ds)) streams) db')"

definition publish_streaming_snapshots ::
  "database \<Rightarrow> lease_tokens \<Rightarrow> streams \<Rightarrow> (store_error, unit) result \<times> streams \<times> database" where
  "publish_streaming_snapshots db leases streams =
     publish_batches leases (batches_of streams) (map (\<lambda>(k, st). (k, seal st)) streams) db"

section \<open>Starting and ending\<close>

record turn_input =
  turn_tip :: "string option"
  turn_users :: "new_message list"
  turn_title :: "string option"
  turn_consumed :: "int option"

definition session_has_active_stream :: "streams \<Rightarrow> string \<Rightarrow> bool" where
  "session_has_active_stream streams s = list_ex (\<lambda>(_, st). ss_session_id st = s) streams"

definition discard_streaming_state :: "streams \<Rightarrow> string \<Rightarrow> streams" where
  "discard_streaming_state streams s = bt_retain (\<lambda>_ st. ss_session_id st \<noteq> s) streams"

text \<open>\<open>fresh\<close> is the new message's id and \<open>started\<close> the clock in milliseconds.\<close>

definition start_streaming_message ::
  "database \<Rightarrow> database \<Rightarrow> lease_tokens \<Rightarrow> nat \<Rightarrow> streams \<Rightarrow> string \<Rightarrow> turn_input \<Rightarrow> string \<Rightarrow> string
     \<Rightarrow> string option \<Rightarrow> message_generation option \<Rightarrow> (string \<Rightarrow> bool) \<Rightarrow> nat
     \<Rightarrow> (store_error, string) result \<times> streams \<times> database" where
  "start_streaming_message seen db leases now streams s input fresh stream_id profile gen is_subscription started =
     (if session_get seen s = None then (Inl (Domain (not_found (''Session not found: '' @ s))), streams, db)
      else if session_has_active_stream streams s
      then (Inl (Domain (conflict (''Session already has an active stream: '' @ s))), streams, db)
      else
        (let users = turn_users input;
             stream_tip = (if users = [] then turn_tip input else Some (new_message_id (last users)));
             new = users @ [\<lparr>new_message_id = fresh, new_content = AssistantItems [], new_status = Streaming stream_id,
                            new_agent_profile_id = profile, new_generation = gen\<rparr>]
         in case append_messages seen db leases now s (turn_tip input) new (turn_title input) (turn_consumed input) of
              (Inl e, db) \<Rightarrow> (Inl e, streams, db)
            | (Inr appended, db) \<Rightarrow>
                (if appended_list appended = []
                 then (Inl (Report ''Starting a stream linked no assistant message''), streams, db)
                 else (let m = last (appended_list appended) in
                  (Inr (message_id m), bt_insert (message_id m)
                     \<lparr>ss_session_id = s, ss_previous_tip = stream_tip,
                      ss_previous_title = (if users \<noteq> [] then appended_title appended else previous_title appended),
                      ss_message = m, cancellation_result_id = None, text_item_ids = Map.empty,
                      pending_deltas = [], first_pending_sequence = 0, sealed_deltas = 0,
                      request_started_at = started, ss_unpriced_attempts = 0, reissued_attempts = 0,
                      ss_subscription = (case gen of None \<Rightarrow> False | Some g \<Rightarrow> is_subscription (generation_provider_id g))\<rparr>
                     streams, db)))))"

text \<open>A failing save leaves the stream active, as it was.\<close>

definition complete_message ::
  "database \<Rightarrow> lease_tokens \<Rightarrow> streams \<Rightarrow> string \<Rightarrow> (store_error, string option) result \<times> streams \<times> database" where
  "complete_message db leases streams k = (case bt_get streams k of
     None \<Rightarrow> (Inr None, streams, db)
   | Some st \<Rightarrow>
       (case message_save db leases ((ss_message st)\<lparr>message_status := MessageComplete\<rparr>) of
          Inl e \<Rightarrow> (Inl e, streams, db)
        | Inr db' \<Rightarrow> (Inr (Some (ss_session_id st)), bt_remove k streams, db')))"

definition abort_streaming_message ::
  "database \<Rightarrow> database \<Rightarrow> lease_tokens \<Rightarrow> nat \<Rightarrow> streams \<Rightarrow> string
     \<Rightarrow> (store_error, string option) result \<times> streams \<times> database" where
  "abort_streaming_message seen db leases now streams k = (case bt_get streams k of
     None \<Rightarrow> (Inr None, streams, db)
   | Some st \<Rightarrow>
       (case restore_message seen db leases now (ss_session_id st) k (ss_previous_tip st) (ss_previous_title st) of
          (Inl e, db') \<Rightarrow> (Inl e, streams, db')
        | (Inr _, db') \<Rightarrow> (Inr (Some (ss_session_id st)), bt_remove k streams, db')))"

section \<open>Memory and store agree\<close>

lemma apply_deltas_append: "apply_deltas (ds @ es) m = bindR (apply_deltas ds m) (\<lambda>m'. apply_deltas es m')"
  unfolding apply_deltas_def by (rule foldR_append)

lemma apply_deltas_single: "apply_deltas [d] m = delta_apply d m"
  by (cases "delta_apply d m") (simp_all add: apply_deltas_def)

lemma coalesce_applies:
  assumes "delta_coalesce d n = (merged, unmerged)"
  shows "apply_deltas ([merged] @ (case unmerged of None \<Rightarrow> [] | Some d' \<Rightarrow> [d'])) m = apply_deltas [d, n] m"
proof (cases unmerged)
  case None
  have two: "apply_deltas [d, n] m = bindR (delta_apply d m) (delta_apply n)"
    using apply_deltas_append[of "[d]" "[n]" m] by (simp add: apply_deltas_single cong: bindR_cong)
  show ?thesis
    using delta_coalesce_sound[of d n merged m] assms None unfolding two by (simp add: apply_deltas_single)
next
  case (Some d')
  then have "merged = d" "d' = n"
    using assms by (cases "(d, n)" rule: delta_coalesce.cases; auto split: if_splits)+
  then show ?thesis using Some by simp
qed

lemma queue_delta_applies:
  "apply_deltas (pending_deltas (queue_delta st d)) m = apply_deltas (pending_deltas st @ [d]) m"
proof (cases "pending_deltas st \<noteq> [] \<and> sealed_deltas st < length (pending_deltas st)")
  case True
  then obtain ps p where ps: "pending_deltas st = ps @ [p]" by (metis rev_exhaust)
  obtain merged unmerged where c: "delta_coalesce p d = (merged, unmerged)" by (metis surj_pair)
  have "apply_deltas (ps @ [merged] @ (case unmerged of None \<Rightarrow> [] | Some d' \<Rightarrow> [d'])) m = apply_deltas (ps @ [p, d]) m"
    unfolding apply_deltas_append[of ps] using coalesce_applies[OF c] by (simp add: fun_eq_iff cong: bindR_cong)
  then show ?thesis using True ps c by (simp add: queue_delta_def)
next
  case False
  then show ?thesis by (auto simp: queue_delta_def)
qed

lemma queue_delta_sealed:
  "sealed_deltas st \<le> length (pending_deltas st) \<Longrightarrow>
    take (sealed_deltas st) (pending_deltas (queue_delta st d)) = take (sealed_deltas st) (pending_deltas st)
    \<and> sealed_deltas st \<le> length (pending_deltas (queue_delta st d))"
  by (auto simp: queue_delta_def take_butlast split: prod.split option.split)

lemma queue_delta_keeps [simp]:
  "ss_message (queue_delta st d) = ss_message st" "sealed_deltas (queue_delta st d) = sealed_deltas st"
  "first_pending_sequence (queue_delta st d) = first_pending_sequence st"
  "text_item_ids (queue_delta st d) = text_item_ids st"
  by (auto simp: queue_delta_def split: prod.split)

text \<open>
  What is known of a streaming message at any moment: the row of the store is the message as it was
  linked; beside it are the deltas published so far, perhaps with some of those a publication has
  sealed; and all deltas together make the message in memory.
\<close>

definition stream_inv :: "string \<Rightarrow> message \<Rightarrow> database \<Rightarrow> streaming_state \<Rightarrow> bool" where
  "stream_inv k m0 db st =
     (db_wf db \<and> read_record as_message db ''message'' k = Inr (Some m0) \<and> is_streaming (message_status m0)
      \<and> sealed_deltas st \<le> length (pending_deltas st)
      \<and> (\<exists>old p. p \<le> sealed_deltas st \<and> length old = first_pending_sequence st
           \<and> numbered db k (old @ take p (pending_deltas st))
           \<and> apply_deltas (old @ pending_deltas st) m0 = Inr (ss_message st)))"

lemma stream_inv_record:
  assumes "stream_inv k m0 db st" "record_delta st d = Inr st'"
  shows "stream_inv k m0 db st'"
proof -
  obtain m where m: "delta_apply d (ss_message st) = Inr m" "st' = queue_delta (st\<lparr>ss_message := m\<rparr>) d"
    using assms(2) by (auto simp: record_delta_def result_simps)
  let ?s = "st\<lparr>ss_message := m\<rparr>"
  obtain old p where o: "p \<le> sealed_deltas st" "length old = first_pending_sequence st"
    "numbered db k (old @ take p (pending_deltas st))" "apply_deltas (old @ pending_deltas st) m0 = Inr (ss_message st)"
    using assms(1) unfolding stream_inv_def by blast
  have sealed: "sealed_deltas st \<le> length (pending_deltas st)" using assms(1) by (simp add: stream_inv_def)
  have q: "take (sealed_deltas st) (pending_deltas st') = take (sealed_deltas st) (pending_deltas st)"
    "sealed_deltas st \<le> length (pending_deltas st')"
    using queue_delta_sealed[of ?s d] sealed unfolding m(2) by simp_all
  have "take p (pending_deltas st') = take p (pending_deltas st)"
    using arg_cong[OF q(1), of "take p"] o(1) by (simp add: min_def)
  moreover have "apply_deltas (old @ pending_deltas st') m0 = Inr m"
  proof -
    have "apply_deltas (old @ pending_deltas st') m0 = apply_deltas ((old @ pending_deltas st) @ [d]) m0"
      unfolding m(2) append_assoc apply_deltas_append[of old]
      using queue_delta_applies[of ?s d] by (simp cong: bindR_cong)
    also have "\<dots> = Inr m" unfolding apply_deltas_append[of "old @ pending_deltas st"] o(4)
      using m(1) by (simp add: apply_deltas_single)
    finally show ?thesis .
  qed
  ultimately show ?thesis
    using assms(1) o(1-3) q(2) unfolding stream_inv_def by (intro conjI exI[of _ old] exI[of _ p]) (auto simp: m(2))
qed

lemma stream_inv_cong:
  assumes "ss_message st' = ss_message st" "pending_deltas st' = pending_deltas st"
    "sealed_deltas st' = sealed_deltas st" "first_pending_sequence st' = first_pending_sequence st"
  shows "stream_inv k m0 db st' = stream_inv k m0 db st"
  using assms by (simp add: stream_inv_def)

lemma stream_inv_text:
  assumes "stream_inv k m0 db st"
  shows "stream_inv k m0 db (snd (append_text_chunk st item_id phase chunk))"
proof (cases "message_content (ss_message st)")
  case (AssistantItems items)
  have new: "stream_inv k m0 db (st\<lparr>text_item_ids := ids\<rparr>)" for ids
    using assms stream_inv_cong[of "st\<lparr>text_item_ids := ids\<rparr>" st] by simp
  show ?thesis
    using AssistantItems assms new
    by (auto simp: append_text_chunk_def Let_def split: option.split sum.split
        dest: stream_inv_record[OF assms] stream_inv_record[OF new])
qed (use assms in \<open>simp_all add: append_text_chunk_def\<close>)

lemma stream_inv_item:
  "stream_inv k m0 db st \<Longrightarrow> stream_inv k m0 db (snd (append_item st item allowed))"
  by (auto simp: append_item_def dest: stream_inv_record split: option.split sum.split)

lemma stream_inv_reset:
  assumes "stream_inv k m0 db st" "reset_state st = Inr st'"
  shows "stream_inv k m0 db st'"
proof -
  obtain mid where m: "record_delta st DeltaReset = Inr mid"
    "st' = mid\<lparr>text_item_ids := Map.empty, reissued_attempts := sat32_add (ss_unpriced_attempts mid) 1,
               ss_unpriced_attempts := sat32_add (ss_unpriced_attempts mid) 1\<rparr>"
    using assms(2) by (auto simp: reset_state_def result_simps Let_def)
  show ?thesis
    using stream_inv_record[OF assms(1) m(1)] stream_inv_cong[of st' mid] m(2) by simp
qed

lemma stream_inv_usage:
  "stream_inv k m0 db st \<Longrightarrow> usage_state st usage = Inr st' \<Longrightarrow> stream_inv k m0 db st'"
  by (auto simp: usage_state_def dest: stream_inv_record split: if_splits)

lemma stream_inv_seal: "stream_inv k m0 db st \<Longrightarrow> stream_inv k m0 db (seal st)"
  unfolding stream_inv_def seal_def by (auto intro: order_trans)

text \<open>Publishing again deltas of which some are stored stores the others.\<close>

lemma numbered_resend:
  assumes "numbered db k (old @ pre)" "append_stream_deltas db leases k (length old) (pre @ post) = Inr db'"
  shows "numbered db' k (old @ pre @ post)"
proof -
  obtain table where t: "insert_deltas k (length old) (stream_deltas db) (pre @ post) = Inr table"
      "stream_deltas db' = table"
    using assms(2) unfolding append_deltas_iff by auto
  have "bt_get table (k, j) = (if 0 \<le> j \<and> j < int (length (old @ pre @ post)) then Some ((old @ pre @ post) ! nat j) else None)" for j
  proof (cases "j < int (length (old @ pre))")
    case True
    then have "bt_get (stream_deltas db) (k, j) = (if 0 \<le> j then Some ((old @ pre) ! nat j) else None)"
      using assms(1) by (auto simp: numbered_def)
    moreover have "(old @ pre) ! nat j = (old @ pre @ post) ! nat j" if "0 \<le> j"
    proof -
      have "nat j < length (old @ pre)" using True that by simp
      then show ?thesis unfolding append_assoc[symmetric] by (simp only: nth_append if_True)
    qed
    ultimately show ?thesis
      using True insert_deltas_get[OF t(1), of k j] by auto
  next
    case False
    then have "bt_get (stream_deltas db) (k, j) = None" "nat (j - int (length old)) = nat j - length old"
      using assms(1) by (auto simp: numbered_def)
    then show ?thesis
      using False insert_deltas_get[OF t(1), of k j] by (auto simp: nth_append)
  qed
  then show ?thesis using t(2) by (simp add: numbered_def)
qed

text \<open>What a publication under way has taken and whether the store has it already.\<close>

definition flight_inv :: "string \<Rightarrow> database \<Rightarrow> streaming_state \<Rightarrow> (nat \<times> stream_delta list \<times> bool) option \<Rightarrow> bool" where
  "flight_inv k db st fl = (case fl of
     None \<Rightarrow> True
   | Some (first, ds, written) \<Rightarrow>
       first = first_pending_sequence st \<and> sealed_deltas st = length ds
       \<and> take (length ds) (pending_deltas st) = ds
       \<and> (written \<longrightarrow> (\<exists>old. length old = first \<and> numbered db k (old @ ds))))"

lemma read_record_cong: "records db' = records db \<Longrightarrow> read_record f db' kind k = read_record f db kind k"
  by (simp add: read_record_def)

lemma stream_inv_write:
  assumes "stream_inv k m0 db st" "flight_inv k db st (Some (first, ds, False))"
    "append_stream_deltas db leases k first ds = Inr db'"
  shows "stream_inv k m0 db' st \<and> flight_inv k db' st (Some (first, ds, True))"
proof -
  obtain old p where o: "p \<le> sealed_deltas st" "length old = first_pending_sequence st"
    "numbered db k (old @ take p (pending_deltas st))" "apply_deltas (old @ pending_deltas st) m0 = Inr (ss_message st)"
    using assms(1) unfolding stream_inv_def by blast
  have f: "first = length old" "sealed_deltas st = length ds" "take (length ds) (pending_deltas st) = ds"
    using assms(2) o(2) by (auto simp: flight_inv_def)
  have "take p (pending_deltas st) = take p ds" using f(2,3) o(1) by (metis min.absorb1 take_take)
  then have "numbered db' k (old @ ds)"
    using numbered_resend[of db k old "take p ds" leases "drop p ds" db'] o(3) assms(3) f(1) by simp
  moreover have "read_record as_message db' ''message'' k = read_record as_message db ''message'' k" "db_wf db \<Longrightarrow> db_wf db'"
    using append_deltas_keeps[OF assms(3)] read_record_cong by blast+
  ultimately show ?thesis
    using assms(1,2) o(2,4) f unfolding stream_inv_def flight_inv_def
    by (auto intro!: exI[of _ old] exI[of _ "length ds"])
qed

lemma numbered_unique:
  assumes "numbered db k ds" "numbered db k es" "db_wf db"
  shows "ds = es"
  using delta_rows_numbered[OF assms(3,1)] delta_rows_numbered[OF assms(3,2)] by simp

lemma stream_inv_drain:
  assumes "stream_inv k m0 db st" "flight_inv k db st (Some (first, ds, True))"
  shows "stream_inv k m0 db (drain (length ds) st)"
proof -
  obtain old p where o: "p \<le> sealed_deltas st" "length old = first_pending_sequence st"
    "numbered db k (old @ take p (pending_deltas st))" "apply_deltas (old @ pending_deltas st) m0 = Inr (ss_message st)"
    and wf: "db_wf db"
    using assms(1) unfolding stream_inv_def by blast
  obtain old' where o': "length old' = length old" "numbered db k (old' @ ds)"
    using assms(2) o(2) by (auto simp: flight_inv_def)
  have "old' = old" using numbered_unique[OF o(3) o'(2) wf] o'(1) by (metis append_eq_append_conv)
  moreover have "pending_deltas st = ds @ drop (length ds) (pending_deltas st)"
    using assms(2) append_take_drop_id[of "length ds" "pending_deltas st"] by (simp add: flight_inv_def)
  ultimately have "apply_deltas ((old @ ds) @ drop (length ds) (pending_deltas st)) m0 = Inr (ss_message st)"
    "numbered db k (old @ ds)"
    using o(4) o'(2) by simp_all
  then show ?thesis
    using assms(1) o(2) unfolding stream_inv_def drain_def by (auto intro!: exI[of _ "old @ ds"])
qed

section \<open>Every interleaving\<close>

text \<open>
  One streaming message, the store and a publication that may be under way. The message changes at
  any moment; a publication seals what is pending, stores it and takes it off, and may fail or be
  dropped between any two of these; others may write to the store as long as they leave the row and
  the deltas of the message alone, which the ownership checks see to.
\<close>

inductive stream_step ::
  "string \<Rightarrow> database \<times> streaming_state \<times> (nat \<times> stream_delta list \<times> bool) option
     \<Rightarrow> database \<times> streaming_state \<times> (nat \<times> stream_delta list \<times> bool) option \<Rightarrow> bool" for k where
  step_text: "stream_step k (db, st, fl) (db, snd (append_text_chunk st item_id phase chunk), fl)"
| step_item: "stream_step k (db, st, fl) (db, snd (append_item st item allowed), fl)"
| step_reset: "reset_state st = Inr st' \<Longrightarrow> stream_step k (db, st, fl) (db, st', fl)"
| step_usage: "usage_state st usage = Inr st' \<Longrightarrow> stream_step k (db, st, fl) (db, st', fl)"
| step_seal: "pending_deltas st \<noteq> [] \<Longrightarrow>
    stream_step k (db, st, None) (db, seal st, Some (first_pending_sequence st, pending_deltas st, False))"
| step_store: "append_stream_deltas db leases k first ds = Inr db' \<Longrightarrow>
    stream_step k (db, st, Some (first, ds, False)) (db', st, Some (first, ds, True))"
| step_drain: "stream_step k (db, st, Some (first, ds, True)) (db, drain (length ds) st, None)"
| step_drop: "stream_step k (db, st, fl) (db, st, None)"
| step_others: "db_wf db' \<Longrightarrow> read_record as_message db' ''message'' k = read_record as_message db ''message'' k \<Longrightarrow>
    (\<And>j. bt_get (stream_deltas db') (k, j) = bt_get (stream_deltas db) (k, j)) \<Longrightarrow>
    stream_step k (db, st, fl) (db', st, fl)"

lemma record_flight:
  assumes "record_delta st d = Inr st'" "flight_inv k db st fl" "sealed_deltas st \<le> length (pending_deltas st)"
  shows "flight_inv k db st' fl"
proof -
  obtain m where m: "st' = queue_delta (st\<lparr>ss_message := m\<rparr>) d"
    using assms(1) by (auto simp: record_delta_def result_simps)
  show ?thesis
    using assms(2,3) queue_delta_sealed[of "st\<lparr>ss_message := m\<rparr>" d]
    by (auto simp: flight_inv_def m split: option.splits)
qed

lemma flight_cong:
  assumes "pending_deltas st' = pending_deltas st" "sealed_deltas st' = sealed_deltas st"
    "first_pending_sequence st' = first_pending_sequence st"
  shows "flight_inv k db st' fl = flight_inv k db st fl"
  using assms by (simp add: flight_inv_def split: option.split)

lemma flight_ids: "flight_inv k db (st\<lparr>text_item_ids := f\<rparr>) fl = flight_inv k db st fl"
  by (rule flight_cong) simp_all

lemma numbered_cong:
  "(\<And>j. bt_get (stream_deltas db') (k, j) = bt_get (stream_deltas db) (k, j)) \<Longrightarrow> numbered db' k ds = numbered db k ds"
  by (simp add: numbered_def)

lemma stream_step_inv:
  assumes "stream_step k w w'" "w = (db, st, fl)" "w' = (db', st', fl')"
    "stream_inv k m0 db st" "flight_inv k db st fl"
  shows "stream_inv k m0 db' st' \<and> flight_inv k db' st' fl'"
proof -
  have sealed: "sealed_deltas st \<le> length (pending_deltas st)" using assms(4) by (simp add: stream_inv_def)
  have rec: "record_delta st d = Inr mid \<Longrightarrow> flight_inv k db mid fl" for d mid
    using record_flight[OF _ assms(5) sealed] .
  have ids: "record_delta (st\<lparr>text_item_ids := f\<rparr>) d = Inr mid \<Longrightarrow> flight_inv k db mid fl" for f d mid
    using record_flight[of "st\<lparr>text_item_ids := f\<rparr>" d mid k db fl] assms(5) sealed by (simp add: flight_ids)
  show ?thesis
    using assms(1)
  proof (cases rule: stream_step.cases)
    case (step_text d s f item_id phase chunk)
    have "flight_inv k db (snd (append_text_chunk st item_id phase chunk)) fl"
      using assms(5) rec ids
      by (auto simp: append_text_chunk_def Let_def flight_ids split: conversation_item.split option.split sum.split)
    then show ?thesis using step_text assms(2-4) stream_inv_text by auto
  next
    case (step_item d s f item allowed)
    have "flight_inv k db (snd (append_item st item allowed)) fl"
      using assms(5) rec by (auto simp: append_item_def split: option.split sum.split)
    then show ?thesis using step_item assms(2-4) stream_inv_item by auto
  next
    case step_reset
    then obtain mid where m: "record_delta st DeltaReset = Inr mid"
      "st' = mid\<lparr>text_item_ids := Map.empty, reissued_attempts := sat32_add (ss_unpriced_attempts mid) 1,
               ss_unpriced_attempts := sat32_add (ss_unpriced_attempts mid) 1\<rparr>"
      using assms(2,3) by (auto simp: reset_state_def result_simps Let_def)
    have "flight_inv k db st' fl" using rec[OF m(1)] flight_cong[of st' mid] m(2) by simp
    then show ?thesis using step_reset assms(2-4) stream_inv_reset by auto
  next
    case (step_usage s usage s' d f)
    then have "flight_inv k db st' fl" using assms(2,3,5) rec by (auto simp: usage_state_def split: if_splits)
    then show ?thesis using step_usage assms(2-4) stream_inv_usage by auto
  next
    case step_seal
    then show ?thesis using assms(2-4) stream_inv_seal[OF assms(4)] by (auto simp: flight_inv_def seal_def)
  next
    case (step_store d leases first ds d' s)
    then show ?thesis using assms(2-5) stream_inv_write[of k m0 db st first ds leases db'] by auto
  next
    case step_drain
    then show ?thesis using assms(2-5) stream_inv_drain by (auto simp: flight_inv_def[of _ _ _ None])
  next
    case step_drop
    then show ?thesis using assms(2-4) by (auto simp: flight_inv_def)
  next
    case step_others
    then have "stream_inv k m0 db' st" "flight_inv k db' st fl"
      using assms(2-5) numbered_cong[of db' k db] unfolding stream_inv_def flight_inv_def
      by (auto split: option.splits)
    then show ?thesis using step_others assms(2,3) by auto
  qed
qed

lemma stream_steps_inv:
  assumes "(stream_step k)\<^sup>*\<^sup>* w w'" "w = (db, st, fl)" "w' = (db', st', fl')"
    "stream_inv k m0 db st" "flight_inv k db st fl"
  shows "stream_inv k m0 db' st' \<and> flight_inv k db' st' fl'"
  using assms
proof (induction arbitrary: db' st' fl' rule: rtranclp_induct)
  case (step y z)
  obtain d s f where y: "y = (d, s, f)" by (cases y)
  show ?case using stream_step_inv[OF step.hyps(2) y step.prems(2)] step.IH[OF step.prems(1) y step.prems(3,4)] by blast
qed simp

text \<open>A stream as it is right after its message was linked.\<close>

definition stream_started :: "string \<Rightarrow> database \<Rightarrow> streaming_state \<Rightarrow> bool" where
  "stream_started k db st =
     (db_wf db \<and> read_record as_message db ''message'' k = Inr (Some (ss_message st))
      \<and> is_streaming (message_status (ss_message st)) \<and> numbered db k []
      \<and> pending_deltas st = [] \<and> first_pending_sequence st = 0 \<and> sealed_deltas st = 0)"

lemma stream_started_inv: "stream_started k db st \<Longrightarrow> stream_inv k (ss_message st) db st"
  by (auto simp: stream_started_def stream_inv_def apply_deltas_def)

lemma stream_inv_read:
  assumes "stream_inv k m0 db st"
  shows "\<exists>stored left. read_message db k = Inr (Some stored) \<and> apply_deltas left stored = Inr (ss_message st)
    \<and> length left \<le> length (pending_deltas st)"
proof -
  obtain old p where o: "numbered db k (old @ take p (pending_deltas st))"
    "apply_deltas (old @ pending_deltas st) m0 = Inr (ss_message st)"
    using assms unfolding stream_inv_def by blast
  have "bindR (apply_deltas (old @ take p (pending_deltas st)) m0) (apply_deltas (drop p (pending_deltas st)))
      = Inr (ss_message st)"
    using o(2) apply_deltas_append[of "old @ take p (pending_deltas st)" "drop p (pending_deltas st)" m0]
    by simp
  then obtain stored where s: "apply_deltas (old @ take p (pending_deltas st)) m0 = Inr stored"
    "apply_deltas (drop p (pending_deltas st)) stored = Inr (ss_message st)"
    unfolding bindR_eq_Inr by blast
  have "read_message db k = Inr (Some stored)"
    using read_message_streaming[of db k _ m0] o(1) s(1) assms by (auto simp: stream_inv_def)
  then show ?thesis using s(2) by (intro exI[of _ stored] exI[of _ "drop p (pending_deltas st)"]) simp
qed

lemma written_row:
  assumes "write_message_record db leases ''message'' k assoc (MessageRecord m) = Inr db'"
  shows "read_record as_message db' ''message'' k = Inr (Some m) \<and> numbered db' k []"
proof -
  let ?d = "clear_stream_deltas (write_record db ''message'' k assoc (MessageRecord m)) k"
  obtain ss where db': "db' = foldl (\<lambda>db s'. if Some s' \<noteq> assoc then bump_revision db s' else db) ?d ss"
    using assms by (auto simp: write_message_record_iff)
  have keep: "records db' = records ?d" "stream_deltas db' = stream_deltas ?d" unfolding db' by (rule bumps_keep)+
  have "bt_get (stream_deltas ?d) (k, j) = None" for j
    by (auto simp: clear_stream_deltas_def bt_retain_def map_of_eq_None_iff)
  then have "numbered db' k []" by (simp add: numbered_def keep(2))
  moreover have "read_record as_message ?d ''message'' k = Inr (Some m)"
    by (simp add: read_record_def write_record_records)
  ultimately show ?thesis using read_record_cong[OF keep(1), of as_message "''message''" k] by simp
qed

section \<open>Starting a stream\<close>

lemma chain_messages_snoc:
  "\<exists>m. chain_messages tip (xs @ [n]) = chain_messages tip xs @ [m]
     \<and> message_status m = new_status n \<and> message_id m = new_message_id n \<and> message_content m = new_content n"
  by (induction xs arbitrary: tip) auto

lemma linked_last:
  assumes "db_wf db" "valid_id s" "foldR (link_step leases s) db (ms @ [m]) = Inr db'"
  shows "db_wf db'" "read_record as_message db' ''message'' (message_id m) = Inr (Some m)" "numbered db' (message_id m) []"
proof -
  show "db_wf db'"
    using assms(3,1) by (rule foldR_invariant) (auto simp: link_step_iff assms(2) intro: write_message_record_wf)
  obtain mid where "link_step leases s mid m = Inr db'"
    using assms(3) by (auto simp: foldR_append result_simps)
  then show "read_record as_message db' ''message'' (message_id m) = Inr (Some m)" "numbered db' (message_id m) []"
    using written_row[of mid leases "message_id m" "Some s" m db'] by (auto simp: link_step_iff)
qed

lemma finish_link_wf: "db_wf db \<Longrightarrow> valid_id (meta_id session) \<Longrightarrow> db_wf (finish_link db session through)"
  using save_session_wf[of db session]
  by (auto simp: finish_link_def consume_queued_messages_def db_wf_def bt_wf_retain split: option.split)

lemma append_messages_last:
  assumes "db_wf seen" "db_wf db" "append_messages seen db leases now s tip (xs @ [n]) first_title through = (Inr out, db')"
  shows "db_wf db'"
    "\<exists>m. appended_list out \<noteq> [] \<and> last (appended_list out) = m \<and> message_status m = new_status n \<and> message_id m = new_message_id n
       \<and> read_record as_message db' ''message'' (message_id m) = Inr (Some m) \<and> numbered db' (message_id m) []"
proof -
  obtain m where m: "chain_messages tip (xs @ [n]) = chain_messages tip xs @ [m]" "message_status m = new_status n"
      "message_id m = new_message_id n"
    using chain_messages_snoc by blast
  let ?ms = "chain_messages tip xs @ [m]"
  obtain session where session: "read_session seen s = Some session" "appended_list out = ?ms"
      "append_link db leases (advance_session session ?ms first_title now) tip ?ms through = (Inr True, db')"
    using assms(3) m(1) by (auto simp: append_messages_iff)
  have s: "meta_id session = s" "valid_id s" using read_session_id[OF assms(1) session(1)] by auto
  obtain db1 where db1: "foldR (link_step leases s) db ?ms = Inr db1"
      "db' = finish_link db1 (advance_session session ?ms first_title now) through"
    using session(3) s by (auto simp: append_link_iff save_linked_iff split: if_splits option.splits)
  note last = linked_last[OF assms(2) s(2) db1(1)]
  show "db_wf db'" unfolding db1(2) using last(1) s by (intro finish_link_wf) simp_all
  have "read_record as_message db' ''message'' (message_id m) = Inr (Some m)"
    using last(2) read_record_cong[of db' db1 as_message "''message''" "message_id m"] db1(2) by simp
  moreover have "numbered db' (message_id m) []" using last(3) db1(2) by (simp add: numbered_def)
  ultimately show "\<exists>m. appended_list out \<noteq> [] \<and> last (appended_list out) = m \<and> message_status m = new_status n \<and> message_id m = new_message_id n
       \<and> read_record as_message db' ''message'' (message_id m) = Inr (Some m) \<and> numbered db' (message_id m) []"
    using m session(2) by simp
qed

lemma start_stream_started:
  assumes "db_wf seen" "db_wf db"
    "start_streaming_message seen db leases now streams s input fresh stream_id profile gen is_subscription started
       = (Inr k, streams', db')"
  shows "\<exists>st. bt_get streams' k = Some st \<and> stream_started k db' st \<and> k = fresh \<and> ss_session_id st = s
    \<and> message_id (ss_message st) = k"
proof -
  let ?n = "\<lparr>new_message_id = fresh, new_content = AssistantItems [], new_status = Streaming stream_id,
               new_agent_profile_id = profile, new_generation = gen\<rparr>"
  obtain out where out: "append_messages seen db leases now s (turn_tip input) (turn_users input @ [?n])
      (turn_title input) (turn_consumed input) = (Inr out, db')"
    using assms(3) by (auto simp: start_streaming_message_def Let_def split: if_splits prod.splits sum.splits)
  note appended = append_messages_last[OF assms(1,2) out]
  show ?thesis
    using assms(3) out appended
    by (auto simp: start_streaming_message_def Let_def stream_started_def is_streaming.simps split: if_splits)
qed

section \<open>Properties\<close>

text \<open>C4. A streaming reply is never lost or mixed up: from the moment a stream has started, whatever
  chunks, items, resets and usage the provider sends, whenever publications seal, store, take off,
  fail or are dropped, and whatever other writers do to the store as long as they leave the row of the
  message and its deltas alone, the stored message can be read, and what memory has beyond it is at most
  as many deltas as still wait to be published.\<close>

theorem streamed_reply_recoverable:
  assumes "db_wf seen" "db_wf db"
    "start_streaming_message seen db leases now streams s input fresh stream_id profile gen is_subscription started
       = (Inr k, streams', db0)"
    "bt_get streams' k = Some st0"
    "(stream_step k)\<^sup>*\<^sup>* (db0, st0, None) (db', st, fl)"
  shows "\<exists>stored left. read_message db' k = Inr (Some stored)
    \<and> apply_deltas left stored = Inr (ss_message st) \<and> length left \<le> length (pending_deltas st)"
proof -
  have "stream_started k db0 st0" using start_stream_started[OF assms(1-3)] assms(4) by auto
  then have "stream_inv k (ss_message st0) db0 st0" by (rule stream_started_inv)
  moreover have "flight_inv k db0 st0 None" by (simp add: flight_inv_def)
  ultimately have "stream_inv k (ss_message st0) db' st"
    using stream_steps_inv[OF assms(5) refl refl] by blast
  then show ?thesis by (rule stream_inv_read)
qed

definition sample_input :: turn_input where
  "sample_input = \<lparr>turn_tip = None, turn_users = [], turn_title = None, turn_consumed = None\<rparr>"

lemma sample_start: "\<exists>streams' db0 st0. bt_get streams' ''m'' = Some st0
  \<and> start_streaming_message sample_db sample_db [] 5 [] ''s'' sample_input ''m'' ''st'' None None (\<lambda>_. False) 7
    = (Inr ''m'', streams', db0)"
proof -
  let ?m = "\<lparr>message_id = ''m'', parent_id = None, message_content = AssistantItems [],
    message_status = Streaming ''st'', agent_profile_id = None, generation = None\<rparr>"
  obtain db0 where link: "append_link sample_db [] (advance_session (sample_meta ''s'') [?m] None 5) None [?m] None = (Inr True, db0)"
    using sample_link[of "advance_session (sample_meta ''s'') [?m] None 5" ?m] by (auto simp: sample_meta_def)
  have "read_session sample_db ''s'' = Some (sample_meta ''s'')" by (simp add: read_session_def sample_db_def sample_meta_def)
  then show ?thesis
    using link by (auto simp: start_streaming_message_def append_messages_def session_get_def session_has_active_stream_def
        sample_input_def Let_def sample_meta_def)
qed

theorem streamed_reply_recoverable_witness:
  "\<exists>streams' db0 st0. start_streaming_message sample_db sample_db [] 5 [] ''s'' sample_input ''m'' ''st'' None None (\<lambda>_. False) 7
      = (Inr ''m'', streams', db0) \<and> bt_get streams' ''m'' = Some st0
    \<and> (\<exists>stored left. read_message db0 ''m'' = Inr (Some stored)
       \<and> apply_deltas left stored = Inr (ss_message (snd (append_text_chunk st0 ''i'' FinalAnswer ''hi'')))
       \<and> length left \<le> length (pending_deltas (snd (append_text_chunk st0 ''i'' FinalAnswer ''hi''))))"
proof -
  obtain streams' db0 st0 where start: "bt_get streams' ''m'' = Some st0"
    "start_streaming_message sample_db sample_db [] 5 [] ''s'' sample_input ''m'' ''st'' None None (\<lambda>_. False) 7
      = (Inr ''m'', streams', db0)"
    using sample_start by blast
  have "(stream_step ''m'')\<^sup>*\<^sup>* (db0, st0, None) (db0, snd (append_text_chunk st0 ''i'' FinalAnswer ''hi''), None)"
    by (rule r_into_rtranclp) (rule step_text)
  from streamed_reply_recoverable[OF sample_db_wf sample_db_wf start(2,1) this] start show ?thesis by blast
qed

text \<open>Completing a reply stores it whole: a completion that succeeds ends the stream, the message
  reads as it stands in memory, marked complete, and every other message reads as before; one that
  fails changes neither the store nor the stream.\<close>

theorem completed_reply_stored:
  assumes "bt_get streams k = Some st" "message_id (ss_message st) = k"
    "complete_message db leases streams k = (out, streams', db')"
  shows "case out of
      Inl _ \<Rightarrow> streams' = streams \<and> db' = db
    | Inr ended \<Rightarrow> ended = Some (ss_session_id st) \<and> bt_get streams' k = None
        \<and> read_message db' k = Inr (Some ((ss_message st)\<lparr>message_status := MessageComplete\<rparr>))
        \<and> (\<forall>j. j \<noteq> k \<longrightarrow> read_message db' j = read_message db j)"
proof (cases "message_save db leases ((ss_message st)\<lparr>message_status := MessageComplete\<rparr>)")
  case (Inl e)
  then show ?thesis using assms(1,3) by (auto simp: complete_message_def)
next
  case (Inr d)
  then obtain assoc where "write_message_record db leases ''message'' k assoc
      (MessageRecord ((ss_message st)\<lparr>message_status := MessageComplete\<rparr>)) = Inr d"
    using assms(2) by (auto simp: message_save_def result_simps Let_def)
  from read_message_written[OF this] show ?thesis
    using Inr assms(1,3) by (auto simp: complete_message_def)
qed

definition sample_streams :: streams where
  "sample_streams = [(''m'', \<lparr>ss_session_id = ''s'', ss_previous_tip = None, ss_previous_title = None,
     ss_message = sample_stream\<lparr>message_content := AssistantItems [AssistantText FinalAnswer ''hi'']\<rparr>,
     cancellation_result_id = None, text_item_ids = [''i'' \<mapsto> 0], pending_deltas = [DeltaText 0 FinalAnswer ''hi''],
     first_pending_sequence = 0, sealed_deltas = 0, request_started_at = 7, ss_unpriced_attempts = 0,
     reissued_attempts = 0, ss_subscription = False\<rparr>)]"

theorem completed_reply_stored_witness:
  "\<exists>streams' db'. complete_message stream_db [] sample_streams ''m'' = (Inr (Some ''s''), streams', db')
    \<and> bt_get streams' ''m'' = None"
proof -
  have w: "\<exists>ended streams' db'. complete_message stream_db [] sample_streams ''m'' = (Inr (Some ended), streams', db')"
    by (simp add: complete_message_def sample_streams_def message_save_def record_session_def stream_db_def
        empty_database_def sample_stream_def write_message_record_def assert_message_owners_def owners_loop.simps
        assert_owner_def leases_get_def message_sessions_def shows_message_def valid_id_s assert_owners_def)
  then obtain ended streams' db' where
    c: "complete_message stream_db [] sample_streams ''m'' = (Inr (Some ended), streams', db')" by blast
  obtain st where st: "bt_get sample_streams ''m'' = Some st" "message_id (ss_message st) = ''m''" "ss_session_id st = ''s''"
    by (simp add: sample_streams_def sample_stream_def)
  show ?thesis using completed_reply_stored[OF st(1,2) c] c st(3) by auto
qed

end
