(* ===== verification/Script_Protocol.thy ===== *)
theory Script_Protocol
  imports Permissions Execution_Types Rust_Str Model_Options "HOL-Library.Sublist"
begin

text \<open>
  The text protocol between the model and the script host (crates/kraai-script-protocol): the header
  line of a script that asks for a timeout and for permissions, and the rendering of a script's result
  as the text the model reads. Texts are byte strings; the path of an output file is given as it is
  displayed.
\<close>

section \<open>Durations\<close>

datatype protocol_error =
  MalformedMetadata string
| DuplicateAttribute string
| UnknownAttribute string
| InvalidTimeout string
| InvalidPermissions string
| EmptyScript
| InvalidToolCall string

fun protocol_error_display :: "protocol_error \<Rightarrow> string" where
  "protocol_error_display (MalformedMetadata m) = ''malformed script metadata: '' @ m"
| "protocol_error_display (DuplicateAttribute n) = ''duplicate script metadata field '' @ [CHR 0x27] @ n @ [CHR 0x27]"
| "protocol_error_display (UnknownAttribute n) = ''unknown script metadata field '' @ [CHR 0x27] @ n @ [CHR 0x27]"
| "protocol_error_display (InvalidTimeout m) = ''invalid script timeout: '' @ m"
| "protocol_error_display (InvalidPermissions m) = ''invalid script permissions: '' @ m"
| "protocol_error_display EmptyScript = ''tool_call script is empty''"
| "protocol_error_display (InvalidToolCall m) = ''invalid tool call: '' @ m"

record duration =
  duration_secs :: nat
  duration_nanos :: nat

definition u128_max :: nat where
  "u128_max = 340282366920938463463374607431768211455"

definition unit_table :: "(string \<times> nat) list" where
  "unit_table =
     [(''ns'', 1), (''us'', 1000), ([CHR 0xC2, CHR 0xB5, CHR ''s''], 1000), (''ms'', 1000000),
      (''sec'', 1000000000), (''s'', 1000000000), (''min'', 60 * 1000000000), (''m'', 60 * 1000000000),
      (''hr'', 60 * 60 * 1000000000), (''h'', 60 * 60 * 1000000000), (''day'', 24 * 60 * 60 * 1000000000),
      (''wk'', 7 * 24 * 60 * 60 * 1000000000)]"

definition unit_nanos :: "string \<Rightarrow> nat option" where
  "unit_nanos u = map_of unit_table u"

definition whole_number :: "string \<Rightarrow> bool" where
  "whole_number number = (number \<noteq> [] \<and> list_all is_ascii_digit number)"

definition number_byte :: "char \<Rightarrow> bool" where
  "number_byte c = (is_ascii_digit c \<or> c = CHR ''.'')"

text \<open>\<open>number.split_once('.')\<close> and the test of both parts.\<close>

definition split_number :: "string \<Rightarrow> (protocol_error, string \<times> string option) result" where
  "split_number number =
     (let malformed = Inl (InvalidTimeout ''duration number must be an unsigned decimal'') in
      if CHR ''.'' \<in> set number then
        (let whole = takeWhile (\<lambda>c. c \<noteq> CHR ''.'') number; fraction = tl (dropWhile (\<lambda>c. c \<noteq> CHR ''.'') number)
         in if whole \<noteq> [] \<and> fraction \<noteq> [] \<and> CHR ''.'' \<notin> set fraction \<and> list_all is_ascii_digit whole
               \<and> list_all is_ascii_digit fraction
            then Inr (whole, Some fraction) else malformed)
      else if whole_number number then Inr (number, None) else malformed)"

text \<open>\<open>parse::<u128>()\<close> of a nonempty run of digits, which only the range can fail.\<close>

definition parse_digits :: "string \<Rightarrow> (protocol_error, nat) result" where
  "parse_digits s =
     (if digits_value s \<le> u128_max then Inr (digits_value s)
      else Inl (InvalidTimeout ''number too large to fit in target type''))"

definition checked128 :: "nat \<Rightarrow> string \<Rightarrow> (protocol_error, nat) result" where
  "checked128 n message = (if n \<le> u128_max then Inr n else Inl (InvalidTimeout message))"

definition add_fraction :: "nat \<Rightarrow> nat \<Rightarrow> string \<Rightarrow> (protocol_error, nat) result" where
  "add_fraction nanos per_unit fraction =
     bindR (ensure (length fraction \<le> u32_max)
       (InvalidTimeout ''fraction is too precise: out of range integral type conversion attempted'')) (\<lambda>_.
     bindR (checked128 (10 ^ length fraction) ''fraction overflow'') (\<lambda>scale.
     bindR (parse_digits fraction) (\<lambda>fraction.
     bindR (checked128 (fraction * per_unit) ''duration overflow'') (\<lambda>scaled.
     bindR (ensure (scaled mod scale = 0) (InvalidTimeout ''duration is more precise than one nanosecond'')) (\<lambda>_.
     checked128 (nanos + scaled div scale) ''duration overflow'')))))"

definition parse_duration :: "string \<Rightarrow> (protocol_error, duration) result" where
  "parse_duration input =
     (let number = takeWhile number_byte input; unit = dropWhile number_byte input in
      bindR (ensure (unit \<noteq> []) (InvalidTimeout ''missing duration unit'')) (\<lambda>_.
      bindR (ensure (number \<noteq> []) (InvalidTimeout
        ''expected a positive number followed by ns, us, ms, sec (s), min (m), hr (h), day, or wk'')) (\<lambda>_.
      bindR (split_number number) (\<lambda>(whole, fraction).
      bindR (ok_or (unit_nanos unit) (InvalidTimeout
        (''unknown Nushell duration unit '' @ [CHR 0x27] @ unit @ [CHR 0x27]))) (\<lambda>per_unit.
      bindR (parse_digits whole) (\<lambda>whole.
      bindR (checked128 (whole * per_unit) ''duration overflow'') (\<lambda>nanos.
      bindR (case fraction of None \<Rightarrow> Inr nanos | Some f \<Rightarrow> add_fraction nanos per_unit f) (\<lambda>nanos.
      bindR (ensure (nanos \<noteq> 0) (InvalidTimeout ''duration must be greater than zero'')) (\<lambda>_.
      bindR (ensure (nanos div 1000000000 \<le> u64_max)
        (InvalidTimeout ''duration overflow: out of range integral type conversion attempted'')) (\<lambda>_.
      Inr \<lparr>duration_secs = nanos div 1000000000, duration_nanos = nanos mod 1000000000\<rparr>))))))))))"

section \<open>Script input\<close>

record script_metadata =
  md_timeout :: "string option"
  md_permissions :: "string option"

record script_block =
  block_input :: string
  block_source :: string
  block_timeout :: duration
  block_capabilities :: sandbox_capabilities

definition default_script_timeout :: duration where
  "default_script_timeout = \<lparr>duration_secs = 30, duration_nanos = 0\<rparr>"

definition is_ascii_whitespace :: "char \<Rightarrow> bool" where
  "is_ascii_whitespace c = (c = CHR '' '' \<or> c = CHR 0x09 \<or> c = CHR 0x0A \<or> c = CHR 0x0C \<or> c = CHR 0x0D)"

definition is_line_end :: "char \<Rightarrow> bool" where
  "is_line_end c = (c = CHR 0x0A \<or> c = CHR 0x0D)"

text \<open>\<open>split_ascii_whitespace\<close>.\<close>

function ascii_fields :: "string \<Rightarrow> string list" where
  "ascii_fields s =
     (let t = dropWhile is_ascii_whitespace s in
      if t = [] then []
      else takeWhile (\<lambda>c. \<not> is_ascii_whitespace c) t # ascii_fields (dropWhile (\<lambda>c. \<not> is_ascii_whitespace c) t))"
  by pat_completeness auto
termination
proof (relation "measure length", goal_cases)
  case 1
  show ?case by simp
next
  case (2 s t)
  then obtain c cs where t: "t = c # cs" "\<not> is_ascii_whitespace c"
    by (metis hd_Cons_tl hd_dropWhile)
  have "length (dropWhile (\<lambda>c. \<not> is_ascii_whitespace c) cs) \<le> length cs" "length t \<le> length s"
    using 2(1) by (simp_all add: length_dropWhile_le)
  then show ?case using t by simp
qed

declare ascii_fields.simps [simp del]

text \<open>\<open>value.split(c)\<close>.\<close>

fun split_char :: "char \<Rightarrow> string \<Rightarrow> string list" where
  "split_char c [] = [[]]"
| "split_char c (x # xs) =
     (if x = c then [] # split_char c xs
      else (case split_char c xs of [] \<Rightarrow> [[x]] | y # ys \<Rightarrow> (x # y) # ys))"

definition metadata_fields :: "string \<Rightarrow> string option" where
  "metadata_fields line = (case line of
     [] \<Rightarrow> None
   | c # tail \<Rightarrow>
       if c = CHR ''#'' \<and> space_len tail \<noteq> 0 \<and> list_ex (\<lambda>field. CHR ''='' \<in> set field) (ascii_fields tail)
       then Some tail else None)"

definition parse_field :: "script_metadata \<Rightarrow> string \<Rightarrow> (protocol_error, script_metadata) result" where
  "parse_field attributes field =
     bindR (ok_or (split_once_eq field)
       (MalformedMetadata (''field '' @ [CHR 0x27] @ field @ [CHR 0x27] @ '' is missing '' @ [CHR 0x27] @ ''='' @ [CHR 0x27])))
       (\<lambda>(name, value).
     bindR (ensure (name = ''timeout'' \<or> name = ''permissions'') (UnknownAttribute name)) (\<lambda>_.
     bindR (ensure (value \<noteq> [])
       (MalformedMetadata (''field '' @ [CHR 0x27] @ name @ [CHR 0x27] @ '' is empty''))) (\<lambda>_.
     if name = ''timeout''
     then bindR (ensure (md_timeout attributes = None) (DuplicateAttribute name)) (\<lambda>_.
          Inr (attributes\<lparr>md_timeout := Some value\<rparr>))
     else bindR (ensure (md_permissions attributes = None) (DuplicateAttribute name)) (\<lambda>_.
          Inr (attributes\<lparr>md_permissions := Some value\<rparr>)))))"

definition parse_fields :: "string \<Rightarrow> (protocol_error, script_metadata) result" where
  "parse_fields input = foldR parse_field \<lparr>md_timeout = None, md_permissions = None\<rparr> (ascii_fields input)"

definition capability_named :: "string \<Rightarrow> sandbox_capability option" where
  "capability_named name =
     (if name = ''workspace-read'' then Some WorkspaceRead
      else if name = ''host-read'' then Some HostRead
      else if name = ''workspace-write'' then Some WorkspaceWrite
      else if name = ''host-write'' then Some HostWrite
      else if name = ''network'' then Some Network
      else if name = ''no-sandbox'' then Some NoSandbox
      else None)"

definition add_capability ::
  "sandbox_capability list \<Rightarrow> string \<Rightarrow> (string, sandbox_capability list) result" where
  "add_capability capabilities name =
     bindR (ensure (name \<noteq> []) ''permissions list contains an empty capability'') (\<lambda>_.
     bindR (ok_or (capability_named name) (''unknown capability '' @ [CHR 0x27] @ name @ [CHR 0x27])) (\<lambda>capability.
     bindR (ensure (capability \<notin> set capabilities) (''duplicate capability '' @ [CHR 0x27] @ name @ [CHR 0x27])) (\<lambda>_.
     Inr (capabilities @ [capability]))))"

definition parse_permissions :: "string \<Rightarrow> (string, sandbox_capabilities) result" where
  "parse_permissions value =
     bindR (ensure (value \<noteq> []) ''permissions list is empty'') (\<lambda>_.
     bindR (foldR add_capability [] (split_char CHR '','' value)) (\<lambda>capabilities. Inr (caps_new capabilities)))"

definition map_error :: "('e \<Rightarrow> 'f) \<Rightarrow> ('e, 'a) result \<Rightarrow> ('f, 'a) result" where
  "map_error f r = (case r of Inl e \<Rightarrow> Inl (f e) | Inr x \<Rightarrow> Inr x)"

definition parse_script_input :: "string \<Rightarrow> (protocol_error, script_block) result" where
  "parse_script_input input =
     (let header_tail = dropWhile is_ascii_whitespace input in
      bindR (ensure (header_tail \<noteq> []) EmptyScript) (\<lambda>_.
      bindR (case metadata_fields (takeWhile (\<lambda>c. \<not> is_line_end c) header_tail) of
          Some metadata \<Rightarrow> bindR (parse_fields metadata) (\<lambda>attributes.
            Inr (attributes, dropWhile is_line_end (dropWhile (\<lambda>c. \<not> is_line_end c) header_tail)))
        | None \<Rightarrow> Inr (\<lparr>md_timeout = None, md_permissions = None\<rparr>, header_tail)) (\<lambda>(attributes, source).
      bindR (case md_timeout attributes of None \<Rightarrow> Inr default_script_timeout | Some t \<Rightarrow> parse_duration t) (\<lambda>timeout.
      bindR (case md_permissions attributes of None \<Rightarrow> Inr {} | Some p \<Rightarrow> map_error InvalidPermissions (parse_permissions p))
        (\<lambda>capabilities.
      bindR (ensure (\<not> list_all is_ascii_whitespace source) EmptyScript) (\<lambda>_.
      Inr \<lparr>block_input = input, block_source = source, block_timeout = timeout, block_capabilities = capabilities\<rparr>))))))"

section \<open>Exact durations\<close>

text \<open>The decimal number a timeout is written with: its digits and how many come after the point.\<close>

fun decimal_text :: "string \<Rightarrow> string option \<Rightarrow> string" where
  "decimal_text whole None = whole"
| "decimal_text whole (Some fraction) = whole @ CHR ''.'' # fraction"

definition decimal_ok :: "string \<Rightarrow> string option \<Rightarrow> bool" where
  "decimal_ok whole fraction =
     (whole_number whole \<and> (case fraction of None \<Rightarrow> True | Some f \<Rightarrow> whole_number f))"

lemma digit_not_dot: "is_ascii_digit c \<Longrightarrow> c \<noteq> CHR ''.''"
  by (auto simp: is_ascii_digit_def byte_def)

lemma no_dot: "list_all is_ascii_digit ds \<Longrightarrow> CHR ''.'' \<notin> set ds"
  using digit_not_dot by (auto simp: list_all_iff)

lemma split_number_iff: "split_number number = Inr (whole, fraction) \<longleftrightarrow> decimal_ok whole fraction \<and> number = decimal_text whole fraction"
proof
  assume "split_number number = Inr (whole, fraction)"
  then show "decimal_ok whole fraction \<and> number = decimal_text whole fraction"
  proof (cases "CHR ''.'' \<in> set number")
    case True
    then have "number = takeWhile (\<lambda>c. c \<noteq> CHR ''.'') number @ CHR ''.'' # tl (dropWhile (\<lambda>c. c \<noteq> CHR ''.'') number)"
      by (induction number) auto
    then show ?thesis
      using True \<open>split_number number = Inr (whole, fraction)\<close>
      by (auto simp: split_number_def Let_def decimal_ok_def whole_number_def split: if_splits)
  next
    case False
    then show ?thesis
      using \<open>split_number number = Inr (whole, fraction)\<close>
      by (auto simp: split_number_def Let_def decimal_ok_def split: if_splits)
  qed
next
  assume d: "decimal_ok whole fraction \<and> number = decimal_text whole fraction"
  then have whole: "whole_number whole" "CHR ''.'' \<notin> set whole"
    using no_dot[of whole] by (simp_all add: decimal_ok_def whole_number_def)
  show "split_number number = Inr (whole, fraction)"
  proof (cases fraction)
    case None
    then show ?thesis using d whole by (simp add: split_number_def)
  next
    case (Some f)
    have "takeWhile (\<lambda>c. c \<noteq> CHR ''.'') (whole @ CHR ''.'' # f) = whole"
      "dropWhile (\<lambda>c. c \<noteq> CHR ''.'') (whole @ CHR ''.'' # f) = CHR ''.'' # f"
      using whole(2) by (induction whole) auto
    then show ?thesis
      using d Some whole no_dot[of f] by (simp add: split_number_def Let_def decimal_ok_def whole_number_def)
  qed
qed

lemma unit_table_ok: "list_all (\<lambda>(u, n). u \<noteq> [] \<and> \<not> number_byte (hd u) \<and> 0 < n) unit_table"
  by (simp add: unit_table_def number_byte_def is_ascii_digit_def byte_def)

lemma unit_not_number: "unit_nanos u = Some n \<Longrightarrow> u \<noteq> [] \<and> \<not> number_byte (hd u) \<and> 0 < n"
  using unit_table_ok by (fastforce simp: unit_nanos_def list_all_iff dest: map_of_SomeD)

lemma decimal_number_bytes: "decimal_ok whole fraction \<Longrightarrow> list_all number_byte (decimal_text whole fraction)"
  by (cases fraction) (auto simp: decimal_ok_def whole_number_def number_byte_def list_all_iff)

lemma number_split:
  assumes "decimal_ok whole fraction" "unit_nanos u = Some n"
  shows "takeWhile number_byte (decimal_text whole fraction @ u) = decimal_text whole fraction"
    "dropWhile number_byte (decimal_text whole fraction @ u) = u"
  using decimal_number_bytes[OF assms(1)] unit_not_number[OF assms(2)]
  by (cases u; simp add: takeWhile_append2 dropWhile_append2 list_all_iff)+

lemma digits_value_append: "digits_value (s @ t) = digits_value s * 10 ^ length t + digits_value t"
proof (induction t rule: rev_induct)
  case (snoc c t)
  have "digits_value (s @ t @ [c]) = 10 * digits_value (s @ t) + (byte c - 48)"
    using digits_value_snoc[of "s @ t" c] by simp
  then show ?case using snoc by (simp add: digits_value_snoc algebra_simps)
qed (simp add: digits_value_def)

text \<open>What the number is worth in units of \<open>1 / 10 ^ length fraction\<close>, and the bounds within which the
  checked arithmetic stays.\<close>

definition decimal_digits :: "string \<Rightarrow> string option \<Rightarrow> nat" where
  "decimal_digits whole fraction = digits_value (whole @ (case fraction of None \<Rightarrow> [] | Some f \<Rightarrow> f))"

definition decimal_places :: "string option \<Rightarrow> nat" where
  "decimal_places fraction = (case fraction of None \<Rightarrow> 0 | Some f \<Rightarrow> length f)"

definition duration_total :: "duration \<Rightarrow> nat" where
  "duration_total d = duration_secs d * 1000000000 + duration_nanos d"

definition fraction_fits :: "string option \<Rightarrow> nat \<Rightarrow> bool" where
  "fraction_fits fraction per_unit =
     (case fraction of None \<Rightarrow> True | Some f \<Rightarrow> 10 ^ length f \<le> u128_max \<and> digits_value f * per_unit \<le> u128_max)"

lemma short_power: "(10::nat) ^ n \<le> u128_max \<Longrightarrow> n \<le> u32_max"
proof (rule ccontr)
  assume a: "(10::nat) ^ n \<le> u128_max" "\<not> n \<le> u32_max"
  then have "(10::nat) ^ 39 \<le> 10 ^ n" by (intro power_increasing) (simp_all add: u32_max_def)
  then show False using a by (simp add: u128_max_def)
qed

lemma add_fraction_iff:
  assumes "0 < per_unit" "whole_number f"
  shows "add_fraction nanos per_unit f = Inr tot \<longleftrightarrow>
    fraction_fits (Some f) per_unit \<and> tot \<le> u128_max
    \<and> tot * 10 ^ length f = nanos * 10 ^ length f + digits_value f * per_unit"
proof -
  have "digits_value f \<le> digits_value f * per_unit" using assms(1) by simp
  then have small: "digits_value f * per_unit \<le> u128_max \<Longrightarrow> digits_value f \<le> u128_max" by linarith
  have pos: "(0::nat) < 10 ^ length f" by simp
  have "(a mod b = 0 \<and> tot = nanos + a div b) \<longleftrightarrow> tot * b = nanos * b + a" if "0 < b" for a b :: nat
  proof
    assume "a mod b = 0 \<and> tot = nanos + a div b"
    then show "tot * b = nanos * b + a" by (auto simp: algebra_simps)
  next
    assume t: "tot * b = nanos * b + a"
    then have "a = (tot - nanos) * b" "nanos \<le> tot"
      using that by (simp_all add: diff_mult_distrib) (metis le_add1 mult_le_cancel2 that)
    then show "a mod b = 0 \<and> tot = nanos + a div b" using that by simp
  qed
  from this[OF pos, of "digits_value f * per_unit"] show ?thesis
    using small short_power[of "length f"]
    by (auto simp: add_fraction_def fraction_fits_def checked128_def parse_digits_def result_simps split: if_splits)
qed

text \<open>The timeout a decimal number and a unit stand for, when it is one nanosecond or a multiple of it.\<close>

definition duration_of :: "string \<Rightarrow> string option \<Rightarrow> nat \<Rightarrow> duration \<Rightarrow> bool" where
  "duration_of whole fraction per_unit d =
     (duration_total d * 10 ^ decimal_places fraction = decimal_digits whole fraction * per_unit
      \<and> 0 < duration_total d \<and> duration_nanos d < 1000000000 \<and> duration_secs d \<le> u64_max)"

lemma duration_split:
  "d = \<lparr>duration_secs = t div 1000000000, duration_nanos = t mod 1000000000\<rparr> \<longleftrightarrow>
     duration_total d = t \<and> duration_nanos d < 1000000000"
  by (cases d) (auto simp: duration_total_def)

lemma total_bound: "duration_secs d \<le> u64_max \<Longrightarrow> duration_nanos d < 1000000000 \<Longrightarrow> duration_total d \<le> u128_max"
  by (simp add: duration_total_def u64_max_def u128_max_def)

lemma total_div: "duration_nanos d < 1000000000 \<Longrightarrow> duration_total d div 1000000000 = duration_secs d"
  by (simp add: duration_total_def)

lemma scaled_iff:
  assumes "decimal_ok whole fraction" "0 < per_unit"
  shows "(\<exists>w nanos. parse_digits whole = Inr w \<and> checked128 (w * per_unit) m = Inr nanos
      \<and> (case fraction of None \<Rightarrow> Inr nanos | Some f \<Rightarrow> add_fraction nanos per_unit f) = Inr t) \<longleftrightarrow>
    fraction_fits fraction per_unit \<and> t \<le> u128_max
      \<and> t * 10 ^ decimal_places fraction = decimal_digits whole fraction * per_unit"
proof -
  let ?w = "digits_value whole"
  have small: "?w * per_unit \<le> u128_max \<Longrightarrow> ?w \<le> u128_max"
    using assms(2) by (metis le_trans mult.right_neutral mult_le_mono2 Suc_leI One_nat_def)
  show ?thesis
  proof (cases fraction)
    case None
    then show ?thesis using small
      by (auto simp: parse_digits_def checked128_def fraction_fits_def decimal_places_def decimal_digits_def)
  next
    case (Some f)
    then have f: "whole_number f" using assms(1) by (simp add: decimal_ok_def)
    have digits: "decimal_digits whole fraction * per_unit = ?w * per_unit * 10 ^ length f + digits_value f * per_unit"
      using Some by (simp add: decimal_digits_def digits_value_append algebra_simps)
    have "?w * per_unit \<le> t" if "t * 10 ^ length f = ?w * per_unit * 10 ^ length f + digits_value f * per_unit"
    proof -
      have "?w * per_unit * 10 ^ length f \<le> t * 10 ^ length f" using that by simp
      then show ?thesis by simp
    qed
    then show ?thesis
      using Some small add_fraction_iff[OF assms(2) f, of "?w * per_unit" t] digits
      by (auto simp: parse_digits_def checked128_def decimal_places_def)
  qed
qed

lemma parse_duration_iff:
  "parse_duration s = Inr d \<longleftrightarrow>
     (\<exists>whole fraction u n. s = decimal_text whole fraction @ u \<and> decimal_ok whole fraction \<and> unit_nanos u = Some n
        \<and> fraction_fits fraction n \<and> duration_of whole fraction n d)"
  (is "_ \<longleftrightarrow> ?spec")
proof -
  let ?number = "takeWhile number_byte s" and ?unit = "dropWhile number_byte s"
  have "parse_duration s = Inr d \<longleftrightarrow> (\<exists>whole fraction n t. split_number ?number = Inr (whole, fraction) \<and> unit_nanos ?unit = Some n
      \<and> ?number \<noteq> [] \<and> ?unit \<noteq> []
      \<and> (\<exists>w nanos. parse_digits whole = Inr w \<and> checked128 (w * n) ''duration overflow'' = Inr nanos
          \<and> (case fraction of None \<Rightarrow> Inr nanos | Some f \<Rightarrow> add_fraction nanos n f) = Inr t)
      \<and> t \<noteq> 0 \<and> t div 1000000000 \<le> u64_max
      \<and> d = \<lparr>duration_secs = t div 1000000000, duration_nanos = t mod 1000000000\<rparr>)"
    unfolding parse_duration_def Let_def bindR_eq_Inr ensure_eq_Inr split_paired_Ex prod.case sum.inject ok_or_eq_Inr
    by (intro iffI; elim exE conjE; (intro exI conjI)?; (assumption | rule sym, assumption | simp))
  also have "\<dots> \<longleftrightarrow> (\<exists>whole fraction n. decimal_ok whole fraction \<and> ?number = decimal_text whole fraction \<and> unit_nanos ?unit = Some n
      \<and> fraction_fits fraction n \<and> duration_of whole fraction n d)"
    (is "?l \<longleftrightarrow> ?r")
  proof
    assume ?l
    then obtain whole fraction n t where l: "split_number ?number = Inr (whole, fraction)" "unit_nanos ?unit = Some n"
      "\<exists>w nanos. parse_digits whole = Inr w \<and> checked128 (w * n) ''duration overflow'' = Inr nanos
          \<and> (case fraction of None \<Rightarrow> Inr nanos | Some f \<Rightarrow> add_fraction nanos n f) = Inr t"
      "t \<noteq> 0" "t div 1000000000 \<le> u64_max" "d = \<lparr>duration_secs = t div 1000000000, duration_nanos = t mod 1000000000\<rparr>"
      by blast
    have d: "duration_total d = t" "duration_nanos d < 1000000000" using l(6) duration_split by blast+
    have ok: "decimal_ok whole fraction" "?number = decimal_text whole fraction" using l(1) split_number_iff by auto
    have "fraction_fits fraction n \<and> t * 10 ^ decimal_places fraction = decimal_digits whole fraction * n"
      using scaled_iff[OF ok(1), of n "''duration overflow''" t] l(3) unit_not_number[OF l(2)] by auto
    then show ?r using ok l(2,4,5) d total_div[OF d(2)] by (auto simp: duration_of_def)
  next
    assume ?r
    then obtain whole fraction n where r: "decimal_ok whole fraction" "?number = decimal_text whole fraction"
      "unit_nanos ?unit = Some n" "fraction_fits fraction n" "duration_of whole fraction n d" by blast
    let ?t = "duration_total d"
    have t: "?t \<le> u128_max" "?t div 1000000000 = duration_secs d" "?t \<noteq> 0" "duration_secs d \<le> u64_max"
      "d = \<lparr>duration_secs = ?t div 1000000000, duration_nanos = ?t mod 1000000000\<rparr>"
      using r(5) total_bound total_div duration_split[of d ?t] by (auto simp: duration_of_def)
    have "\<exists>w nanos. parse_digits whole = Inr w \<and> checked128 (w * n) ''duration overflow'' = Inr nanos
          \<and> (case fraction of None \<Rightarrow> Inr nanos | Some f \<Rightarrow> add_fraction nanos n f) = Inr ?t"
      using scaled_iff[OF r(1), of n "''duration overflow''" ?t] unit_not_number[OF r(3)] r(4,5) t(1)
      by (auto simp: duration_of_def)
    moreover have "?number \<noteq> []" "?unit \<noteq> []"
      using r(1,2) unit_not_number[OF r(3)] by (cases fraction; auto simp: decimal_ok_def whole_number_def)+
    ultimately show ?l
      using r(1-3) t by (intro exI[of _ whole] exI[of _ fraction] exI[of _ n] exI[of _ ?t])
        (simp add: split_number_iff)
  qed
  also have "\<dots> \<longleftrightarrow> ?spec"
    using number_split takeWhile_dropWhile_id[of number_byte s] by metis
  finally show ?thesis .
qed

section \<open>Headers\<close>

lemma ascii_fields_skip: "is_ascii_whitespace c \<Longrightarrow> ascii_fields (c # s) = ascii_fields s"
  by (subst (1 2) ascii_fields.simps) simp

lemma ascii_fields_word:
  assumes "w \<noteq> []" "list_all (\<lambda>c. \<not> is_ascii_whitespace c) w" "s = [] \<or> is_ascii_whitespace (hd s)"
  shows "ascii_fields (w @ s) = w # ascii_fields s"
proof -
  have "dropWhile is_ascii_whitespace (w @ s) = w @ s" using assms(1,2) by (cases w) auto
  moreover have "takeWhile (\<lambda>c. \<not> is_ascii_whitespace c) (w @ s) = w" "dropWhile (\<lambda>c. \<not> is_ascii_whitespace c) (w @ s) = s"
    using assms(2,3) by (cases s; simp add: takeWhile_append2 dropWhile_append2 list_all_iff)+
  ultimately show ?thesis using assms(1) by (subst ascii_fields.simps) simp
qed

lemma split_char_word: "c \<notin> set w \<Longrightarrow> split_char c (w @ c # s) = w # split_char c s"
  by (induction w) auto

lemma split_char_last: "c \<notin> set w \<Longrightarrow> split_char c w = [w]"
  by (induction w) auto

lemma split_char_join: "ws \<noteq> [] \<Longrightarrow> \<forall>w \<in> set ws. c \<notin> set w \<Longrightarrow> split_char c (join [c] ws) = ws"
  by (induction "[c]" ws rule: join.induct) (auto simp: split_char_word split_char_last)

lemma split_char_sublist: "w \<in> set (split_char c s) \<Longrightarrow> sublist w s"
proof (induction s arbitrary: w)
  case (Cons x xs)
  have first: "prefix w s" if "split_char c s = w # ws" for w ws s
    using that by (induction s arbitrary: w ws) (auto split: if_splits list.splits)
  have rest: "sublist v (x # xs)" if "v \<in> set (split_char c xs)" for v
    using Cons.IH[OF that] by (rule sublist_order.order.trans) (simp add: sublist_Cons_right)
  show ?case
    using Cons.prems first rest
    by (auto split: if_splits list.splits intro: prefix_imp_sublist)
qed simp

lemma ascii_fields_sublist: "w \<in> set (ascii_fields s) \<Longrightarrow> sublist w s"
proof (induction s rule: ascii_fields.induct)
  case (1 s)
  let ?t = "dropWhile is_ascii_whitespace s"
  have t: "sublist ?t s" by (simp add: suffix_dropWhile suffix_imp_sublist)
  have "w = takeWhile (\<lambda>c. \<not> is_ascii_whitespace c) ?t \<or> w \<in> set (ascii_fields (dropWhile (\<lambda>c. \<not> is_ascii_whitespace c) ?t))"
    "?t \<noteq> []"
    using "1.prems" by (subst (asm) ascii_fields.simps, auto simp: Let_def split: if_splits)+
  then show ?case
    using "1.IH"[OF refl] t
    by (metis prefix_imp_sublist sublist_order.order.trans suffix_dropWhile suffix_imp_sublist takeWhile_is_prefix)
qed

lemma capability_as_str_named: "capability_named (capability_as_str c) = Some c"
  by (cases c) (simp_all add: capability_named_def)

lemma capability_named_as_str: "capability_named name = Some c \<Longrightarrow> name = capability_as_str c"
  by (simp add: capability_named_def split: if_split_asm)

lemma capability_text: "capability_as_str c \<noteq> [] \<and> CHR '','' \<notin> set (capability_as_str c)
    \<and> list_all (\<lambda>c. \<not> is_ascii_whitespace c \<and> \<not> is_line_end c) (capability_as_str c)"
  by (cases c) (simp_all add: is_ascii_whitespace_def is_line_end_def)

lemma add_capabilities:
  "foldR add_capability acc (map capability_as_str cs) = Inr (acc @ cs)"
  if "distinct (acc @ cs)"
  using that by (induction cs arbitrary: acc) (auto simp: add_capability_def capability_as_str_named capability_text ensure_def)

lemma parse_permissions_join:
  assumes "cs \<noteq> []" "distinct cs"
  shows "parse_permissions (join '','' (map capability_as_str cs)) = Inr (caps_new cs)"
proof -
  have "split_char CHR '','' (join '','' (map capability_as_str cs)) = map capability_as_str cs"
    using assms(1) capability_text by (intro split_char_join) auto
  moreover have "join '','' (map capability_as_str cs) \<noteq> []"
    using assms(1) capability_text by (cases cs; cases "tl cs") auto
  ultimately show ?thesis
    using add_capabilities[of "[]" cs] assms(2) by (simp add: parse_permissions_def ensure_def)
qed

definition header_line :: "string \<Rightarrow> sandbox_capability list \<Rightarrow> string" where
  "header_line t cs = ''# timeout='' @ t @ '' permissions='' @ join '','' (map capability_as_str cs)"

lemma join_text:
  "list_all (\<lambda>c. \<not> is_ascii_whitespace c \<and> \<not> is_line_end c) (join '','' (map capability_as_str cs))"
proof (induction cs)
  case (Cons c cs)
  have "\<not> is_ascii_whitespace CHR '','' \<and> \<not> is_line_end CHR '',''" by (simp add: is_ascii_whitespace_def is_line_end_def)
  then show ?case using Cons capability_text[of c] by (cases cs) simp_all
qed simp

lemma duration_text:
  assumes "parse_duration t = Inr d"
  shows "t \<noteq> []" "list_all (\<lambda>c. \<not> is_ascii_whitespace c \<and> \<not> is_line_end c) t"
proof -
  obtain whole fraction u n where t: "t = decimal_text whole fraction @ u" "decimal_ok whole fraction" "unit_nanos u = Some n"
    using assms parse_duration_iff by blast
  have "list_all (\<lambda>(u, n). list_all (\<lambda>c. \<not> is_ascii_whitespace c \<and> \<not> is_line_end c) u) unit_table"
    by (simp add: unit_table_def is_ascii_whitespace_def is_line_end_def)
  then have "list_all (\<lambda>c. \<not> is_ascii_whitespace c \<and> \<not> is_line_end c) u"
    using t(3) by (auto simp: unit_nanos_def list_all_iff dest: map_of_SomeD)
  moreover have "number_byte c \<Longrightarrow> \<not> is_ascii_whitespace c \<and> \<not> is_line_end c" for c
    by (auto simp: number_byte_def is_ascii_digit_def is_ascii_whitespace_def is_line_end_def byte_def)
  ultimately show "list_all (\<lambda>c. \<not> is_ascii_whitespace c \<and> \<not> is_line_end c) t" "t \<noteq> []"
    using decimal_number_bytes[OF t(2)] unit_not_number[OF t(3)] unfolding t(1) by (auto simp: list_all_iff)
qed

lemma header_fields:
  assumes "t \<noteq> []" "list_all (\<lambda>c. \<not> is_ascii_whitespace c \<and> \<not> is_line_end c) t"
    "p \<noteq> []" "list_all (\<lambda>c. \<not> is_ascii_whitespace c \<and> \<not> is_line_end c) p"
  shows "ascii_fields ('' timeout='' @ t @ '' permissions='' @ p) = [''timeout='' @ t, ''permissions='' @ p]"
    "parse_fields ('' timeout='' @ t @ '' permissions='' @ p) = Inr \<lparr>md_timeout = Some t, md_permissions = Some p\<rparr>"
proof -
  have sp: "is_ascii_whitespace CHR '' ''" by (simp add: is_ascii_whitespace_def)
  have words: "list_all (\<lambda>c. \<not> is_ascii_whitespace c) (''timeout='' @ t)" "list_all (\<lambda>c. \<not> is_ascii_whitespace c) (''permissions='' @ p)"
    using assms(2,4) by (auto simp: is_ascii_whitespace_def list_all_iff)
  have "ascii_fields ((''timeout='' @ t) @ '' '' @ ''permissions='' @ p) = (''timeout='' @ t) # ascii_fields ('' '' @ ''permissions='' @ p)"
    using ascii_fields_word[OF _ words(1), of "'' '' @ ''permissions='' @ p"] sp by simp
  moreover have "ascii_fields ('' '' @ ''permissions='' @ p) = [''permissions='' @ p]"
    using ascii_fields_word[OF _ words(2), of "[]"] ascii_fields_skip[OF sp, of "''permissions='' @ p"]
    by (simp add: ascii_fields.simps[of "[]"])
  ultimately show f: "ascii_fields ('' timeout='' @ t @ '' permissions='' @ p) = [''timeout='' @ t, ''permissions='' @ p]"
    using ascii_fields_skip[OF sp, of "''timeout='' @ t @ '' permissions='' @ p"] by simp
  show "parse_fields ('' timeout='' @ t @ '' permissions='' @ p) = Inr \<lparr>md_timeout = Some t, md_permissions = Some p\<rparr>"
    using assms(1,3) unfolding parse_fields_def f by (simp add: parse_field_def split_once_eq_def ensure_def)
qed

lemma header_obeyed:
  assumes "parse_duration t = Inr d" "cs \<noteq> []" "distinct cs"
    "\<not> list_all is_ascii_whitespace source" "\<not> is_line_end (hd source)"
  shows "parse_script_input (header_line t cs @ newline # source) =
    Inr \<lparr>block_input = header_line t cs @ newline # source, block_source = source, block_timeout = d,
         block_capabilities = caps_new cs\<rparr>"
proof -
  let ?p = "join '','' (map capability_as_str cs)"
  let ?tail = "'' timeout='' @ t @ '' permissions='' @ ?p"
  have p: "?p \<noteq> []" using assms(2) capability_text by (cases cs; cases "tl cs") auto
  note t = duration_text[OF assms(1)]
  have head: "header_line t cs = CHR ''#'' # ?tail" by (simp add: header_line_def)
  have line: "list_all (\<lambda>c. \<not> is_line_end c) (header_line t cs)"
    using t(2) join_text[of cs] by (auto simp: header_line_def is_line_end_def list_all_iff)
  have nl: "is_line_end newline" by (simp add: is_line_end_def)
  have "takeWhile (\<lambda>c. \<not> is_line_end c) (header_line t cs @ newline # source) = header_line t cs"
    "dropWhile (\<lambda>c. \<not> is_line_end c) (header_line t cs @ newline # source) = newline # source"
    using line nl by (simp_all add: takeWhile_append2 dropWhile_append2 list_all_iff)
  moreover have "dropWhile is_line_end (newline # source) = source"
    using assms(5) nl by (cases source) auto
  moreover have "dropWhile is_ascii_whitespace (header_line t cs @ newline # source) = header_line t cs @ newline # source"
    by (simp add: head is_ascii_whitespace_def)
  moreover have "metadata_fields (header_line t cs) = Some ?tail"
    using header_fields(1)[OF t p join_text] by (simp add: metadata_fields_def head space_len_def byte_def)
  ultimately show ?thesis
    using header_fields(2)[OF t p join_text] assms(1,4) parse_permissions_join[OF assms(2,3)]
    by (simp add: parse_script_input_def Let_def ensure_def map_error_def)
qed

lemma sample_timeout: "parse_duration ''1.5sec'' = Inr \<lparr>duration_secs = 1, duration_nanos = 500000000\<rparr>"
proof -
  have "duration_of ''1'' (Some ''5'') 1000000000 \<lparr>duration_secs = 1, duration_nanos = 500000000\<rparr>"
    by (simp add: duration_of_def duration_total_def decimal_places_def decimal_digits_def digits_value_def byte_def u64_max_def)
  moreover have "decimal_ok ''1'' (Some ''5'')" by (simp add: decimal_ok_def whole_number_def is_ascii_digit_def byte_def)
  moreover have "unit_nanos ''sec'' = Some 1000000000" by (simp add: unit_nanos_def unit_table_def)
  moreover have "fraction_fits (Some ''5'') 1000000000" by (simp add: fraction_fits_def digits_value_def byte_def u128_max_def)
  moreover have "''1.5sec'' = decimal_text ''1'' (Some ''5'') @ ''sec''" by simp
  ultimately show ?thesis
    unfolding parse_duration_iff by blast
qed

text \<open>C12. A script runs with what its header says: for every timeout the duration parser accepts and
  every list of at least one capability without duplicates, a script that starts with the canonical header
  line naming them (timeout first, then the permissions, one space between) is read with exactly that
  timeout, the closure of those capabilities, and the source that follows, byte for byte.\<close>

theorem script_header_obeyed:
  assumes "parse_duration t = Inr d" "cs \<noteq> []" "distinct cs"
    "\<not> list_all is_ascii_whitespace source" "\<not> is_line_end (hd source)"
  shows "parse_script_input (header_line t cs @ newline # source) =
    Inr \<lparr>block_input = header_line t cs @ newline # source, block_source = source, block_timeout = d,
         block_capabilities = caps_new cs\<rparr>"
  using assms by (rule header_obeyed)

theorem script_header_obeyed_witness:
  "parse_script_input (header_line ''1.5sec'' [WorkspaceWrite, Network] @ newline # ''ls'') =
    Inr \<lparr>block_input = header_line ''1.5sec'' [WorkspaceWrite, Network] @ newline # ''ls'', block_source = ''ls'',
         block_timeout = \<lparr>duration_secs = 1, duration_nanos = 500000000\<rparr>,
         block_capabilities = caps_new [WorkspaceWrite, Network]\<rparr>"
  using script_header_obeyed[OF sample_timeout, of "[WorkspaceWrite, Network]" "''ls''"]
  by (simp add: is_ascii_whitespace_def is_line_end_def)

lemma digits_value_less: "list_all is_ascii_digit s \<Longrightarrow> digits_value s < 10 ^ length s"
proof (induction s rule: rev_induct)
  case (snoc c s)
  then have "digits_value s + 1 \<le> 10 ^ length s" "byte c - 48 < 10" by (auto simp: is_ascii_digit_def)
  then show ?case by (simp add: digits_value_snoc)
qed (simp add: digits_value_def)

lemma unit_nanos_le: "unit_nanos u = Some n \<Longrightarrow> n \<le> 604800000000000"
  by (auto simp: unit_nanos_def unit_table_def split: if_splits)

lemma short_fraction_fits:
  assumes "list_all is_ascii_digit f" "length f \<le> 23" "unit_nanos u = Some n"
  shows "fraction_fits (Some f) n"
proof -
  have p: "(10::nat) ^ length f \<le> 10 ^ 23" using assms(2) by (intro power_increasing) simp_all
  have "digits_value f * n \<le> 10 ^ 23 * 604800000000000"
    using digits_value_less[OF assms(1)] p unit_nanos_le[OF assms(3)] by (intro mult_mono) linarith+
  then show ?thesis using p by (simp add: fraction_fits_def u128_max_def)
qed

text \<open>C31. A timeout is never rounded: the duration parser accepts exactly the unsigned decimals followed
  by a known unit that denote a positive whole number of nanoseconds within range and whose fraction
  the parser's 128-bit arithmetic can hold, and the duration it returns is that number. The fraction
  can be held when ten to the number of its digits and its digits times the nanoseconds of the unit are
  both at most \<open>u128::MAX\<close>; every fraction of at most 23 digits can, with any unit. Longer ones may
  be refused although they denote such a number.\<close>

theorem timeout_exact:
  "(parse_duration s = Inr d \<longleftrightarrow>
     (\<exists>whole fraction u n. s = decimal_text whole fraction @ u \<and> decimal_ok whole fraction \<and> unit_nanos u = Some n
        \<and> (case fraction of None \<Rightarrow> True
            | Some f \<Rightarrow> 10 ^ length f \<le> u128_max \<and> digits_value f * n \<le> u128_max)
        \<and> duration_of whole fraction n d))
   \<and> (decimal_ok whole (Some f) \<longrightarrow> length f \<le> 23 \<longrightarrow> unit_nanos u = Some n
       \<longrightarrow> 10 ^ length f \<le> u128_max \<and> digits_value f * n \<le> u128_max)"
  using parse_duration_iff[of s d] short_fraction_fits[of f u n]
  by (auto simp: fraction_fits_def decimal_ok_def whole_number_def)

lemma long_fraction_refused:
  "parse_duration ''0.5000000000000000000000000wk'' = Inl (InvalidTimeout ''duration overflow'')"
  by (simp add: parse_duration_def number_byte_def is_ascii_digit_def byte_def unit_nanos_def unit_table_def
      split_number_def parse_digits_def digits_value_def u128_max_def add_fraction_def checked128_def
      u32_max_def Let_def ensure_def)

text \<open>A fraction of 25 digits that denotes half a week exactly is refused.\<close>

theorem timeout_exact_witness:
  "digits_value ''5'' * 1000000000 \<le> u128_max
    \<and> parse_duration ''0.5000000000000000000000000wk'' = Inl (InvalidTimeout ''duration overflow'')"
proof -
  have "decimal_ok ''1'' (Some ''5'')" by (simp add: decimal_ok_def whole_number_def is_ascii_digit_def byte_def)
  moreover have "unit_nanos ''sec'' = Some 1000000000" by (simp add: unit_nanos_def unit_table_def)
  ultimately show ?thesis
    using timeout_exact[of _ _ "''1''" "''5''" "''sec''" 1000000000] long_fraction_refused by simp
qed

lemma add_capability_named:
  "add_capability acc n = Inr cs \<Longrightarrow> \<exists>c. n = capability_as_str c \<and> cs = acc @ [c]"
  using capability_named_as_str by (auto simp: add_capability_def result_simps)

lemma add_capabilities_named:
  "foldR add_capability acc names = Inr cs \<Longrightarrow> \<exists>others. cs = acc @ others \<and> names = map capability_as_str others"
proof (induction names arbitrary: acc)
  case (Cons n names)
  then obtain mid where mid: "add_capability acc n = Inr mid" "foldR add_capability mid names = Inr cs"
    by (auto simp: bindR_eq_Inr)
  obtain c where c: "n = capability_as_str c" "mid = acc @ [c]" using add_capability_named[OF mid(1)] by blast
  obtain others where "cs = mid @ others" "names = map capability_as_str others" using Cons.IH[OF mid(2)] by blast
  then show ?case using c by (intro exI[of _ "c # others"]) simp
qed simp

lemma parse_permissions_named:
  assumes "parse_permissions p = Inr caps"
  shows "\<exists>cs. caps = caps_new cs \<and> (\<forall>c \<in> set cs. sublist (capability_as_str c) p)"
proof -
  obtain cs where cs: "foldR add_capability [] (split_char CHR '','' p) = Inr cs" "caps = caps_new cs"
    using assms by (auto simp: parse_permissions_def result_simps)
  have "split_char CHR '','' p = map capability_as_str cs" using add_capabilities_named[OF cs(1)] by auto
  then show ?thesis using cs(2) split_char_sublist[of _ "CHR '',''" p] by (intro exI[of _ cs]) auto
qed

lemma parse_fields_named:
  assumes "foldR parse_field acc fs = Inr md" "md_permissions md = Some p"
  shows "md_permissions acc = Some p \<or> (\<exists>field \<in> set fs. sublist p field)"
  using assms(1)
proof (induction fs arbitrary: acc)
  case (Cons field fs)
  obtain mid where mid: "parse_field acc field = Inr mid" "foldR parse_field mid fs = Inr md"
    using Cons.prems by (auto simp: result_simps)
  have "md_permissions mid = md_permissions acc \<or> (\<exists>v. md_permissions mid = Some v \<and> sublist v field)"
  proof -
    have "sublist (tl (dropWhile (\<lambda>c. c \<noteq> CHR ''='') field)) field"
      by (meson sublist_order.order.trans suffix_dropWhile suffix_imp_sublist suffix_tl)
    then show ?thesis
      using mid(1) by (auto simp: parse_field_def split_once_eq_def result_simps split: if_splits)
  qed
  then show ?case using Cons.IH[OF mid(2)] by auto
qed (use assms(2) in simp)

text \<open>C21. A script cannot gain a capability its header does not name: whatever a model sends, when it is
  read as a script, the source is a part of the input from some place to its end, and the capabilities
  it asks for are the closure of a list of capabilities of which each is spelled out in the input
  before the source.\<close>

theorem script_requests_only_named:
  assumes "parse_script_input input = Inr b"
  shows "\<exists>header cs. input = header @ block_source b \<and> block_capabilities b = caps_new cs
    \<and> (\<forall>c \<in> set cs. sublist (capability_as_str c) header)"
proof -
  let ?tail = "dropWhile is_ascii_whitespace input"
  let ?line = "takeWhile (\<lambda>c. \<not> is_line_end c) ?tail" and ?rest = "dropWhile (\<lambda>c. \<not> is_line_end c) ?tail"
  have input: "input = takeWhile is_ascii_whitespace input @ ?tail" "?tail = ?line @ ?rest"
    "?rest = takeWhile is_line_end ?rest @ dropWhile is_line_end ?rest"
    by simp_all
  show ?thesis
  proof (cases "metadata_fields ?line")
    case None
    then have "block_source b = ?tail" "block_capabilities b = caps_new []"
      using assms by (auto simp: parse_script_input_def Let_def result_simps caps_new_def split: option.splits)
    then show ?thesis using input(1) by (intro exI[of _ "takeWhile is_ascii_whitespace input"] exI[of _ "[]"]) simp
  next
    case (Some fields_text)
    then obtain md where md: "parse_fields fields_text = Inr md" "block_source b = dropWhile is_line_end ?rest"
      "(case md_permissions md of None \<Rightarrow> Inr {} | Some p \<Rightarrow> map_error InvalidPermissions (parse_permissions p)) = Inr (block_capabilities b)"
      using assms by (auto simp: parse_script_input_def Let_def result_simps)
    let ?header = "takeWhile is_ascii_whitespace input @ ?line @ takeWhile is_line_end ?rest"
    have whole: "input = ?header @ block_source b" unfolding md(2) using input by simp
    show ?thesis
    proof (cases "md_permissions md")
      case None
      then have "block_capabilities b = caps_new []" using md(3) by (simp add: caps_new_def)
      then show ?thesis using whole by (intro exI[of _ ?header] exI[of _ "[]"]) simp
    next
      case (Some p)
      then have "parse_permissions p = Inr (block_capabilities b)"
        using md(3) by (auto simp: map_error_def split: sum.splits)
      then obtain cs where cs: "block_capabilities b = caps_new cs" "\<forall>c \<in> set cs. sublist (capability_as_str c) p"
        using parse_permissions_named by blast
      obtain field where "field \<in> set (ascii_fields fields_text)" "sublist p field"
        using parse_fields_named[OF md(1)[unfolded parse_fields_def] Some] by auto
      then have "sublist p fields_text" using ascii_fields_sublist sublist_order.order.trans by blast
      moreover have "sublist fields_text ?line"
        using \<open>metadata_fields ?line = Some fields_text\<close>
        by (auto simp: metadata_fields_def sublist_Cons_right split: list.splits if_splits)
      ultimately have "sublist p ?header" by (meson sublist_append_leftI sublist_append_rightI sublist_order.order.trans)
      then show ?thesis using cs whole sublist_order.order.trans by (intro exI[of _ ?header] exI[of _ cs]) blast
    qed
  qed
qed

theorem script_requests_only_named_witness:
  "\<exists>header cs. header_line ''1.5sec'' [WorkspaceWrite, Network] @ newline # ''ls'' = header @ ''ls''
     \<and> caps_new [WorkspaceWrite, Network] = caps_new cs \<and> (\<forall>c \<in> set cs. sublist (capability_as_str c) header)"
proof -
  have "parse_script_input (header_line ''1.5sec'' [WorkspaceWrite, Network] @ newline # ''ls'') =
    Inr \<lparr>block_input = header_line ''1.5sec'' [WorkspaceWrite, Network] @ newline # ''ls'', block_source = ''ls'',
         block_timeout = \<lparr>duration_secs = 1, duration_nanos = 500000000\<rparr>,
         block_capabilities = caps_new [WorkspaceWrite, Network]\<rparr>"
    by (intro header_obeyed sample_timeout) (simp_all add: is_ascii_whitespace_def is_line_end_def)
  from script_requests_only_named[OF this] show ?thesis by simp
qed

section \<open>Results\<close>

definition channel_display_limit :: nat where
  "channel_display_limit = 16 * 1024"

definition binary_output_message :: string where
  "binary_output_message = ''Binary output was preserved by Kraai. Decode an existing output file if available. Rerun only if repeating the command'' @ [CHR 0x27] @ ''s effects is safe, decoding its output with the appropriate encoding before returning text.''"

definition channel_needs_output_file :: "string \<Rightarrow> bool" where
  "channel_needs_output_file bytes = (channel_display_limit < length bytes \<or> \<not> utf8_valid bytes)"

record tool_call_result_view =
  view_status :: script_execution_status
  view_exit_code :: "int option"
  view_elapsed_millis :: "nat option"
  view_stdout :: string
  view_stderr :: string
  view_diagnostic :: "string option"
  view_stdout_file :: "string option"
  view_stderr_file :: "string option"
  view_sandbox_blocked :: "sandbox_capabilities option"
  view_rewrites :: "string list"

definition quote :: char where
  "quote = CHR 0x22"

definition int_digits :: "int \<Rightarrow> string" where
  "int_digits i = (if i < 0 then CHR ''-'' # nat_digits (nat (- i)) else nat_digits (nat i))"

definition escape_char :: "char \<Rightarrow> string" where
  "escape_char c =
     (if c = CHR ''&'' then ''&amp;'' else if c = quote then ''&quot;'' else if c = CHR ''<'' then ''&lt;'' else [c])"

definition push_attribute :: "string \<Rightarrow> string \<Rightarrow> string" where
  "push_attribute name value = '' '' @ name @ ''='' @ [quote] @ concat (map escape_char value) @ [quote]"

fun floor_from :: "string \<Rightarrow> nat \<Rightarrow> nat" where
  "floor_from s 0 = 0"
| "floor_from s (Suc i) = (if is_char_boundary s (Suc i) then Suc i else floor_from s i)"

definition floor_char_boundary :: "string \<Rightarrow> nat \<Rightarrow> nat" where
  "floor_char_boundary s i = (if length s \<le> i then length s else floor_from s i)"

definition ceil_char_boundary :: "string \<Rightarrow> nat \<Rightarrow> nat" where
  "ceil_char_boundary s i =
     (if length s \<le> i then length s else hd (filter (is_char_boundary s) [i..<Suc (length s)]))"

definition str_find :: "char \<Rightarrow> string \<Rightarrow> nat option" where
  "str_find c s = (if c \<in> set s then Some (length (takeWhile (\<lambda>x. x \<noteq> c) s)) else None)"

definition str_rfind :: "char \<Rightarrow> string \<Rightarrow> nat option" where
  "str_rfind c s = map_option (\<lambda>i. length s - 1 - i) (str_find c (rev s))"

definition or_default :: "string option \<Rightarrow> string" where
  "or_default x = (case x of None \<Rightarrow> [] | Some s \<Rightarrow> s)"

definition head_end_of :: "string \<Rightarrow> nat \<Rightarrow> nat" where
  "head_end_of s half =
     (let head_end = floor_char_boundary s half in
      case str_rfind newline (or_default (str_get s 0 head_end)) of
        Some e \<Rightarrow> if half div 2 \<le> e then e + 1 else head_end
      | None \<Rightarrow> head_end)"

definition tail_start_of :: "string \<Rightarrow> nat \<Rightarrow> nat" where
  "tail_start_of s half =
     (let tail_start = ceil_char_boundary s (length s - half) in
      case str_find newline (or_default (str_get s tail_start (length s))) of
        Some l \<Rightarrow> if l < half div 2 then tail_start + (l + 1) else tail_start
      | None \<Rightarrow> tail_start)"

definition push_excerpt :: "string \<Rightarrow> string" where
  "push_excerpt s =
     (let half = channel_display_limit div 2; head_end = head_end_of s half; tail_start = tail_start_of s half
      in or_default (str_get s 0 head_end) @ [newline] @ ''['' @ nat_digits (tail_start - head_end)
         @ '' bytes omitted]'' @ [newline] @ or_default (str_get s tail_start (length s)))"

definition render_channel :: "string \<Rightarrow> string \<Rightarrow> string option \<Rightarrow> string" where
  "render_channel name bytes file =
     (if bytes = [] then []
      else
        let is_text = utf8_valid bytes; truncated = is_text \<and> channel_display_limit < length bytes in
        ''<'' @ name
        @ (if \<not> is_text then '' encoding='' @ [quote] @ ''binary'' @ [quote] else [])
        @ (if \<not> is_text \<or> truncated
           then push_attribute ''byte_count'' (nat_digits (length bytes))
             @ (case file of None \<Rightarrow> [] | Some f \<Rightarrow> push_attribute ''full_output'' f)
           else [])
        @ (if truncated then '' truncated='' @ [quote] @ ''true'' @ [quote] else [])
        @ ''>''
        @ (if \<not> is_text then binary_output_message else if truncated then push_excerpt bytes else bytes)
        @ ''</'' @ name @ ''>'' @ [newline])"

definition push_sandbox_notice :: "sandbox_capabilities \<Rightarrow> string" where
  "push_sandbox_notice caps =
     (let missing = filter (\<lambda>c. \<not> caps_contains caps c) [HostWrite, Network, HostRead, WorkspaceWrite];
          example = capability_as_str (case missing of [] \<Rightarrow> NoSandbox | c # _ \<Rightarrow> c);
          names = (\<lambda>cs. join '', '' (map capability_as_str cs))
      in ''<sandbox>The sandbox likely blocked this script. It ran with: '' @ names (caps_iter caps)
         @ ''. If it needs more access, rerun it with the capabilities it needs in its header, such as ''
         @ [CHR 0x60] @ ''# timeout=30sec permissions='' @ example @ [CHR 0x60] @ ''. Not granted: ''
         @ names (missing @ [NoSandbox]) @ ''.</sandbox>'' @ [newline])"

definition render_tool_call_result :: "tool_call_result_view \<Rightarrow> string" where
  "render_tool_call_result r =
     (let diagnostic = (case view_diagnostic r of None \<Rightarrow> [] | Some d \<Rightarrow> d);
          has_body = (view_stdout r \<noteq> [] \<or> view_stderr r \<noteq> [] \<or> diagnostic \<noteq> [] \<or> view_sandbox_blocked r \<noteq> None
                      \<or> view_rewrites r \<noteq> [])
      in ''<tool_call_result status='' @ [quote] @ status_as_str (view_status r) @ [quote]
         @ (case view_exit_code r of None \<Rightarrow> [] | Some c \<Rightarrow> '' exit_code='' @ [quote] @ int_digits c @ [quote])
         @ (case view_elapsed_millis r of None \<Rightarrow> [] | Some m \<Rightarrow> '' elapsed_ms='' @ [quote] @ nat_digits m @ [quote])
         @ ''>''
         @ (if has_body
            then [newline]
              @ (if view_rewrites r \<noteq> []
                 then ''<notice>Note: Kraai rewrote Bash syntax to Nushell before running: '' @ join '', '' (view_rewrites r)
                   @ ''. This shell is Nushell.</notice>'' @ [newline] else [])
              @ render_channel ''stdout'' (view_stdout r) (view_stdout_file r)
              @ render_channel ''stderr'' (view_stderr r) (view_stderr_file r)
              @ (if diagnostic \<noteq> [] then ''<diagnostic>'' @ diagnostic @ ''</diagnostic>'' @ [newline] else [])
              @ (case view_sandbox_blocked r of None \<Rightarrow> [] | Some caps \<Rightarrow> push_sandbox_notice caps)
            else [])
         @ ''</tool_call_result>'')"

lemma floor_from_le: "floor_from s i \<le> i \<and> is_char_boundary s (floor_from s i)"
  by (induction i) (auto simp: is_char_boundary_def)

lemma floor_from_greatest: "j \<le> i \<Longrightarrow> is_char_boundary s j \<Longrightarrow> j \<le> floor_from s i"
  by (induction i) (auto simp: le_Suc_eq)

lemma ceil_facts:
  assumes "i < length s"
  shows "i \<le> ceil_char_boundary s i \<and> ceil_char_boundary s i \<le> length s \<and> is_char_boundary s (ceil_char_boundary s i)"
proof -
  let ?bs = "filter (is_char_boundary s) [i..<Suc (length s)]"
  have "length s \<in> set ?bs" using assms by (auto simp: is_char_boundary_def)
  then have "hd ?bs \<in> set ?bs" by (metis empty_iff empty_set hd_in_set)
  then have "i \<le> hd ?bs \<and> hd ?bs \<le> length s \<and> is_char_boundary s (hd ?bs)"
    by (simp del: upt_Suc)
  then show ?thesis using assms by (simp add: ceil_char_boundary_def del: upt_Suc)
qed

lemma str_find_SomeD: "str_find c s = Some i \<Longrightarrow> i < length s \<and> s ! i = c"
proof -
  assume "str_find c s = Some i"
  moreover have "c \<in> set s \<Longrightarrow> length (takeWhile (\<lambda>x. x \<noteq> c) s) < length s \<and> s ! length (takeWhile (\<lambda>x. x \<noteq> c) s) = c"
    by (induction s) auto
  ultimately show ?thesis by (auto simp: str_find_def split: if_splits)
qed

lemma str_rfind_SomeD: "str_rfind c s = Some i \<Longrightarrow> i < length s \<and> s ! i = c"
  using str_find_SomeD[of c "rev s"] by (auto simp: str_rfind_def rev_nth)

lemma newline_byte: "byte newline < 128" by (simp add: byte_def)

lemma head_end_facts:
  assumes "utf8_valid s" "half < length s"
  shows "head_end_of s half \<le> half + 1" "is_char_boundary s (head_end_of s half)" "half div 2 < head_end_of s half \<or> head_end_of s half = floor_char_boundary s half"
    "head_end_of s half \<le> half"
proof -
  let ?h = "floor_char_boundary s half"
  have h: "?h \<le> half" "is_char_boundary s ?h" using floor_from_le[of s half] assms(2) by (simp_all add: floor_char_boundary_def)
  have head: "or_default (str_get s 0 ?h) = take ?h s" using h(2) by (simp add: or_default_def str_get_def is_char_boundary_def)
  have cut: "e < ?h \<and> is_char_boundary s (e + 1)" if "str_rfind newline (take ?h s) = Some e" for e
    using str_rfind_SomeD[OF that] boundary_after_ascii[OF assms(1), of e] newline_byte by auto
  show "is_char_boundary s (head_end_of s half)" "half div 2 < head_end_of s half \<or> head_end_of s half = floor_char_boundary s half"
    "head_end_of s half \<le> half"
    using h cut by (auto simp: head_end_of_def Let_def head split: option.split)
  then show "head_end_of s half \<le> half + 1" by simp
qed

lemma tail_start_facts:
  assumes "utf8_valid s" "half < length s" "0 < half"
  shows "length s - half \<le> tail_start_of s half" "is_char_boundary s (tail_start_of s half)" "tail_start_of s half \<le> length s"
proof -
  let ?t = "ceil_char_boundary s (length s - half)"
  have t: "length s - half \<le> ?t" "?t \<le> length s" "is_char_boundary s ?t"
    using ceil_facts[of "length s - half" s] assms(2,3) by auto
  have tail: "or_default (str_get s ?t (length s)) = drop ?t s"
    using t by (simp add: or_default_def str_get_def is_char_boundary_def)
  have cut: "?t + (l + 1) \<le> length s \<and> is_char_boundary s (?t + (l + 1))" if "str_find newline (drop ?t s) = Some l" for l
    using str_find_SomeD[OF that] boundary_after_ascii[OF assms(1), of "?t + l"] newline_byte by auto
  show "length s - half \<le> tail_start_of s half" "is_char_boundary s (tail_start_of s half)" "tail_start_of s half \<le> length s"
    using t cut by (auto simp: tail_start_of_def Let_def tail split: option.split)
qed

text \<open>A long output is shown by its true ends: the excerpt is the start of the text, a line that
  states exactly how many bytes are left out, and the end of the text; both parts are at most half the
  display limit, are cut between characters and do not overlap.\<close>

theorem excerpt_is_both_ends:
  assumes "utf8_valid s" "channel_display_limit < length s"
  shows "\<exists>h t. push_excerpt s = take h s @ [newline] @ ''['' @ nat_digits (t - h) @ '' bytes omitted]'' @ [newline] @ drop t s
    \<and> is_char_boundary s h \<and> is_char_boundary s t
    \<and> h < t \<and> t \<le> length s \<and> h \<le> channel_display_limit div 2 \<and> length s - t \<le> channel_display_limit div 2"
proof -
  define half where "half = channel_display_limit div 2"
  have half: "half < length s" "0 < half" "2 * half < length s" using assms(2) by (simp_all add: half_def channel_display_limit_def)
  let ?h = "head_end_of s half" and ?t = "tail_start_of s half"
  note h = head_end_facts[OF assms(1) half(1)] and t = tail_start_facts[OF assms(1) half(1,2)]
  have "or_default (str_get s 0 ?h) = take ?h s" "or_default (str_get s ?t (length s)) = drop ?t s"
    using h(2) t(2,3) by (simp_all add: or_default_def str_get_def is_char_boundary_def)
  then have "push_excerpt s = take ?h s @ [newline] @ ''['' @ nat_digits (?t - ?h) @ '' bytes omitted]'' @ [newline] @ drop ?t s"
    by (simp add: push_excerpt_def Let_def half_def)
  moreover have "?h < ?t" "length s - ?t \<le> half" using h(4) t(1) half(3) by linarith+
  ultimately show ?thesis using h(2,4) t(2,3) unfolding half_def by blast
qed

lemma utf8_valid_replicate: "byte c < 128 \<Longrightarrow> utf8_valid (replicate n c)"
  by (induction n) (simp_all add: utf8_valid.simps[of "[]"] utf8_valid.simps[of "c # _"] scalar_ascii)

theorem excerpt_is_both_ends_witness:
  "let s = replicate 20000 CHR ''a'' in
     \<exists>h t. push_excerpt s = take h s @ [newline] @ ''['' @ nat_digits (t - h) @ '' bytes omitted]'' @ [newline] @ drop t s \<and> h < t"
proof -
  have "utf8_valid (replicate 20000 CHR ''a'')" by (rule utf8_valid_replicate) (simp add: byte_def)
  from excerpt_is_both_ends[OF this] show ?thesis
    unfolding Let_def by (simp only: length_replicate) (auto simp: channel_display_limit_def)
qed

text \<open>The model sees a channel exactly as it was written unless its full output is saved: the
  rendering of a nonempty channel is its bytes between plain tags if and only if no output file is
  needed for it.\<close>

theorem channel_verbatim_iff:
  "render_channel name bytes file =
       (if bytes = [] then [] else ''<'' @ name @ ''>'' @ bytes @ ''</'' @ name @ ''>'' @ [newline])
     \<longleftrightarrow> \<not> channel_needs_output_file bytes"
proof (cases "channel_needs_output_file bytes")
  case True
  then have "bytes \<noteq> []"
    using utf8_valid.simps[of "[]"] by (auto simp: channel_needs_output_file_def channel_display_limit_def)
  moreover have "\<exists>v. render_channel name bytes file = ''<'' @ name @ CHR '' '' # v"
  proof (cases "utf8_valid bytes")
    case False
    then show ?thesis using calculation by (simp add: render_channel_def)
  next
    case valid: True
    then show ?thesis using True calculation
      by (simp add: render_channel_def channel_needs_output_file_def push_attribute_def)
  qed
  ultimately show ?thesis using True by auto
next
  case False
  then show ?thesis by (auto simp: render_channel_def channel_needs_output_file_def)
qed

end
