(* ===== verification/Reply_Cancellation.thy ===== *)
theory Reply_Cancellation
  imports Streaming Script_Protocol
begin

text \<open>
  The end of a reply that is not completed (crates/kraai-agent, manager/streaming.rs and
  manager/sessions.rs): cancelling keeps what the model has said, call_answered every script call of it and
  marks it complete, or rolls the turn back when nothing was said; recovery after a crash rolls an
  unfinished reply back and finishes a cancellation that was cut short. The caller holds the turn's
  lease and the persistence lock, so the operations of one call find the store as the one before left
  it; \<open>fault i\<close> is the error the \<open>i\<close>-th of the writes fails with for a reason outside the store, such as
  a full disk. Walks over the message graph have fuel; \<open>None\<close> is that it ran out.
\<close>

section \<open>Skipped calls\<close>

definition skipped_call_diagnostic :: string where
  "skipped_call_diagnostic = ''Not executed: only the first script call of a response runs. Send this script again in its own response if it is still needed.''"

definition cancelled_outcome :: script_execution_outcome where
  "cancelled_outcome = \<lparr>outcome_status = Cancelled, outcome_exit_code = None\<rparr>"

definition skipped_output :: string where
  "skipped_output = render_tool_call_result
     \<lparr>view_status = Cancelled, view_exit_code = None, view_elapsed_millis = None, view_stdout = [], view_stderr = [],
      view_diagnostic = Some skipped_call_diagnostic, view_stdout_file = None, view_stderr_file = None,
      view_sandbox_blocked = None, view_rewrites = []\<rparr>"

definition result_request :: "string \<Rightarrow> string \<Rightarrow> string \<Rightarrow> string option \<Rightarrow> append_message_request" where
  "result_request s call output profile =
     \<lparr>req_session_id = s, req_content = ScriptResult call (content_of_text output) cancelled_outcome,
      req_status = MessageComplete, req_agent_profile_id = profile, req_generation = None,
      title_if_first_message = None\<rparr>"

text \<open>The response a script result belongs to: the nearest ancestor that is no script result.\<close>

fun find_response :: "nat \<Rightarrow> database \<Rightarrow> string option \<Rightarrow> (store_error, message option) result option" where
  "find_response 0 db parent = None"
| "find_response (Suc n) db None = Some (Inr None)"
| "find_response (Suc n) db (Some k) =
     (case read_message db k of
        Inl e \<Rightarrow> Some (Inl e)
      | Inr None \<Rightarrow> Some (Inr None)
      | Inr (Some m) \<Rightarrow>
          (case message_content m of
             ScriptResult _ _ _ \<Rightarrow> find_response n db (parent_id m)
           | AssistantItems _ \<Rightarrow> Some (Inr (Some m))
           | _ \<Rightarrow> Some (Inr None)))"

definition skipped_id :: "message \<Rightarrow> nat \<Rightarrow> string" where
  "skipped_id m index = message_id m @ ''-skipped-'' @ nat_digits index"

fun answer_each ::
  "nat \<Rightarrow> lease_tokens \<Rightarrow> nat \<Rightarrow> string \<Rightarrow> message \<Rightarrow> string \<Rightarrow> nat \<Rightarrow> assistant_item list \<Rightarrow> database
     \<Rightarrow> ((store_error, unit) result \<times> database) option" where
  "answer_each n leases now s m answered index [] db = Some (Inr (), db)"
| "answer_each n leases now s m answered index (ScriptCallItem call # items) db =
     (if call_id call = answered then answer_each n leases now s m answered (Suc index) items db
      else (case append_idempotent_message n db db leases now (skipped_id m index)
                   (result_request s (call_id call) skipped_output (agent_profile_id m)) of
              None \<Rightarrow> None
            | Some (Inl e, db) \<Rightarrow> Some (Inl e, db)
            | Some (Inr _, db) \<Rightarrow> answer_each n leases now s m answered (Suc index) items db))"
| "answer_each n leases now s m answered index (_ # items) db =
     answer_each n leases now s m answered (Suc index) items db"

definition answer_skipped_calls ::
  "nat \<Rightarrow> database \<Rightarrow> lease_tokens \<Rightarrow> nat \<Rightarrow> string \<Rightarrow> message \<Rightarrow> ((store_error, unit) result \<times> database) option" where
  "answer_skipped_calls n db leases now s m = (case message_content m of
     ScriptResult answered _ _ \<Rightarrow>
       (case find_response n db (parent_id m) of
          None \<Rightarrow> None
        | Some (Inl e) \<Rightarrow> Some (Inl e, db)
        | Some (Inr None) \<Rightarrow> Some (Inr (), db)
        | Some (Inr (Some response)) \<Rightarrow>
            (case assistant_items (message_content response) of
               None \<Rightarrow> Some (Inr (), db)
             | Some items \<Rightarrow> answer_each n leases now s m answered 0 items db))
   | _ \<Rightarrow> Some (Inr (), db))"

section \<open>Cancelling\<close>

record cancelled_stream_result =
  cancelled_session_id :: string
  cancelled_message_id :: string
  cancelled_persisted :: bool

fun is_reasoning :: "assistant_item \<Rightarrow> bool" where
  "is_reasoning (Reasoning _ _) = True"
| "is_reasoning _ = False"

fun item_call_id :: "assistant_item \<Rightarrow> string option" where
  "item_call_id (ScriptCallItem call) = Some (call_id call)"
| "item_call_id _ = None"

definition said_something :: "message \<Rightarrow> bool" where
  "said_something m = (case assistant_items (message_content m) of
     None \<Rightarrow> False | Some items \<Rightarrow> list_ex (\<lambda>item. \<not> is_reasoning item) items)"

definition first_call_id :: "message \<Rightarrow> string option" where
  "first_call_id m = (case assistant_items (message_content m) of
     None \<Rightarrow> None
   | Some items \<Rightarrow> (case List.map_filter item_call_id items of [] \<Rightarrow> None | c # _ \<Rightarrow> Some c))"

definition save_unless ::
  "store_error option \<Rightarrow> database \<Rightarrow> lease_tokens \<Rightarrow> message \<Rightarrow> (store_error, database) result" where
  "save_unless fault db leases m = (case fault of Some e \<Rightarrow> Inl e | None \<Rightarrow> message_save db leases m)"

definition cancel_answers ::
  "nat \<Rightarrow> (nat \<Rightarrow> store_error option) \<Rightarrow> database \<Rightarrow> lease_tokens \<Rightarrow> nat \<Rightarrow> streaming_state \<Rightarrow> string \<Rightarrow> string
     \<Rightarrow> string \<Rightarrow> ((store_error, unit) result \<times> streaming_state \<times> database) option" where
  "cancel_answers n fault db leases now st call fresh output =
     (case save_unless (fault 0) db leases (ss_message st) of
        Inl e \<Rightarrow> Some (Inl e, st, db)
      | Inr db \<Rightarrow>
          (let result_id = (case cancellation_result_id st of Some r \<Rightarrow> r | None \<Rightarrow> fresh);
               st = st\<lparr>cancellation_result_id := Some result_id\<rparr>
           in case (case fault 1 of
                      Some e \<Rightarrow> Some (Inl e, db)
                    | None \<Rightarrow> append_idempotent_message n db db leases now result_id
                        (result_request (ss_session_id st) call output (agent_profile_id (ss_message st)))) of
                None \<Rightarrow> None
              | Some (Inl e, db) \<Rightarrow> Some (Inl e, st, db)
              | Some (Inr appended, db) \<Rightarrow>
                  map_option (\<lambda>(r, db). (r, st, db))
                    (answer_skipped_calls n db leases now (ss_session_id st) (outcome_message appended))))"

definition cancel_streaming_message ::
  "nat \<Rightarrow> (nat \<Rightarrow> store_error option) \<Rightarrow> database \<Rightarrow> lease_tokens \<Rightarrow> nat \<Rightarrow> streams \<Rightarrow> string \<Rightarrow> string \<Rightarrow> string
     \<Rightarrow> ((store_error, cancelled_stream_result option) result \<times> streams \<times> database) option" where
  "cancel_streaming_message n fault db leases now streams k fresh output = (case bt_get streams k of
     None \<Rightarrow> Some (Inr None, streams, db)
   | Some st \<Rightarrow>
       let ended = (\<lambda>persisted. Inr (Some \<lparr>cancelled_session_id = ss_session_id st, cancelled_message_id = k,
                     cancelled_persisted = persisted\<rparr>));
           keep = (\<lambda>st. bt_update k (\<lambda>_. st) streams)
       in if said_something (ss_message st) then
            (case (case first_call_id (ss_message st) of
                     None \<Rightarrow> Some (Inr (), st, db)
                   | Some call \<Rightarrow> cancel_answers n fault db leases now st call fresh output) of
               None \<Rightarrow> None
             | Some (Inl e, st', db) \<Rightarrow> Some (Inl e, keep st', db)
             | Some (Inr _, st', db) \<Rightarrow>
                 (case save_unless (fault 2) db leases ((ss_message st')\<lparr>message_status := MessageComplete\<rparr>) of
                    Inl e \<Rightarrow> Some (Inl e, keep st', db)
                  | Inr db \<Rightarrow> Some (ended True, bt_remove k streams, db)))
          else
            (case restore_message db db leases now (ss_session_id st) k (ss_previous_tip st) (ss_previous_title st) of
               (Inl e, db) \<Rightarrow> Some (Inl e, streams, db)
             | (Inr _, db) \<Rightarrow> Some (ended False, bt_remove k streams, db)))"

fun abort_each ::
  "lease_tokens \<Rightarrow> nat \<Rightarrow> string list \<Rightarrow> streams \<Rightarrow> database \<Rightarrow> (store_error, unit) result \<times> streams \<times> database" where
  "abort_each leases now [] streams db = (Inr (), streams, db)"
| "abort_each leases now (k # ks) streams db =
     (case abort_streaming_message db db leases now streams k of
        (Inl e, streams, db) \<Rightarrow> (Inl e, streams, db)
      | (Inr _, streams, db) \<Rightarrow> abort_each leases now ks streams db)"

definition abort_streaming_messages_for_session ::
  "database \<Rightarrow> lease_tokens \<Rightarrow> nat \<Rightarrow> streams \<Rightarrow> string \<Rightarrow> (store_error, unit) result \<times> streams \<times> database" where
  "abort_streaming_messages_for_session db leases now streams s =
     abort_each leases now (map fst (filter (\<lambda>(_, st). ss_session_id st = s) streams)) streams db"

section \<open>Recovery\<close>

text \<open>For a script result at the tip, the first result of its response and the message that made its call.\<close>

fun answered_response ::
  "nat \<Rightarrow> database \<Rightarrow> message \<Rightarrow> (store_error, (message \<times> message) option) result option" where
  "answered_response 0 db m = None"
| "answered_response (Suc n) db m = (case message_content m of
     ScriptResult call _ _ \<Rightarrow>
       (case parent_id m of
          None \<Rightarrow> Some (Inr None)
        | Some k \<Rightarrow>
            (case read_message db k of
               Inl e \<Rightarrow> Some (Inl e)
             | Inr None \<Rightarrow> Some (Inr None)
             | Inr (Some p) \<Rightarrow>
                 (case message_content p of
                    AssistantItems items \<Rightarrow>
                      if list_ex (is_call call) items then Some (Inr (Some (m, p))) else Some (Inr None)
                  | ScriptResult _ _ _ \<Rightarrow> answered_response n db p
                  | _ \<Rightarrow> Some (Inr None))))
   | _ \<Rightarrow> Some (Inr None))"

definition finish_cancellation ::
  "nat \<Rightarrow> database \<Rightarrow> lease_tokens \<Rightarrow> nat \<Rightarrow> string \<Rightarrow> message \<Rightarrow> ((store_error, unit) result \<times> database) option" where
  "finish_cancellation n db leases now s tip =
     (if message_status tip \<noteq> MessageComplete then Some (Inr (), db)
      else (case answered_response n db tip of
              None \<Rightarrow> None
            | Some (Inl e) \<Rightarrow> Some (Inl e, db)
            | Some (Inr None) \<Rightarrow> Some (Inr (), db)
            | Some (Inr (Some (first_result, p))) \<Rightarrow>
                (case (if is_streaming (message_status p) then message_save db leases (p\<lparr>message_status := MessageComplete\<rparr>)
                       else Inr db) of
                   Inl e \<Rightarrow> Some (Inl e, db)
                 | Inr db \<Rightarrow> answer_skipped_calls n db leases now s first_result)))"

definition recover_interrupted_stream ::
  "nat \<Rightarrow> database \<Rightarrow> lease_tokens \<Rightarrow> nat \<Rightarrow> streams \<Rightarrow> session_meta
     \<Rightarrow> ((store_error, session_meta) result \<times> database) option" where
  "recover_interrupted_stream n db leases now streams session =
     (let s = meta_id session in
      if \<not> owns_turn db leases s \<or> session_has_active_stream streams s then Some (Inr session, db)
      else (case tip_id session of
        None \<Rightarrow> Some (Inr session, db)
      | Some k \<Rightarrow>
          (case read_message db k of
             Inl e \<Rightarrow> Some (Inl e, db)
           | Inr None \<Rightarrow> Some (Inr session, db)
           | Inr (Some tip) \<Rightarrow>
               (case finish_cancellation n db leases now s tip of
                  None \<Rightarrow> None
                | Some (Inl e, db) \<Rightarrow> Some (Inl e, db)
                | Some (Inr _, db) \<Rightarrow>
                    if \<not> is_streaming (message_status tip) then Some (Inr session, db)
                    else Some (case restore_message db db leases now s k (parent_id tip) (title session) of
                           (Inl e, db) \<Rightarrow> (Inl e, db)
                         | (Inr _, db) \<Rightarrow> (Inr (session\<lparr>tip_id := parent_id tip\<rparr>), db))))))"

definition require_session :: "database \<Rightarrow> string \<Rightarrow> (store_error, session_meta) result" where
  "require_session db s = ok_or (session_get db s) (Domain (not_found (''Session not found: '' @ s)))"

definition recover_interrupted_session ::
  "nat \<Rightarrow> database \<Rightarrow> lease_tokens \<Rightarrow> nat \<Rightarrow> streams \<Rightarrow> string \<Rightarrow> ((store_error, unit) result \<times> database) option" where
  "recover_interrupted_session n db leases now streams s = (case require_session db s of
     Inl e \<Rightarrow> Some (Inl e, db)
   | Inr session \<Rightarrow> map_option (\<lambda>(r, db). (bindR r (\<lambda>_. Inr ()), db))
       (recover_interrupted_stream n db leases now streams session))"

section \<open>What appending keeps\<close>

lemma append_idempotent_keeps:
  assumes "append_idempotent_message n db db leases now k request = Some (Inr out, db')"
  shows "read_message db j = Inr (Some e) \<Longrightarrow> read_message db' j = Inr (Some e)"
    "read_message db' k = Inr (Some (outcome_message out))"
    "message_content (outcome_message out) = req_content request"
proof -
  have "(read_message db j = Inr (Some e) \<longrightarrow> read_message db' j = Inr (Some e))
    \<and> read_message db' k = Inr (Some (outcome_message out)) \<and> message_content (outcome_message out) = req_content request"
    using assms
  proof (cases rule: append_idempotent_cases)
    case (fresh session)
    then show ?thesis
      using append_one(1)[OF fresh(4), of k] append_one(1)[OF fresh(4), of j] by (auto simp: requested_message_def)
  next
    case (there session)
    then show ?thesis by (auto simp: validate_idempotent_message_def result_simps)
  next
    case (linked session)
    have "read_message db' j = read_message db j" for j
      using read_message_cong[of "save_session db (session\<lparr>tip_id := Some k, updated_at := now\<rparr>)" db j]
      unfolding linked(4) read_message_adopted by simp
    then show ?thesis using linked(1,2) by (auto simp: validate_idempotent_message_def result_simps)
  qed
  then show "read_message db j = Inr (Some e) \<Longrightarrow> read_message db' j = Inr (Some e)"
    "read_message db' k = Inr (Some (outcome_message out))"
    "message_content (outcome_message out) = req_content request" by blast+
qed

definition call_answered :: "database \<Rightarrow> string \<Rightarrow> bool" where
  "call_answered db call = (\<exists>j r output. read_message db j = Inr (Some r) \<and> message_content r = ScriptResult call output cancelled_outcome)"

lemma answers_mono:
  "(\<And>j e. read_message db j = Inr (Some e) \<Longrightarrow> read_message db' j = Inr (Some e)) \<Longrightarrow> call_answered db call \<Longrightarrow> call_answered db' call"
  unfolding call_answered_def by blast

lemma append_result_answers:
  "append_idempotent_message n db db leases now k (result_request s call output profile) = Some (Inr out, db') \<Longrightarrow> call_answered db' call"
  using append_idempotent_keeps(2,3) unfolding call_answered_def by (fastforce simp: result_request_def)

lemma answer_each_answers:
  assumes "answer_each n leases now s m answered index items db = Some (Inr (), db')"
  shows "(\<forall>j e. read_message db j = Inr (Some e) \<longrightarrow> read_message db' j = Inr (Some e))
    \<and> (\<forall>call. ScriptCallItem call \<in> set items \<longrightarrow> call_id call = answered \<or> call_answered db' (call_id call))"
  using assms
proof (induction n leases now s m answered index items db rule: answer_each.induct)
  case (2 n leases now s m answered index call items db)
  show ?case
  proof (cases "call_id call = answered")
    case False
    then obtain out db1 where out: "append_idempotent_message n db db leases now (skipped_id m index)
          (result_request s (call_id call) skipped_output (agent_profile_id m)) = Some (Inr out, db1)"
        "answer_each n leases now s m answered (Suc index) items db1 = Some (Inr (), db')"
      using "2.prems" by (auto split: option.splits sum.splits)
    have IH: "\<forall>j e. read_message db1 j = Inr (Some e) \<longrightarrow> read_message db' j = Inr (Some e)"
      "\<forall>call. ScriptCallItem call \<in> set items \<longrightarrow> call_id call = answered \<or> call_answered db' (call_id call)"
      using "2.IH"(2)[OF False out(1) refl refl out(2)] by blast+
    have "call_answered db1 (call_id call)" by (rule append_result_answers[OF out(1)])
    then have "call_answered db' (call_id call)" using answers_mono[of db1 db'] IH(1) by blast
    then show ?thesis using IH append_idempotent_keeps(1)[OF out(1)] by auto
  qed (use 2 in auto)
qed auto

lemma bump_row_data:
  "map_option row_data (bt_get (sessions (bump_revision d u)) t) = map_option row_data (bt_get (sessions d) t)"
  by (cases "bt_get (sessions d) u") (auto simp: bump_revision_get)

lemma write_message_tip:
  assumes "write_message_record db leases kind k assoc v = Inr db'"
  shows "map_option tip_id (read_session db' t) = map_option tip_id (read_session db t)"
proof -
  obtain ss d where d: "db' = foldl (\<lambda>db s. if Some s \<noteq> assoc then bump_revision db s else db) d ss"
      "sessions d = sessions (write_record db kind k assoc v)"
    using assms by (auto simp: write_message_record_iff)
  have "map_option row_data (bt_get (sessions (foldl (\<lambda>db s. if Some s \<noteq> assoc then bump_revision db s else db) d ss)) t)
      = map_option row_data (bt_get (sessions d) t)" for d
    by (induction ss arbitrary: d) (simp_all add: bump_row_data)
  moreover have "map_option row_data (bt_get (sessions d) t) = map_option row_data (bt_get (sessions db) t)"
    unfolding d(2) by (cases assoc) (simp_all add: write_record_sessions bump_row_data)
  ultimately have "map_option row_data (bt_get (sessions db') t) = map_option row_data (bt_get (sessions db) t)"
    using d(1) by simp
  then have "map_option (tip_id \<circ> row_data) (bt_get (sessions db') t) = map_option (tip_id \<circ> row_data) (bt_get (sessions db) t)"
    by (metis option.map_comp)
  then show ?thesis by (simp add: read_session_def option.map_comp comp_def)
qed

lemma message_save_writes:
  assumes "message_save db leases m = Inr db'"
  shows "\<exists>assoc. write_message_record db leases ''message'' (message_id m) assoc (MessageRecord m) = Inr db'"
  using assms by (auto simp: message_save_def result_simps Let_def)

lemma message_saved:
  assumes "message_save db leases m = Inr db'"
  shows "read_message db' j = (if j = message_id m then Inr (Some m) else read_message db j)"
    "map_option tip_id (read_session db' t) = map_option tip_id (read_session db t)"
  using message_save_writes[OF assms] read_message_written write_message_tip by blast+

section \<open>Properties\<close>

lemma cancel_answers_all:
  assumes "cancel_answers n fault db leases now st call fresh output = Some (Inr (), st', db')"
    "cancellation_result_id st = None" "read_message db fresh = Inr None" "fresh \<noteq> message_id (ss_message st)"
    "\<exists>session. read_session db (ss_session_id st) = Some session \<and> tip_id session = Some (message_id (ss_message st))"
    "message_content (ss_message st) = AssistantItems items"
  shows "ss_message st' = ss_message st"
    "read_message db' (message_id (ss_message st)) = Inr (Some (ss_message st))"
    "ScriptCallItem c \<in> set items \<Longrightarrow> call_answered db' (call_id c)"
proof -
  let ?k = "message_id (ss_message st)"
  obtain db1 out db2 where step: "message_save db leases (ss_message st) = Inr db1"
      "append_idempotent_message n db1 db1 leases now fresh
         (result_request (ss_session_id st) call output (agent_profile_id (ss_message st))) = Some (Inr out, db2)"
      "answer_skipped_calls n db2 leases now (ss_session_id st) (outcome_message out) = Some (Inr (), db')"
      "st' = st\<lparr>cancellation_result_id := Some fresh\<rparr>"
    using assms(1,2) by (auto simp: cancel_answers_def save_unless_def Let_def split: option.splits sum.splits)
  show "ss_message st' = ss_message st" using step(4) by simp
  note saved = message_saved[OF step(1)] and kept = append_idempotent_keeps[OF step(2)]
  have k2: "read_message db2 ?k = Inr (Some (ss_message st))" using kept(1)[of ?k] saved(1)[of ?k] by simp
  have tip: "map_option tip_id (read_session db1 (ss_session_id st)) = Some (Some ?k)"
    using assms(5) saved(2)[of "ss_session_id st"] by auto
  have out: "outcome_message out = requested_message fresh (Some ?k)
      (result_request (ss_session_id st) call output (agent_profile_id (ss_message st)))"
    using step(2)
  proof (cases rule: append_idempotent_cases)
    case (fresh session)
    then show ?thesis using tip by (auto simp: result_request_def)
  qed (use saved(1)[of fresh] assms(3,4) in auto)
  then have "find_response n db2 (parent_id (outcome_message out)) = None
      \<or> find_response n db2 (parent_id (outcome_message out)) = Some (Inr (Some (ss_message st)))"
    using k2 assms(6) by (cases n) (simp_all add: requested_message_def)
  then have each: "answer_each n leases now (ss_session_id st) (outcome_message out) call 0 items db2 = Some (Inr (), db')"
    using step(3) out assms(6)
    by (auto simp: answer_skipped_calls_def requested_message_def result_request_def split: option.splits)
  note final = answer_each_answers[OF each]
  show "read_message db' ?k = Inr (Some (ss_message st))" using final k2 by blast
  have "call_answered db' call" using answers_mono[of db2 db'] final append_result_answers[OF step(2)] by blast
  then show "call_answered db' (call_id c)" if "ScriptCallItem c \<in> set items" using final that by blast
qed

lemma cancelled_reply:
  assumes "cancel_streaming_message n fault db leases now streams k fresh output = Some (Inr out, streams', db')"
    "bt_get streams k = Some st" "message_id (ss_message st) = k" "said_something (ss_message st)"
    "message_content (ss_message st) = AssistantItems items"
    "cancellation_result_id st = None" "read_message db fresh = Inr None" "fresh \<noteq> k"
    "\<exists>session. read_session db (ss_session_id st) = Some session \<and> tip_id session = Some k"
  shows "read_message db' k = Inr (Some ((ss_message st)\<lparr>message_status := MessageComplete\<rparr>))
    \<and> bt_get streams' k = None
    \<and> (\<forall>c. ScriptCallItem c \<in> set items \<longrightarrow> call_answered db' (call_id c))"
proof -
  obtain st' db1 where run: "(case first_call_id (ss_message st) of None \<Rightarrow> Some (Inr (), st, db)
        | Some call \<Rightarrow> cancel_answers n fault db leases now st call fresh output) = Some (Inr (), st', db1)"
      "message_save db1 leases ((ss_message st')\<lparr>message_status := MessageComplete\<rparr>) = Inr db'" "streams' = bt_remove k streams"
    using assms(1,2,4)
    by (auto simp: cancel_streaming_message_def Let_def save_unless_def split: option.splits sum.splits prod.splits)
  note saved = message_saved(1)[OF run(2)]
  show ?thesis
  proof (cases "first_call_id (ss_message st)")
    case None
    then have "\<forall>c. ScriptCallItem c \<notin> set items"
      using assms(5) by (auto simp: first_call_id_def List.map_filter_def filter_empty_conv split: list.splits dest!: bspec)
    then show ?thesis using run None saved[of k] assms(3) by auto
  next
    case (Some call)
    then have "cancel_answers n fault db leases now st call fresh output = Some (Inr (), st', db1)" using run(1) by simp
    note all = cancel_answers_all[OF this assms(6,7) _ _ assms(5)]
    have st': "ss_message st' = ss_message st" "read_message db1 k = Inr (Some (ss_message st))"
      "ScriptCallItem c \<in> set items \<Longrightarrow> call_answered db1 (call_id c)" for c
      using all assms(3,8,9) by simp_all
    have "call_answered db' call" if answered: "call_answered db1 call" for call
    proof -
      obtain j r text_out where a: "read_message db1 j = Inr (Some r)" "message_content r = ScriptResult call text_out cancelled_outcome"
        using answered unfolding call_answered_def by blast
      then have "j \<noteq> k" using st'(2) assms(5) by auto
      then have "read_message db' j = Inr (Some r)" using saved[of j] st'(1) assms(3) a(1) by simp
      then show ?thesis using a(2) unfolding call_answered_def by blast
    qed
    then show ?thesis using st' saved[of k] run(3) assms(3) by simp
  qed
qed

lemma answer_each_ends:
  "card (set (message_ids db)) + length items < n \<Longrightarrow> \<exists>r. answer_each n leases now s m answered index items db = Some r"
proof (induction n leases now s m answered index items db rule: answer_each.induct)
  case (2 n leases now s m answered index call items db)
  show ?case
  proof (cases "call_id call = answered")
    case True
    then show ?thesis using 2 by simp
  next
    case False
    let ?req = "result_request s (call_id call) skipped_output (agent_profile_id m)"
    obtain r db1 where r: "append_idempotent_message n db db leases now (skipped_id m index) ?req = Some (r, db1)"
      using append_idempotent_ends[of db n db leases now "skipped_id m index" ?req] "2.prems" by auto
    show ?thesis
    proof (cases r)
      case (Inr out)
      then have "card (set (message_ids db1)) + length items < n"
        using card_appended_message[of n db leases now "skipped_id m index" ?req out db1] r "2.prems" by simp
      then show ?thesis using "2.IH"(2)[OF False r refl Inr] False r Inr by simp
    qed (use False r in simp)
  qed
qed auto

lemma cancel_answers_ends:
  assumes "length (message_ids db) + length items + 2 < n" "cancellation_result_id st = None"
    "read_message db fresh = Inr None" "fresh \<noteq> message_id (ss_message st)"
    "\<exists>session. read_session db (ss_session_id st) = Some session \<and> tip_id session = Some (message_id (ss_message st))"
    "message_content (ss_message st) = AssistantItems items"
  shows "\<exists>r st' db'. cancel_answers n fault db leases now st call fresh output = Some (r, st', db') \<and> ss_message st' = ss_message st"
proof (cases "save_unless (fault 0) db leases (ss_message st)")
  case (Inr db1)
  let ?req = "result_request (ss_session_id st) call output (agent_profile_id (ss_message st))"
  have save: "message_save db leases (ss_message st) = Inr db1" using Inr by (auto simp: save_unless_def split: option.splits)
  have "card (set (message_ids db1)) \<le> Suc (card (set (message_ids db)))"
    using message_save_writes[OF save] card_written_message by blast
  then have card1: "card (set (message_ids db1)) + length items + 1 < n"
    using assms(1) card_length[of "message_ids db"] by linarith
  obtain r1 db2 where app: "append_idempotent_message n db1 db1 leases now fresh ?req = Some (r1, db2)"
    using append_idempotent_ends[of db1 n db1 leases now fresh ?req] card1 by auto
  show ?thesis
  proof (cases "\<exists>out. r1 = Inr out \<and> fault 1 = None")
    case False
    then show ?thesis
      using Inr app assms(2) by (cases r1) (auto simp: cancel_answers_def Let_def split: option.split)
  next
    case True
    then obtain out where out: "r1 = Inr out" "fault 1 = None" by blast
    note saved = message_saved[OF save]
    have "outcome_message out = requested_message fresh (Some (message_id (ss_message st))) ?req"
      using app[unfolded out(1)]
    proof (cases rule: append_idempotent_cases)
      case (fresh session)
      then show ?thesis using assms(5) saved(2)[of "ss_session_id st"] by (auto simp: result_request_def)
    qed (use saved(1)[of fresh] assms(3,4) in auto)
    moreover have "read_message db2 (message_id (ss_message st)) = Inr (Some (ss_message st))"
      using append_idempotent_keeps(1)[OF app[unfolded out(1)]] saved(1) by simp
    ultimately have "\<exists>m. m = outcome_message out \<and> message_content m = ScriptResult call (content_of_text output) cancelled_outcome
        \<and> find_response n db2 (parent_id m) = Some (Inr (Some (ss_message st)))"
      using card1 assms(6) by (cases n) (simp_all add: requested_message_def result_request_def)
    moreover have "card (set (message_ids db2)) + length items < n"
      using card_appended_message[OF app[unfolded out(1)]] card1 by linarith
    ultimately have "\<exists>r db3. answer_skipped_calls n db2 leases now (ss_session_id st) (outcome_message out) = Some (r, db3)"
      using answer_each_ends[of db2 items n leases now "ss_session_id st" "outcome_message out" call 0] assms(6)
      by (auto simp: answer_skipped_calls_def)
    then show ?thesis using Inr app out assms(2) by (auto simp: cancel_answers_def Let_def)
  qed
qed (simp add: cancel_answers_def)

text \<open>C10. A cancelled reply is kept whole and leaves no call open: the first cancellation of a
  reply that said something, which is the newest message of its session, always returns, and when it succeeds, the message is stored as it stands in memory and marked
  complete, the stream is gone, and every script call it made has a result somewhere in the store that
  says it was cancelled.
  When it fails, wherever that is, the stream is still there with its message, to be cancelled again.
  As many turns of each walk as there are messages stored and calls made, and three, are enough.\<close>

theorem cancelled_reply_answers_calls:
  assumes "bt_get streams k = Some st" "message_id (ss_message st) = k" "said_something (ss_message st)"
    "message_content (ss_message st) = AssistantItems items"
    "cancellation_result_id st = None" "read_message db fresh = Inr None" "fresh \<noteq> k"
    "\<exists>session. read_session db (ss_session_id st) = Some session \<and> tip_id session = Some k"
    "length (message_ids db) + length items + 2 < n"
  shows "\<exists>out streams' db'. cancel_streaming_message n fault db leases now streams k fresh output = Some (out, streams', db')
    \<and> (case out of
          Inl _ \<Rightarrow> \<exists>st'. bt_get streams' k = Some st' \<and> ss_message st' = ss_message st
        | Inr _ \<Rightarrow> read_message db' k = Inr (Some ((ss_message st)\<lparr>message_status := MessageComplete\<rparr>))
            \<and> bt_get streams' k = None
            \<and> (\<forall>c. ScriptCallItem c \<in> set items \<longrightarrow> call_answered db' (call_id c)))"
proof -
  let ?run = "case first_call_id (ss_message st) of None \<Rightarrow> Some (Inr (), st, db)
      | Some call \<Rightarrow> cancel_answers n fault db leases now st call fresh output"
  obtain r st' db1 where run: "?run = Some (r, st', db1)" "ss_message st' = ss_message st"
  proof (cases "first_call_id (ss_message st)")
    case (Some call)
    show ?thesis
      using cancel_answers_ends[OF assms(9,5,6) _ _ assms(4), where fault = fault and leases = leases and now = now and call = call] assms(2,7,8) Some that by auto
  qed (use that in auto)
  then obtain out streams' db' where c: "cancel_streaming_message n fault db leases now streams k fresh output = Some (out, streams', db')"
      "\<And>e. out = Inl e \<Longrightarrow> streams' = bt_update k (\<lambda>_. st') streams"
    using assms(1,3) by (cases r; cases "save_unless (fault 2) db1 leases ((ss_message st)\<lparr>message_status := MessageComplete\<rparr>)")
      (auto simp: cancel_streaming_message_def Let_def)
  show ?thesis
  proof (cases out)
    case (Inl e)
    then show ?thesis using c assms(1) run(2) by (auto simp: bt_get_update)
  next
    case (Inr o')
    then show ?thesis using cancelled_reply[OF c(1)[unfolded Inr] assms(1-8)] c(1) by auto
  qed
qed

definition cancel_db :: database where
  "cancel_db = stream_db\<lparr>sessions := [(''s'', \<lparr>row_data = (sample_meta ''s'')\<lparr>tip_id := Some ''m''\<rparr>, row_tip = Some ''m'',
     revision = 1, metadata_revision = 1, lease_active = False, lease_expires_at = 0, lease_token = 0, turn_timer = None\<rparr>)]\<rparr>"

definition sample_call :: "string \<Rightarrow> script_call" where
  "sample_call c = \<lparr>call_id = c, call_name = ''nu'', call_input = ''ls'', arguments_error = None, call_rewrite = None\<rparr>"

definition cancel_state :: streaming_state where
  "cancel_state = \<lparr>ss_session_id = ''s'', ss_previous_tip = None, ss_previous_title = None,
     ss_message = sample_stream\<lparr>message_content := AssistantItems [ScriptCallItem (sample_call ''a''), ScriptCallItem (sample_call ''b'')]\<rparr>,
     cancellation_result_id = None, text_item_ids = Map.empty,
     pending_deltas = [DeltaItem (ScriptCallItem (sample_call ''a'')), DeltaItem (ScriptCallItem (sample_call ''b''))],
     first_pending_sequence = 0, sealed_deltas = 0, request_started_at = 7, ss_unpriced_attempts = 0,
     reissued_attempts = 0, ss_subscription = False\<rparr>"

theorem cancelled_reply_answers_calls_witness:
  "\<exists>streams' db'. cancel_streaming_message 6 (\<lambda>_. None) cancel_db [] 5 [(''m'', cancel_state)] ''m'' ''r'' ''x''
      = Some (Inr (Some \<lparr>cancelled_session_id = ''s'', cancelled_message_id = ''m'', cancelled_persisted = True\<rparr>), streams', db')
    \<and> call_answered db' ''a'' \<and> call_answered db' ''b''"
proof -
  let ?items = "[ScriptCallItem (sample_call ''a''), ScriptCallItem (sample_call ''b'')]"
  have ok: "case cancel_streaming_message 6 (\<lambda>_. None) cancel_db [] 5 [(''m'', cancel_state)] ''m'' ''r'' ''x'' of
      Some (Inr out, _, _) \<Rightarrow> out = Some \<lparr>cancelled_session_id = ''s'', cancelled_message_id = ''m'', cancelled_persisted = True\<rparr>
    | _ \<Rightarrow> False"
    by code_simp
  have "read_message cancel_db ''r'' = Inr None" "length (message_ids cancel_db) = 1"
    "\<exists>session. read_session cancel_db ''s'' = Some session \<and> tip_id session = Some ''m''"
    by (simp_all add: read_message_def read_record_def cancel_db_def stream_db_def empty_database_def message_ids_def
        read_session_def)
  then obtain out streams' db' where run: "cancel_streaming_message 6 (\<lambda>_. None) cancel_db [] 5 [(''m'', cancel_state)] ''m'' ''r'' ''x'' = Some (out, streams', db')"
    "case out of
          Inl _ \<Rightarrow> \<exists>st'. bt_get streams' ''m'' = Some st' \<and> ss_message st' = ss_message cancel_state
        | Inr _ \<Rightarrow> read_message db' ''m'' = Inr (Some ((ss_message cancel_state)\<lparr>message_status := MessageComplete\<rparr>))
            \<and> bt_get streams' ''m'' = None
            \<and> (\<forall>c. ScriptCallItem c \<in> set ?items \<longrightarrow> call_answered db' (call_id c))"
    using cancelled_reply_answers_calls[of "[(''m'', cancel_state)]" "''m''" cancel_state ?items cancel_db "''r''" 6 "\<lambda>_. None" "[]" 5 "''x''"]
    by (auto simp: cancel_state_def sample_stream_def said_something_def)
  then obtain o' where "out = Inr o'" using ok by (cases out) auto
  then show ?thesis using ok run by (auto simp: sample_call_def)
qed

lemma answered_response_found:
  "answered_response n db m = Some (Inr (Some (r, p))) \<Longrightarrow>
     \<exists>k call output outcome items. message_content r = ScriptResult call output outcome \<and> parent_id r = Some k
       \<and> read_message db k = Inr (Some p) \<and> message_content p = AssistantItems items \<and> list_ex (is_call call) items"
proof (induction n db m rule: answered_response.induct)
  case (2 n db m)
  then show ?case
    by (auto split: conversation_item.splits option.splits sum.splits if_splits)
qed simp

text \<open>On a forest the walk to the response ends: each turn leaves one ancestor fewer.\<close>

definition message_ancestors :: "database \<Rightarrow> string \<Rightarrow> string set" where
  "message_ancestors db k = (parents db)\<^sup>+ `` {k}"

lemma message_ancestors_bound: "finite (message_ancestors db k)" "card (message_ancestors db k) \<le> length (message_ids db)"
proof -
  have sub: "message_ancestors db k \<subseteq> snd ` parents db"
    by (auto simp: message_ancestors_def dest!: tranclD2) (metis imageI snd_conv)
  then show "finite (message_ancestors db k)" by (rule finite_subset) (simp add: parents_bound(1))
  have "card (message_ancestors db k) \<le> card (snd ` parents db)"
    using sub parents_bound(1) by (intro card_mono) auto
  also have "\<dots> \<le> card (parents db)" by (rule card_image_le) (rule parents_bound(1))
  finally show "card (message_ancestors db k) \<le> length (message_ids db)" using parents_bound(2) by (rule le_trans)
qed

lemma parent_ancestors:
  assumes "acyclic (parents db)" "parent_of db j = Some k"
  shows "card (message_ancestors db k) < card (message_ancestors db j)"
proof (rule psubset_card_mono[OF message_ancestors_bound(1)])
  have p: "(j, k) \<in> parents db" using assms(2) by (simp add: parents_def)
  then have "message_ancestors db k \<subseteq> message_ancestors db j"
    unfolding message_ancestors_def by (blast intro: trancl_into_trancl2)
  moreover have "k \<in> message_ancestors db j" using p by (auto simp: message_ancestors_def)
  moreover have "k \<notin> message_ancestors db k" using assms(1) by (auto simp: message_ancestors_def acyclic_def)
  ultimately show "message_ancestors db k \<subset> message_ancestors db j" by (simp only: psubset_eq) (metis)
qed

lemma answered_response_ends:
  assumes "db_wf db" "acyclic (parents db)" "parent_of db (message_id m) = parent_id m"
    "card (message_ancestors db (message_id m)) < n"
  shows "answered_response n db m \<noteq> None"
  using assms(3,4)
proof (induction n arbitrary: m)
  case (Suc n)
  have "answered_response n db p \<noteq> None"
    if p: "parent_id m = Some k" "read_message db k = Inr (Some p)" for k p
  proof (rule Suc.IH)
    have id: "message_id p = k" by (rule read_message_id[OF assms(1) p(2)])
    show "parent_of db (message_id p) = parent_id p" using read_message_parent[OF p(2)] id by simp
    show "card (message_ancestors db (message_id p)) < n"
      using parent_ancestors[OF assms(2), of "message_id m" k] Suc.prems p(1) id by simp
  qed
  then show ?case by (auto split: conversation_item.splits option.splits sum.splits)
qed simp

lemma finish_cancellation_answers:
  assumes "db_wf db" "message_status tip = MessageComplete"
    "answered_response n db tip = Some (Inr (Some (first_result, p)))"
    "finish_cancellation n db leases now s tip = Some (Inr (), db')"
  shows "\<exists>answered items p'. message_content p = AssistantItems items
    \<and> (\<exists>output outcome. message_content first_result = ScriptResult answered output outcome)
    \<and> read_message db' (message_id p) = Inr (Some p') \<and> message_content p' = AssistantItems items
    \<and> \<not> is_streaming (message_status p')
    \<and> (\<forall>c. ScriptCallItem c \<in> set items \<longrightarrow> call_id c = answered \<or> call_answered db' (call_id c))"
proof -
  obtain k call content outcome items where f: "message_content first_result = ScriptResult call content outcome"
      "parent_id first_result = Some k" "read_message db k = Inr (Some p)" "message_content p = AssistantItems items"
    using answered_response_found[OF assms(3)] by blast
  have k: "message_id p = k" using read_message_id[OF assms(1) f(3)] by simp
  obtain db1 where db1: "(if is_streaming (message_status p) then message_save db leases (p\<lparr>message_status := MessageComplete\<rparr>)
        else Inr db) = Inr db1" "answer_skipped_calls n db1 leases now s first_result = Some (Inr (), db')"
    using assms(2-4) by (auto simp: finish_cancellation_def split: sum.splits)
  obtain p' where p': "read_message db1 k = Inr (Some p')" "message_content p' = AssistantItems items" "\<not> is_streaming (message_status p')"
    using db1(1) f(3,4) k message_saved(1)[of db leases "p\<lparr>message_status := MessageComplete\<rparr>" db1 k] by (auto split: if_splits)
  have "answer_each n leases now s first_result call 0 items db1 = Some (Inr (), db')"
    using db1(2) f(1,2) p'(1,2) by (cases n) (simp_all add: answer_skipped_calls_def)
  from answer_each_answers[OF this] show ?thesis using f(1,4) p' k by blast
qed

lemma finish_cancellation_ends:
  assumes "db_wf db" "message_status tip = MessageComplete"
    "answered_response n db tip = Some (Inr (Some (first_result, p)))" "message_content p = AssistantItems items"
    "length (message_ids db) + length items + 1 < n"
  shows "\<exists>out db'. finish_cancellation n db leases now s tip = Some (out, db')"
proof -
  obtain k call content outcome where f: "message_content first_result = ScriptResult call content outcome"
      "parent_id first_result = Some k" "read_message db k = Inr (Some p)"
    using answered_response_found[OF assms(3)] by blast
  have k: "message_id p = k" using read_message_id[OF assms(1) f(3)] by simp
  show ?thesis
  proof (cases "if is_streaming (message_status p) then message_save db leases (p\<lparr>message_status := MessageComplete\<rparr>) else Inr db")
    case (Inr db1)
    obtain p' where p': "read_message db1 k = Inr (Some p')" "message_content p' = AssistantItems items"
      using Inr f(3) assms(4) k message_saved(1)[of db leases "p\<lparr>message_status := MessageComplete\<rparr>" db1 k] by (auto split: if_splits)
    have "card (set (message_ids db1)) \<le> Suc (card (set (message_ids db)))"
      using Inr message_save_writes[of db leases "p\<lparr>message_status := MessageComplete\<rparr>" db1] card_written_message by (fastforce split: if_splits)
    then have "card (set (message_ids db1)) + length items < n"
      using assms(5) card_length[of "message_ids db"] by linarith
    from answer_each_ends[OF this, of leases now s first_result call 0]
    show ?thesis
      using Inr assms(2,3,5) f(1,2) p'
      by (cases n) (auto simp: finish_cancellation_def answer_skipped_calls_def)
  qed (use assms(2,3) in \<open>simp add: finish_cancellation_def\<close>)
qed

text \<open>C33. Recovery finishes a cancellation that was cut short: on a history without cycles, whatever
  complete message is the newest, the step of recovery that finishes cancellations always returns. When
  the newest message is no result of a response's call, or its response cannot be read, nothing
  changes. Otherwise, when no write is refused, the response that made the call is no longer streaming,
  its content is what was stored of it, and each of its calls other than the one answered first has a
  cancelled result somewhere in the store. As many turns of each walk as there are messages stored and
  calls in the response, and two, are enough.\<close>

theorem recovery_finishes_cancellation:
  assumes "db_wf db" "acyclic (parents db)" "read_message db (message_id tip) = Inr (Some tip)"
    "message_status tip = MessageComplete" "length (message_ids db) < n"
    "\<forall>k p items. read_message db k = Inr (Some p) \<longrightarrow> message_content p = AssistantItems items \<longrightarrow>
       length (message_ids db) + length items + 1 < n"
  shows "\<exists>found out db'. answered_response n db tip = Some found
    \<and> finish_cancellation n db leases now s tip = Some (out, db')
    \<and> (case found of
          Inl e \<Rightarrow> out = Inl e \<and> db' = db
        | Inr None \<Rightarrow> out = Inr () \<and> db' = db
        | Inr (Some (first_result, p)) \<Rightarrow>
            (case out of
               Inl _ \<Rightarrow> True
             | Inr _ \<Rightarrow> \<exists>answered items p'. message_content p = AssistantItems items
                 \<and> (\<exists>output outcome. message_content first_result = ScriptResult answered output outcome)
                 \<and> read_message db' (message_id p) = Inr (Some p') \<and> message_content p' = AssistantItems items
                 \<and> \<not> is_streaming (message_status p')
                 \<and> (\<forall>c. ScriptCallItem c \<in> set items \<longrightarrow> call_id c = answered \<or> call_answered db' (call_id c))))"
proof -
  have "card (message_ancestors db (message_id tip)) < n"
    using message_ancestors_bound(2)[of db "message_id tip"] assms(5) by linarith
  then obtain found where found: "answered_response n db tip = Some found"
    using answered_response_ends[OF assms(1,2) read_message_parent[OF assms(3)]] by auto
  show ?thesis
  proof (cases "\<exists>first_result p. found = Inr (Some (first_result, p))")
    case True
    then obtain first_result p where fp: "found = Inr (Some (first_result, p))" by blast
    obtain k items where p: "read_message db k = Inr (Some p)" "message_content p = AssistantItems items"
      using answered_response_found[OF found[unfolded fp]] by blast
    obtain out db' where out: "finish_cancellation n db leases now s tip = Some (out, db')"
      using finish_cancellation_ends[OF assms(1,4) found[unfolded fp] p(2) assms(6)[rule_format, OF p]] by blast
    show ?thesis
    proof (cases out)
      case (Inr u)
      then show ?thesis
        using finish_cancellation_answers[OF assms(1,4) found[unfolded fp]] out found fp by simp
    qed (use out found fp in simp)
  next
    case False
    then have "(\<exists>e. found = Inl e) \<or> found = Inr None" by (cases found) (auto simp: not_Some_eq[symmetric])
    then show ?thesis using found assms(4) by (auto simp: finish_cancellation_def)
  qed
qed

definition recovery_tip :: message where
  "recovery_tip = requested_message ''r'' (Some ''m'') (result_request ''s'' ''a'' ''x'' None)"

definition recovery_db :: database where
  "recovery_db = cancel_db\<lparr>
     sessions := [(''s'', \<lparr>row_data = (sample_meta ''s'')\<lparr>tip_id := Some ''r''\<rparr>, row_tip = Some ''r'',
       revision = 1, metadata_revision = 1, lease_active = False, lease_expires_at = 0, lease_token = 0, turn_timer = None\<rparr>)],
     records := [((''message'', ''m''), \<lparr>record_session_id = Some ''s'', record_data_of = MessageRecord (ss_message cancel_state)\<rparr>),
       ((''message'', ''r''), \<lparr>record_session_id = Some ''s'', record_data_of = MessageRecord recovery_tip\<rparr>)]\<rparr>"

lemma recovery_db_wf: "db_wf recovery_db"
  by (simp add: recovery_db_def cancel_db_def stream_db_def empty_database_def db_wf_def bt_wf_def table_all_def
      session_row_ok_def sample_meta_def valid_id_s record_row_ok_def cancel_state_def sample_stream_def
      recovery_tip_def requested_message_def)

lemma recovery_reads:
  "read_message recovery_db k = (if k = ''m'' then Inr (Some (ss_message cancel_state))
     else if k = ''r'' then Inr (Some recovery_tip) else Inr None)"
  by (simp add: read_message_def read_record_def delta_rows_def apply_deltas_def recovery_db_def cancel_db_def
      stream_db_def empty_database_def recovery_tip_def requested_message_def result_request_def)

lemma recovery_answered: "answered_response 6 recovery_db recovery_tip = Some (Inr (Some (recovery_tip, ss_message cancel_state)))"
proof -
  have "answered_response 6 recovery_db recovery_tip = answered_response (Suc 5) recovery_db recovery_tip" by simp
  then show ?thesis
    unfolding answered_response.simps
    by (simp add: recovery_reads recovery_tip_def requested_message_def result_request_def cancel_state_def sample_call_def)
qed

lemma recovery_sample:
  "case finish_cancellation 6 recovery_db [] 5 ''s'' recovery_tip of Some (Inr _, _) \<Rightarrow> True | _ \<Rightarrow> False"
  by code_simp

lemma recovery_acyclic: "acyclic (parents recovery_db)"
proof (rule acyclic_subset)
  show "acyclic {(''r'', ''m'')}" by (simp add: acyclic_insert wf_acyclic)
  show "parents recovery_db \<subseteq> {(''r'', ''m'')}"
    by (auto simp: parents_def parent_of_def recovery_db_def recovery_tip_def requested_message_def cancel_state_def
        sample_stream_def split: if_splits)
qed

theorem recovery_finishes_cancellation_witness:
  "\<exists>db' p'. finish_cancellation 6 recovery_db [] 5 ''s'' recovery_tip = Some (Inr (), db')
    \<and> read_message db' ''m'' = Inr (Some p') \<and> \<not> is_streaming (message_status p') \<and> call_answered db' ''b''"
proof -
  have count: "length (message_ids recovery_db) = 2"
    by (simp add: message_ids_def recovery_db_def)
  have tip: "message_status recovery_tip = MessageComplete" "message_id recovery_tip = ''r''"
    by (simp_all add: recovery_tip_def requested_message_def result_request_def)
  have stored: "read_message recovery_db (message_id recovery_tip) = Inr (Some recovery_tip)"
    using tip(2) by (simp add: recovery_reads)
  have calls: "\<forall>k p items. read_message recovery_db k = Inr (Some p) \<longrightarrow> message_content p = AssistantItems items \<longrightarrow>
       length (message_ids recovery_db) + length items + 1 < 6"
    using count
    by (auto simp: recovery_reads cancel_state_def recovery_tip_def requested_message_def result_request_def split: if_splits)
  obtain db' where b: "finish_cancellation 6 recovery_db [] 5 ''s'' recovery_tip = Some (Inr (), db')"
    using recovery_sample by (auto split: option.splits sum.splits)
  from recovery_finishes_cancellation[OF recovery_db_wf recovery_acyclic stored tip(1) _ calls,
      where leases = "[]" and now = 5 and s = "''s''"]
  obtain answered items p' where p': "message_content (ss_message cancel_state) = AssistantItems items"
      "\<exists>output outcome. message_content recovery_tip = ScriptResult answered output outcome"
      "read_message db' (message_id (ss_message cancel_state)) = Inr (Some p')" "\<not> is_streaming (message_status p')"
      "\<forall>c. ScriptCallItem c \<in> set items \<longrightarrow> call_id c = answered \<or> call_answered db' (call_id c)"
    using b count recovery_answered by auto
  have sample: "answered = ''a''" "message_id (ss_message cancel_state) = ''m''"
    "items = [ScriptCallItem (sample_call ''a''), ScriptCallItem (sample_call ''b'')]"
    using p'(1,2) by (auto simp: cancel_state_def sample_stream_def recovery_tip_def requested_message_def result_request_def)
  have "call_answered db' ''b''"
    using p'(5)[rule_format, of "sample_call ''b''"] sample by (simp add: sample_call_def)
  then show ?thesis using b p'(3,4) sample(2) by auto
qed

text \<open>C11. A failed cancellation repeats the reply: when the first save of a cancellation succeeds and the
  write after it fails, the stream stays with the deltas that waited to be published, though the row now
  holds what they say; once they are published, the stored message reads as the reply with those deltas
  applied a second time. Shown for a reply of which nothing had been published; in the instance below
  both of its script calls are stored twice.\<close>

theorem failed_cancellation_repeats_reply:
  assumes "db_wf db" "bt_get streams k = Some st" "message_id (ss_message st) = k" "is_streaming (message_status (ss_message st))"
    "said_something (ss_message st)" "first_call_id (ss_message st) \<noteq> None" "first_pending_sequence st = 0"
    "fault 0 = None" "fault 1 = Some e" "message_save db leases (ss_message st) = Inr saved"
    "cancel_streaming_message n fault db leases now streams k fresh output = Some (r, streams', db')"
    "append_stream_deltas db' leases k 0 (pending_deltas st) = Inr db''"
  shows "(\<exists>st'. bt_get streams' k = Some st' \<and> pending_deltas st' = pending_deltas st \<and> first_pending_sequence st' = 0)
    \<and> read_message db' k = Inr (Some (ss_message st))
    \<and> read_message db'' k = bindR (apply_deltas (pending_deltas st) (ss_message st)) (\<lambda>m. Inr (Some m))"
proof -
  obtain assoc where w: "write_message_record db leases ''message'' k assoc (MessageRecord (ss_message st)) = Inr saved"
      "case assoc of None \<Rightarrow> True | Some s \<Rightarrow> valid_id s"
    using message_save_iff[OF assms(1,10)] assms(3) by blast
  have wf: "db_wf saved" using write_message_record_wf[OF assms(1) w(1)] w(2) assms(3) by simp
  have c: "db' = saved" "streams' = bt_update k (\<lambda>_. st\<lparr>cancellation_result_id :=
        Some (case cancellation_result_id st of Some r \<Rightarrow> r | None \<Rightarrow> fresh)\<rparr>) streams"
    using assms(2,5,6,8-11)
    by (auto simp: cancel_streaming_message_def cancel_answers_def save_unless_def Let_def)
  have row: "read_record as_message saved ''message'' k = Inr (Some (ss_message st))" "numbered saved k []"
    using written_row[OF w(1)] by simp_all
  have "numbered db'' k (pending_deltas st)"
    using numbered_append[OF row(2), of leases "pending_deltas st" db''] assms(12) c(1) by simp
  moreover have "read_record as_message db'' ''message'' k = Inr (Some (ss_message st))" "db_wf db''"
    using append_deltas_keeps[OF assms(12)] row(1) wf read_record_cong[of db'' db' as_message "''message''" k] c(1) by simp_all
  ultimately have "read_message db'' k = bindR (apply_deltas (pending_deltas st) (ss_message st)) (\<lambda>m. Inr (Some m))"
    using read_message_streaming[of db'' k "pending_deltas st" "ss_message st"] assms(4) by simp
  then show ?thesis
    using read_message_written[OF w(1), of k] c assms(2,7) by (simp add: bt_get_update)
qed

definition failing_write :: "nat \<Rightarrow> store_error option" where
  "failing_write i = (if i = 1 then Some (Report ''disk I/O error'') else None)"

theorem failed_cancellation_repeats_reply_witness:
  "\<exists>streams' db' db''. cancel_streaming_message 6 failing_write cancel_db [] 5 [(''m'', cancel_state)] ''m'' ''r'' ''x''
      = Some (Inl (Report ''disk I/O error''), streams', db')
    \<and> append_stream_deltas db' [] ''m'' 0 (pending_deltas cancel_state) = Inr db''
    \<and> message_content (ss_message cancel_state)
        = AssistantItems [ScriptCallItem (sample_call ''a''), ScriptCallItem (sample_call ''b'')]
    \<and> read_message db'' ''m'' = Inr (Some ((ss_message cancel_state)\<lparr>message_content :=
        AssistantItems [ScriptCallItem (sample_call ''a''), ScriptCallItem (sample_call ''b''),
                        ScriptCallItem (sample_call ''a''), ScriptCallItem (sample_call ''b'')]\<rparr>))"
proof -
  have run: "case message_save cancel_db [] (ss_message cancel_state) of Inr db1 \<Rightarrow>
        (case append_stream_deltas db1 [] ''m'' 0 (pending_deltas cancel_state) of Inr _ \<Rightarrow> True | _ \<Rightarrow> False) | _ \<Rightarrow> False"
    by code_simp
  then obtain db1 db2 where save: "message_save cancel_db [] (ss_message cancel_state) = Inr db1"
      "append_stream_deltas db1 [] ''m'' 0 (pending_deltas cancel_state) = Inr db2"
    by (auto split: sum.splits)
  have says: "said_something (ss_message cancel_state)" "first_call_id (ss_message cancel_state) = Some ''a''"
    "cancellation_result_id cancel_state = None"
    by (simp_all add: said_something_def first_call_id_def cancel_state_def sample_call_def List.map_filter_def)
  obtain streams' where cancel: "cancel_streaming_message 6 failing_write cancel_db [] 5 [(''m'', cancel_state)] ''m'' ''r'' ''x''
      = Some (Inl (Report ''disk I/O error''), streams', db1)"
    using save says by (simp add: cancel_streaming_message_def cancel_answers_def save_unless_def failing_write_def)
  have "db_wf cancel_db"
    by (simp add: cancel_db_def stream_db_def empty_database_def db_wf_def bt_wf_def table_all_def
        session_row_ok_def sample_meta_def valid_id_s record_row_ok_def sample_stream_def)
  from failed_cancellation_repeats_reply[OF this _ _ _ says(1) _ _ _ _ save(1) cancel save(2)] says(2)
  have "read_message db2 ''m'' = bindR (apply_deltas (pending_deltas cancel_state) (ss_message cancel_state)) (\<lambda>m. Inr (Some m))"
    by (simp add: cancel_state_def sample_stream_def failing_write_def)
  then show ?thesis
    using cancel save by (simp add: cancel_state_def sample_stream_def apply_deltas_def delta_apply_def)
qed

end
