(* ===== verification/Model_Lists.thy ===== *)
theory Model_Lists
  imports Database
begin

text \<open>
  The shared cache of provider model lists (crates/kraai-persistence, model_lists.rs). Runtimes
  that want to refresh a list claim it for a time; a claim names the version the runtime has seen,
  so a runtime that missed a newer list cannot claim. Each operation is one SQL statement. The
  theorems say that a claim excludes every other one until it expires, is released or the new list
  is stored, and that the stored list never gets older.
\<close>

section \<open>Operations\<close>

definition versions :: "database \<Rightarrow> (string, model_list_version) btree" where
  "versions db =
     List.map_filter (\<lambda>(p, row). map_option (\<lambda>_. (p, \<lparr>version_source = ml_source row, fetched_at = ml_fetched_at row\<rparr>))
       (ml_data row)) (model_lists db)"

definition list_read :: "database \<Rightarrow> string \<Rightarrow> stored_model_list option" where
  "list_read db p =
     Option.bind (bt_get (model_lists db) p) (\<lambda>row.
     map_option (\<lambda>data. \<lparr>list_version = \<lparr>version_source = ml_source row, fetched_at = ml_fetched_at row\<rparr>,
       list_data = data\<rparr>) (ml_data row))"

definition list_claim ::
  "database \<Rightarrow> string \<Rightarrow> model_list_version option \<Rightarrow> int \<Rightarrow> int \<Rightarrow> bool \<times> database" where
  "list_claim db p seen now until =
     (let (source, fetched) = (case seen of None \<Rightarrow> ([], 0) | Some v \<Rightarrow> (version_source v, fetched_at v))
      in case bt_get (model_lists db) p of
           None \<Rightarrow>
             (True, db\<lparr>model_lists := bt_insert p
                \<lparr>ml_source = [], ml_fetched_at = 0, ml_data = None, claimed_until = until\<rparr> (model_lists db)\<rparr>)
         | Some row \<Rightarrow>
             if claimed_until row \<le> now \<and> ml_source row = source \<and> ml_fetched_at row = fetched
             then (True, db\<lparr>model_lists := bt_update p (\<lambda>row. row\<lparr>claimed_until := until\<rparr>) (model_lists db)\<rparr>)
             else (False, db))"

definition list_release :: "database \<Rightarrow> string \<Rightarrow> int \<Rightarrow> database" where
  "list_release db p until =
     db\<lparr>model_lists := bt_update p
        (\<lambda>row. if claimed_until row = until then row\<lparr>claimed_until := 0\<rparr> else row) (model_lists db)\<rparr>"

definition list_save :: "database \<Rightarrow> string \<Rightarrow> model_list_version \<Rightarrow> json \<Rightarrow> database" where
  "list_save db p version data =
     (let fresh = \<lparr>ml_source = version_source version, ml_fetched_at = fetched_at version,
                   ml_data = Some data, claimed_until = 0\<rparr>
      in case bt_get (model_lists db) p of
           None \<Rightarrow> db\<lparr>model_lists := bt_insert p fresh (model_lists db)\<rparr>
         | Some row \<Rightarrow>
             if ml_fetched_at row < fetched_at version
             then db\<lparr>model_lists := bt_update p (\<lambda>_. fresh) (model_lists db)\<rparr> else db)"

section \<open>Runs\<close>

datatype list_op =
  ClaimList string "model_list_version option" int int
| ReleaseList string int
| SaveList string model_list_version json

fun list_apply :: "list_op \<Rightarrow> database \<Rightarrow> bool \<times> database" where
  "list_apply (ClaimList p seen now until) db = list_claim db p seen now until"
| "list_apply (ReleaseList p until) db = (False, list_release db p until)"
| "list_apply (SaveList p v d) db = (False, list_save db p v d)"

text \<open>The operations that were granted a claim, in order, and the database at the end.\<close>

fun list_run :: "list_op list \<Rightarrow> database \<Rightarrow> list_op list \<times> database" where
  "list_run [] db = ([], db)"
| "list_run (c # cs) db =
     (let (won, db) = list_apply c db; (rest, db) = list_run cs db
      in (if won then c # rest else rest, db))"

text \<open>What ends a claim on \<open>p\<close> that runs until \<open>until\<close>: a list being stored, its own release, or a
  claim after its time.\<close>

fun ends_claim :: "string \<Rightarrow> int \<Rightarrow> list_op \<Rightarrow> bool" where
  "ends_claim p until (ClaimList q _ now _) = (q = p \<and> until \<le> now)"
| "ends_claim p until (ReleaseList q u) = (q = p \<and> u = until)"
| "ends_claim p until (SaveList q _ _) = (q = p)"

lemma claim_get:
  assumes "list_claim db q seen now until = (won, db')"
  shows "bt_get (model_lists db') p =
    (if p = q \<and> won
     then Some (case bt_get (model_lists db) p of
       None \<Rightarrow> \<lparr>ml_source = [], ml_fetched_at = 0, ml_data = None, claimed_until = until\<rparr>
     | Some row \<Rightarrow> row\<lparr>claimed_until := until\<rparr>)
     else bt_get (model_lists db) p)"
    "won \<Longrightarrow> bt_get (model_lists db) q = Some row \<Longrightarrow> claimed_until row \<le> now"
  using assms
  by (auto simp: list_claim_def Let_def bt_get_update split: option.splits prod.splits if_splits)

lemma release_get:
  "bt_get (model_lists (list_release db q until)) p =
     (if p = q then map_option (\<lambda>row. if claimed_until row = until then row\<lparr>claimed_until := 0\<rparr> else row) (bt_get (model_lists db) p)
      else bt_get (model_lists db) p)"
  by (simp add: list_release_def bt_get_update)

lemma save_get:
  "bt_get (model_lists (list_save db q v d)) p =
     (if p = q \<and> (case bt_get (model_lists db) p of None \<Rightarrow> True | Some row \<Rightarrow> ml_fetched_at row < fetched_at v)
      then Some \<lparr>ml_source = version_source v, ml_fetched_at = fetched_at v, ml_data = Some d, claimed_until = 0\<rparr>
      else bt_get (model_lists db) p)"
  by (auto simp: list_save_def Let_def bt_get_update split: option.split)

lemma claim_granted:
  assumes "list_claim db p seen now until = (True, db')"
  shows "\<exists>row. bt_get (model_lists db') p = Some row \<and> claimed_until row = until"
  using claim_get(1)[OF assms, of p] by (simp split: option.split)

lemma claim_held:
  assumes "bt_get (model_lists db) p = Some row" "claimed_until row = until" "\<not> ends_claim p until c"
    and "list_apply c db = (won, db')"
  shows "(\<exists>row'. bt_get (model_lists db') p = Some row' \<and> claimed_until row' = until)
    \<and> (won \<longrightarrow> (\<forall>seen now u. c \<noteq> ClaimList p seen now u))"
proof (cases c)
  case (ClaimList q seen now u)
  then have c: "list_claim db q seen now u = (won, db')" using assms(4) by simp
  have "\<not> (p = q \<and> won)" using claim_get(2)[OF c, of row] assms(1,2,3) ClaimList by auto
  then show ?thesis using claim_get(1)[OF c, of p] assms(1,2) ClaimList by auto
next
  case (ReleaseList q u)
  then show ?thesis using assms by (cases "p = q"; cases "claimed_until row = u") (auto simp: release_get)
next
  case (SaveList q v d)
  then show ?thesis using assms by (auto simp: save_get)
qed

lemma fetched_monotone:
  assumes "bt_get (model_lists db) p = Some row"
  shows "\<exists>row'. bt_get (model_lists (snd (list_apply c db))) p = Some row' \<and> ml_fetched_at row \<le> ml_fetched_at row'
    \<and> (ml_data row' = ml_data row \<and> ml_source row' = ml_source row \<or> ml_fetched_at row < ml_fetched_at row')
    \<and> (ml_data row = None \<or> (\<exists>d. ml_data row' = Some d))"
proof (cases c)
  case (ClaimList q seen now u)
  obtain won db' where c: "list_claim db q seen now u = (won, db')" by fastforce
  then show ?thesis using claim_get(1)[OF c, of p] assms ClaimList by auto
next
  case (ReleaseList q u)
  then show ?thesis using assms by (cases "claimed_until row = u") (auto simp: release_get)
next
  case (SaveList q v d)
  then show ?thesis using assms by (auto simp: save_get)
qed

lemma list_apply_keeps [simp]:
  "sessions (snd (list_apply c db)) = sessions db" "records (snd (list_apply c db)) = records db"
  "stream_deltas (snd (list_apply c db)) = stream_deltas db"
  "queued_messages (snd (list_apply c db)) = queued_messages db"
  "execution_sources (snd (list_apply c db)) = execution_sources db"
  "execution_output (snd (list_apply c db)) = execution_output db"
  by (cases c; simp add: list_claim_def list_release_def list_save_def Let_def split: option.split prod.split)+

lemma list_apply_wf: "db_wf db \<Longrightarrow> db_wf (snd (list_apply c db))"
proof -
  assume wf: "db_wf db"
  then have "bt_wf (model_lists (snd (list_apply c db)))"
    by (cases c) (auto simp: db_wf_def list_claim_def list_release_def list_save_def Let_def split: option.split prod.split)
  then show ?thesis using wf by (simp add: db_wf_def)
qed

section \<open>Properties\<close>

text \<open>One refresh at a time: once a claim on a provider's list is granted, no claim on that list
  is granted, whatever claims, releases and stores on any list follow in whatever order, until
  the claim's time is over, it is released, or a list for the provider is stored.\<close>

theorem refresh_claim_exclusive:
  assumes "list_claim db p seen now until = (True, db1)" "list_run cs db1 = (won, db2)"
    and "\<forall>c \<in> set cs. \<not> ends_claim p until c"
  shows "ClaimList p seen' now' until' \<notin> set won
    \<and> (\<exists>row. bt_get (model_lists db2) p = Some row \<and> claimed_until row = until)"
proof -
  have "ClaimList p seen' now' until' \<notin> set won
      \<and> (\<exists>row. bt_get (model_lists db2) p = Some row \<and> claimed_until row = until)"
    if "\<exists>row. bt_get (model_lists db1) p = Some row \<and> claimed_until row = until"
    using that assms(2,3)
  proof (induction cs arbitrary: db1 won)
    case (Cons c cs)
    obtain g d rest where c: "list_apply c db1 = (g, d)" "list_run cs d = (rest, db2)"
        "won = (if g then c # rest else rest)"
      using Cons.prems(2) by (auto simp: Let_def split: prod.splits)
    then show ?case
      using Cons.IH[of d rest] Cons.prems(1,3) claim_held[OF _ _ _ c(1), of p]
      by (metis insert_iff list.simps(15))
  qed auto
  then show ?thesis using claim_granted[OF assms(1)] by blast
qed

theorem refresh_claim_exclusive_witness:
  "\<exists>db1. list_claim empty_database ''p'' None 0 10 = (True, db1)
     \<and> fst (list_run [ClaimList ''p'' None 3 20, ReleaseList ''p'' 20, ClaimList ''p'' None 9 20] db1) = []"
proof -
  obtain db1 where c: "list_claim empty_database ''p'' None 0 10 = (True, db1)"
    by (simp add: list_claim_def empty_database_def)
  let ?cs = "[ClaimList ''p'' None 3 20, ReleaseList ''p'' 20, ClaimList ''p'' None 9 20]"
  obtain won db2 where r: "list_run ?cs db1 = (won, db2)" by fastforce
  have "ClaimList ''p'' None 3 20 \<notin> set won \<and> ClaimList ''p'' None 9 20 \<notin> set won"
    using refresh_claim_exclusive[OF c r] by simp
  moreover have "set won \<subseteq> {ClaimList ''p'' None 3 20, ClaimList ''p'' None 9 20}"
    using r by (auto simp: Let_def split: prod.splits if_splits)
  ultimately have "won = []" by (cases won) auto
  then show ?thesis using c r by auto
qed

text \<open>A stored list never gets older: whatever sequence of claims, releases and stores runs, the
  list a provider has afterwards is the one it had or one fetched strictly later.\<close>

theorem model_list_never_older:
  "case (list_read db p, list_read (snd (list_run cs db)) p) of
     (None, _) \<Rightarrow> True
   | (Some old, None) \<Rightarrow> False
   | (Some old, Some new) \<Rightarrow> new = old \<or> fetched_at (list_version old) < fetched_at (list_version new)"
proof -
  have "\<exists>row'. bt_get (model_lists (snd (list_run cs db))) p = Some row' \<and> ml_fetched_at row \<le> ml_fetched_at row'
      \<and> (ml_data row' = ml_data row \<and> ml_source row' = ml_source row \<or> ml_fetched_at row < ml_fetched_at row')
      \<and> (ml_data row = None \<or> (\<exists>d. ml_data row' = Some d))"
    if "bt_get (model_lists db) p = Some row" for row
    using that
  proof (induction cs arbitrary: db row)
    case (Cons c cs)
    obtain mid where mid: "bt_get (model_lists (snd (list_apply c db))) p = Some mid" "ml_fetched_at row \<le> ml_fetched_at mid"
        "ml_data mid = ml_data row \<and> ml_source mid = ml_source row \<or> ml_fetched_at row < ml_fetched_at mid"
        "ml_data row = None \<or> (\<exists>d. ml_data mid = Some d)"
      using fetched_monotone[OF Cons.prems] by blast
    from Cons.IH[OF mid(1)] mid show ?case by (auto simp: Let_def split: prod.split)
  qed auto
  then show ?thesis
    by (cases "bt_get (model_lists db) p") (fastforce simp: list_read_def split: option.split)+
qed

end
