(* ===== verification/World.thy ===== *)
theory World
  imports Turns Context_Store Model_Lists
begin

text \<open>
  The store shared by many runtimes. A world is the database, the lease tokens every runtime holds
  in memory and the session ids ever used; its steps are the store operations of any runtime with
  any clock reading, in any order, and crashes, which lose a runtime's tokens. Operations that fail
  are rolled back and are no steps. New sessions take ids that were never used, as generated ids
  do; without that a session deleted and created again would restart its lease tokens. The
  invariant of the reachable worlds gives mutual exclusion and a consistent store after every operation.
\<close>

section \<open>Store operations\<close>

datatype write_op =
  Enqueue string queued_message
| ClearQueue string
| RemoveQueued string int
| CreateExec new_script_execution string nat
| ChangeExec exec_op string nat
| StreamDeltas string nat "stream_delta list"
| SaveMessage message
| DeleteMessage string
| LinkMessages link_request
| UpdateSession session_meta "string option option" bool
| DeleteSession string
| DeleteUnreferenced string
| ChangeContext context_op
| DeleteContext string
| SaveCheckpoint compaction_checkpoint
| DeleteCheckpoint string
| SaveUsage string request_usage
| DeleteUsage string
| ModelList list_op

fun write_apply :: "lease_tokens \<Rightarrow> write_op \<Rightarrow> database \<Rightarrow> (store_error, database) result" where
  "write_apply leases (Enqueue s m) db = state_of (enqueue_message db leases s m)"
| "write_apply leases (ClearQueue s) db = state_of (clear_queued_messages db leases s)"
| "write_apply leases (RemoveQueued s n) db = remove_queued_messages db leases s n"
| "write_apply leases (CreateExec e fresh now) db = state_of (exec_create db leases e fresh now)"
| "write_apply leases (ChangeExec c k now) db = exec_apply c db leases k now"
| "write_apply leases (StreamDeltas k first ds) db = append_stream_deltas db leases k first ds"
| "write_apply leases (SaveMessage m) db = message_save db leases m"
| "write_apply leases (DeleteMessage k) db = message_delete db leases k"
| "write_apply leases (LinkMessages request) db = state_of (save_linked db leases request)"
| "write_apply leases (UpdateSession m expected req) db = state_of (session_update db leases m expected req)"
| "write_apply leases (DeleteSession s) db = session_delete db leases s"
| "write_apply leases (DeleteUnreferenced k) db = delete_unreferenced db leases k"
| "write_apply leases (ChangeContext c) db = context_apply leases c db"
| "write_apply leases (DeleteContext s) db = context_delete db leases s"
| "write_apply leases (SaveCheckpoint c) db = checkpoint_save db leases c"
| "write_apply leases (DeleteCheckpoint k) db = checkpoint_delete db leases k"
| "write_apply leases (SaveUsage s r) db = usage_save db leases s r"
| "write_apply leases (DeleteUsage s) db = usage_delete db leases s"
| "write_apply leases (ModelList c) db = Inr (snd (list_apply c db))"

text \<open>Session ids have a type of their own, so an operation never names an invalid one.\<close>

fun context_session :: "context_op \<Rightarrow> string" where
  "context_session (AppendCommand _ s _ _ _ _ _) = s"
| "context_session (AppendRuntime _ s _ _) = s"
| "context_session (SaveSnapshots _ s _ _ _) = s"
| "context_session (SaveInstructions s _) = s"

fun ids_valid :: "write_op \<Rightarrow> bool" where
  "ids_valid (CreateExec e _ _) = valid_id (new_session_id e)"
| "ids_valid (LinkMessages request) = valid_id (meta_id (link_session request))"
| "ids_valid (UpdateSession m _ _) = valid_id (meta_id m)"
| "ids_valid (ChangeContext c) = valid_id (context_session c)"
| "ids_valid (SaveUsage s _) = valid_id s"
| "ids_valid _ = True"

section \<open>The store invariant\<close>

text \<open>Checkpoints are stored under the message they cover, context documents under their session.\<close>

fun keyed :: "string \<Rightarrow> string option \<Rightarrow> record_data \<Rightarrow> bool" where
  "keyed k session (MessageRecord m) = (message_id m = k)"
| "keyed k session (CompactionRecord c) = (covered_through c = k)"
| "keyed k session (ContextRecord _) = (session = Some k)"
| "keyed k session _ = True"

definition row_ok :: "string \<times> string \<Rightarrow> record_row \<Rightarrow> bool" where
  "row_ok key row =
     (record_row_ok key row \<and> exec_row_ok key row
      \<and> keyed (snd key) (record_session_id row) (record_data_of row))"

definition store_ok :: "database \<Rightarrow> bool" where
  "store_ok db =
     (db_wf db \<and> table_all row_ok (records db)
      \<and> list_all (\<lambda>(_, stream, _). stream = ''stdout'' \<or> stream = ''stderr'') (execution_output db))"

lemma table_all_mono: "table_all p m \<Longrightarrow> (\<And>k v. p k v \<Longrightarrow> q k v) \<Longrightarrow> table_all q m"
  by (auto simp: table_all_def list_all_iff)

lemma store_okD:
  assumes "store_ok db"
  shows "db_wf db" "execs_ok db" "checkpoints_keyed db"
proof -
  show "db_wf db" "execs_ok db"
    using assms by (auto simp: store_ok_def execs_ok_def row_ok_def intro: table_all_mono)
  have "case record_data_of row of CompactionRecord c \<Rightarrow> kind = ''compaction'' \<and> covered_through c = k
      | _ \<Rightarrow> kind \<noteq> ''compaction''" if "row_ok (kind, k) row" for kind k row
    using that by (cases "record_data_of row") (auto simp: row_ok_def record_row_ok_def)
  then show "checkpoints_keyed db"
    using assms unfolding store_ok_def checkpoints_keyed_def by (auto intro!: table_all_mono[of row_ok] simp only: split: prod.split)
qed

lemma store_ok_empty: "store_ok empty_database"
  by (simp add: store_ok_def db_wf_empty) (simp add: empty_database_def)

lemma store_okI:
  assumes "store_ok db" "db_wf db'" "records db' = records db" "execution_output db' = execution_output db"
  shows "store_ok db'"
  using assms by (simp add: store_ok_def)

lemma store_ok_fewer:
  assumes "store_ok db" "db_wf db'" "set (records db') \<subseteq> set (records db)" "set (execution_output db') \<subseteq> set (execution_output db)"
  shows "store_ok db'"
  using assms by (auto simp: store_ok_def table_all_def list_all_iff)

lemma store_ok_inserted:
  assumes "store_ok db" "db_wf db'" "records db' = bt_insert key row (records db)" "row_ok key row"
    "execution_output db' = execution_output db"
  shows "store_ok db'"
  using assms by (simp add: store_ok_def)

text \<open>Writing a record that is no execution.\<close>

lemma store_ok_write_record:
  assumes "store_ok db" "kind_of v = kind" "kind \<noteq> ''execution''" "case session of None \<Rightarrow> True | Some s \<Rightarrow> valid_id s"
    "keyed k session v"
  shows "store_ok (write_record db kind k session v)"
proof (rule store_ok_inserted[OF assms(1) _ write_record_records])
  show wf: "db_wf (write_record db kind k session v)"
    using store_okD(1)[OF assms(1)] assms(2,4,5) by (intro write_record_wf) (auto split: record_data.splits)
  define row where "row = \<lparr>record_session_id = (case bt_get (records db) (kind, k) of
     Some row \<Rightarrow> (case record_session_id row of Some s \<Rightarrow> Some s | None \<Rightarrow> session) | None \<Rightarrow> session), record_data_of = v\<rparr>"
  have "bt_get (records (write_record db kind k session v)) (kind, k) = Some row"
    by (simp add: write_record_records row_def)
  then have ok: "record_row_ok (kind, k) row" by (rule table_all_get[OF db_wfD(4)[OF wf]])
  moreover have "record_session_id row = Some k" if d: "\<exists>c. v = ContextRecord c"
  proof (cases "bt_get (records db) (kind, k)")
    case None
    then show ?thesis using d assms(5) by (auto simp: row_def)
  next
    case (Some old)
    then have "row_ok (kind, k) old" using assms(1) table_all_get[of row_ok] by (auto simp: store_ok_def)
    moreover have "kind = ''context''" using d assms(2) by auto
    ultimately have "record_session_id old = Some k"
      by (cases "record_data_of old") (auto simp: row_ok_def record_row_ok_def)
    then show ?thesis using Some by (simp add: row_def)
  qed
  moreover have data: "record_data_of row = v" by (simp add: row_def)
  ultimately show "row_ok (kind, k) \<lparr>record_session_id = (case bt_get (records db) (kind, k) of
     Some row \<Rightarrow> (case record_session_id row of Some s \<Rightarrow> Some s | None \<Rightarrow> session) | None \<Rightarrow> session), record_data_of = v\<rparr>"
    unfolding row_def[symmetric] row_ok_def exec_row_ok_def using assms(2,3,5) data
    by (cases v) auto
qed simp

lemma store_ok_bumps:
  "store_ok db \<Longrightarrow> store_ok (foldl (\<lambda>db s. if p s then bump_revision db s else db) db ss)"
  by (rule store_okI) (auto simp: bumps_keep dest: store_okD)

lemma store_ok_write_message:
  assumes "store_ok db" "write_message_record db leases kind k assoc v = Inr db'" "kind_of v = kind" "kind \<noteq> ''execution''"
    "case assoc of None \<Rightarrow> True | Some s \<Rightarrow> valid_id s" "keyed k assoc v"
  shows "store_ok db'"
proof -
  have w: "store_ok (write_record db kind k assoc v)" by (rule store_ok_write_record[OF assms(1,3,4,5,6)])
  then have "store_ok (clear_stream_deltas (write_record db kind k assoc v) k)"
    using store_okD(1)[OF w] by (intro store_okI[OF w]) simp_all
  then show ?thesis using assms(2) w by (auto simp: write_message_record_iff intro: store_ok_bumps)
qed

lemma store_ok_delete_message:
  assumes "store_ok db" "delete_message_record db leases kind k = Inr db'"
  shows "store_ok db'"
proof (rule store_ok_fewer[OF assms(1)])
  show "db_wf db'" using delete_message_record_wf store_okD(1) assms by blast
  show "set (records db') \<subseteq> set (records db)"
    using assms(2) bumps_keep(1)[where p = "\<lambda>_. True"]
    by (auto simp: delete_message_record_iff delete_record_def bt_remove_def bt_retain_def split: if_splits)
  show "set (execution_output db') \<subseteq> set (execution_output db)"
    using assms(2) bumps_keep(4)[where p = "\<lambda>_. True"]
    by (auto simp: delete_message_record_iff delete_record_def split: if_splits)
qed

section \<open>Every operation keeps the invariant\<close>

lemma store_ok_links:
  assumes "store_ok db" "foldR (link_step leases s) db ms = Inr db'" "valid_id s"
  shows "store_ok db'"
  using assms(2,1)
  by (rule foldR_invariant) (auto simp: link_step_iff assms(3) intro: store_ok_write_message)

lemma store_ok_save_session:
  assumes "store_ok db" "valid_id (meta_id m)"
  shows "store_ok (save_session db m)"
  using store_okD(1)[OF assms(1)] assms(2) by (intro store_okI[OF assms(1)]) (simp_all add: save_session_wf)

lemma store_ok_adopt:
  assumes "store_ok db" "valid_id (meta_id m)"
  shows "store_ok (adopt_tip db m)"
proof (cases "tip_id m")
  case (Some tip)
  let ?f = "\<lambda>row. row\<lparr>record_session_id := (case record_session_id row of None \<Rightarrow> Some (meta_id m) | Some s \<Rightarrow> Some s)\<rparr>"
  have "row_ok (''message'', tip) (?f row)" if "row_ok (''message'', tip) row" for row
    using that assms(2)
    by (cases "record_data_of row") (auto simp: row_ok_def record_row_ok_def exec_row_ok_def split: option.split)
  then have "table_all row_ok (records (adopt_tip db m))"
    using assms(1) Some by (auto simp: adopt_tip_def store_ok_def intro!: table_all_update)
  then show ?thesis
    using adopt_tip_wf[OF store_okD(1)[OF assms(1)] assms(2)] assms(1) by (simp add: store_ok_def)
qed (use assms in \<open>simp add: adopt_tip_def\<close>)

lemma store_ok_update:
  assumes "store_ok db" "session_update db leases m expected req = Inr (ok, db')" "valid_id (meta_id m)"
  shows "store_ok db'"
  using assms by (auto simp: session_update_iff split: if_splits intro: store_ok_adopt store_ok_save_session)

lemma store_ok_linked:
  assumes "store_ok db" "save_linked db leases request = Inr (r, db')" "valid_id (meta_id (link_session request))"
  shows "store_ok db'"
proof -
  obtain ms session tip through where q: "request = \<lparr>link_messages = ms, link_session = session,
      link_expected_tip = tip, consumed_queue_through = through\<rparr>" by (cases request) auto
  consider "db' = db" | db1 where "foldR (link_step leases (meta_id session)) db ms = Inr db1" "db' = finish_link db1 session through"
    using assms(2) by (auto simp: q save_linked_iff split: if_splits)
  then show ?thesis
  proof cases
    case 2
    have one: "store_ok (save_session db1 session)"
      using store_ok_links[OF assms(1) 2(1)] assms(3) by (auto simp: q intro: store_ok_save_session)
    have "db_wf (finish_link db1 session through)"
      using store_okD(1)[OF one] by (auto simp: finish_link_def consume_queued_wf split: option.split)
    moreover have "execution_output (finish_link db1 session through) = execution_output (save_session db1 session)"
      by (simp add: finish_link_def consume_queued_messages_def split: option.split)
    ultimately show ?thesis using store_okI[OF one] 2(2) by simp
  qed (use assms(1) in simp)
qed

lemma store_ok_delete_records:
  assumes "store_ok db" "delete_message_records db leases k = Inr db'"
  shows "store_ok db'"
proof (rule store_ok_fewer[OF assms(1)])
  have "db' = clear_stream_deltas
            (db\<lparr>records := bt_retain (\<lambda>(kind, i) _. \<not> (kind \<in> {''message'', ''compaction''} \<and> i = k)) (records db)\<rparr>) k"
    using assms(2) by (auto simp: delete_message_records_iff)
  moreover have "db_wf (db\<lparr>records := bt_retain p (records db)\<rparr>)" for p
    using store_okD(1)[OF assms(1)] by (simp add: db_wf_def)
  ultimately show "db_wf db'" "set (records db') \<subseteq> set (records db)" "set (execution_output db') \<subseteq> set (execution_output db)"
    by (auto simp: bt_retain_def)
qed

lemma store_ok_delete_session:
  assumes "store_ok db" "session_delete db leases s = Inr db'"
  shows "store_ok db'"
  using session_delete_tables[OF assms(2)] session_delete_wf[OF store_okD(1)[OF assms(1)] assms(2)]
  by (intro store_ok_fewer[OF assms(1)]) auto

lemma store_ok_context:
  assumes "store_ok db" "context_apply leases c db = Inr db'" "valid_id (context_session c)"
  shows "store_ok db'"
proof -
  have w: "store_ok (write_record db ''context'' s (Some s) (ContextRecord doc))" if "valid_id s" for s doc
    using that by (intro store_ok_write_record[OF assms(1)]) simp_all
  show ?thesis
    using assms w
    by (cases c)
      (auto simp: append_command_def append_runtime_def append_event_def save_snapshots_def save_instructions_def
        Let_def result_simps split: if_splits)
qed

lemma store_ok_removed_rows:
  assumes "store_ok db"
  shows "store_ok (bump_revision (db\<lparr>records := bt_retain p (records db)\<rparr>) s)"
proof -
  have "db_wf (db\<lparr>records := bt_retain p (records db)\<rparr>)" using store_okD(1)[OF assms] by (simp add: db_wf_def)
  then show ?thesis by (intro store_ok_fewer[OF assms]) (auto simp: bt_retain_def)
qed

lemma exec_apply_ok:
  assumes "store_ok db" "exec_apply c db leases k now = Inr db'"
  shows "store_ok db'"
proof -
  have wf: "db_wf db'" and ok: "execs_ok db'"
    using exec_apply_wf[OF assms(2)] exec_apply_execs_ok[OF assms(2)] store_okD[OF assms(1)] by auto
  have "table_all row_ok (records db')" using assms(2)
  proof (cases rule: exec_apply_cases)
    case (move r r1)
    have recs: "records db' = records (write_record db ''execution'' k (Some (exec_session_id r)) (ExecutionRecord (r1\<lparr>updated_at_millis := now\<rparr>)))"
      using move(4) by (simp add: write_record_records)
    have "table_all (\<lambda>key row. record_row_ok key row \<and> exec_row_ok key row) (records db')"
      using wf ok by (auto simp: db_wf_def execs_ok_def table_all_def list_all_iff)
    moreover have "table_all (\<lambda>key row. keyed (snd key) (record_session_id row) (record_data_of row)) (records db')"
      unfolding recs write_record_records using assms(1)
      by (intro table_all_insert) (auto simp: store_ok_def row_ok_def intro: table_all_mono)
    ultimately show ?thesis by (auto simp: table_all_def list_all_iff row_ok_def)
  qed (use assms(1) in \<open>simp add: store_ok_def\<close>)
  then show ?thesis using wf ok by (simp add: store_ok_def execs_ok_def)
qed

lemma write_apply_ok:
  assumes "store_ok db" "write_apply leases c db = Inr db'" "ids_valid c"
  shows "store_ok db'"
proof (cases c)
  case (Enqueue s m)
  then show ?thesis
    using assms insert_queued_wf[OF store_okD(1)[OF assms(1)]] store_okI[OF assms(1), of db']
    by (auto simp: enqueue_message_def Let_def result_simps insert_queued_def)
next
  case (ClearQueue s)
  then show ?thesis
    using assms store_okD(1)[OF assms(1)] store_okI[OF assms(1), of db']
    by (auto simp: clear_queued_messages_def result_simps delete_queued_def db_wf_def)
next
  case (RemoveQueued s n)
  then show ?thesis
    using assms consume_queued_wf[OF store_okD(1)[OF assms(1)]] store_okI[OF assms(1), of db']
    by (auto simp: remove_queued_messages_def result_simps consume_queued_messages_def)
next
  case (CreateExec e fresh now)
  then obtain r where r: "exec_create db leases e fresh now = Inr (r, db')" using assms(2) by (auto simp: result_simps)
  note facts = exec_create_iff[OF r] exec_create_keeps[OF r]
  show ?thesis
    using assms(1,3) CreateExec facts store_okD[OF assms(1)]
    by (auto simp: store_ok_def execs_ok_def row_ok_def record_row_ok_def write_record_records exec_row_ok_def)
next
  case (ChangeExec x k now)
  then show ?thesis
    using assms(1,2) exec_apply_ok by simp
next
  case (StreamDeltas k first ds)
  then have d: "append_stream_deltas db leases k first ds = Inr db'" using assms(2) by simp
  have "execution_output db' = execution_output db" using d by (auto simp: append_deltas_iff)
  then show ?thesis using store_okI[OF assms(1)] append_deltas_keeps[OF d] store_okD(1)[OF assms(1)] by blast
next
  case (SaveMessage m)
  then obtain assoc where w: "write_message_record db leases ''message'' (message_id m) assoc (MessageRecord m) = Inr db'"
      "case assoc of None \<Rightarrow> True | Some s \<Rightarrow> valid_id s"
    using message_save_iff[OF store_okD(1)[OF assms(1)], of leases m db'] assms(2) by auto
  show ?thesis by (rule store_ok_write_message[OF assms(1) w(1) _ _ w(2)]) simp_all
next
  case (LinkMessages request)
  then show ?thesis using assms by (auto simp: result_simps intro: store_ok_linked)
next
  case (UpdateSession m expected req)
  then show ?thesis using assms by (auto simp: result_simps intro: store_ok_update)
next
  case (DeleteUnreferenced k)
  then show ?thesis using assms by (auto simp: delete_unreferenced_def split: if_splits intro: store_ok_delete_records)
next
  case (DeleteContext s)
  then show ?thesis
    using assms(2) store_ok_removed_rows[OF assms(1)]
    by (auto simp: context_delete_def result_simps delete_record_def bt_remove_def)
next
  case (SaveCheckpoint k)
  then obtain assoc where w: "record_session db ''message'' (covered_through k) = Inr assoc"
      "write_message_record db leases ''compaction'' (covered_through k) assoc (CompactionRecord k) = Inr db'"
    using assms(2) by (auto simp: checkpoint_save_def result_simps)
  show ?thesis
    by (rule store_ok_write_message[OF assms(1) w(2) _ _ record_session_valid[OF store_okD(1)[OF assms(1)] w(1)]]) simp_all
next
  case (SaveUsage s r)
  then show ?thesis using assms by (auto simp: usage_save_def result_simps intro!: store_ok_write_record)
next
  case (DeleteUsage s)
  then show ?thesis using assms(2) store_ok_removed_rows[OF assms(1)] by (auto simp: usage_delete_def result_simps)
next
  case (ModelList x)
  then show ?thesis
    using assms(2) list_apply_wf[OF store_okD(1)[OF assms(1)], of x] store_okI[OF assms(1)] by auto
next
  case (DeleteMessage k)
  then show ?thesis using assms(2) store_ok_delete_message[OF assms(1)] by (simp add: message_delete_def)
next
  case (DeleteCheckpoint k)
  then show ?thesis using assms(2) store_ok_delete_message[OF assms(1)] by (simp add: checkpoint_delete_def)
next
  case (DeleteSession s)
  then show ?thesis using assms(2) store_ok_delete_session[OF assms(1)] by simp
next
  case (ChangeContext x)
  then show ?thesis using assms(2,3) store_ok_context[OF assms(1)] by simp
qed

section \<open>Operations and leases\<close>

text \<open>No operation changes the lease of a session; one may create a session without a lease, and one
  may delete a session its runtime may write.\<close>

lemma lease_columns_delete_records:
  "delete_message_records db leases k = Inr db' \<Longrightarrow> lease_columns db' s = lease_columns db s"
  by (auto simp: delete_message_records_iff)

lemma lease_columns_links:
  assumes "foldR (link_step leases s) db ms = Inr db'"
  shows "lease_columns db' t = lease_columns db t"
  using assms
  by (rule foldR_invariant[where I = "\<lambda>d. lease_columns d t = lease_columns db t"])
    (auto simp: link_step_iff lease_columns_message_record)

lemma lease_columns_linked:
  assumes "save_linked db leases request = Inr (r, db')"
  shows "lease_columns db' t = lease_columns db t"
proof -
  obtain ms session tip through where q: "request = \<lparr>link_messages = ms, link_session = session,
      link_expected_tip = tip, consumed_queue_through = through\<rparr>" by (cases request) auto
  consider "db' = db" | db1 where "foldR (link_step leases (meta_id session)) db ms = Inr db1" "db' = finish_link db1 session through"
      "lease_columns db (meta_id session) \<noteq> None"
    using assms by (auto simp: q save_linked_iff lease_columns_def read_session_def split: if_splits option.splits)
  then show ?thesis
  proof cases
    case 2
    have "lease_columns db' t = lease_columns (save_session db1 session) t"
      using 2(2) by (simp add: lease_columns_def)
    then show ?thesis
      using lease_columns_links[OF 2(1)] 2(3) by (auto simp: lease_columns_save_session)
  qed simp
qed

lemma write_apply_leases:
  assumes "write_apply leases c db = Inr db'" "db_wf db"
  shows "(\<forall>s. lease_columns db' s = lease_columns db s)
    \<or> (\<exists>m e r. c = UpdateSession m e r \<and> lease_columns db (meta_id m) = None
         \<and> lease_columns db' = (lease_columns db)(meta_id m \<mapsto> (False, 0, 0)))
    \<or> (\<exists>s. c = DeleteSession s \<and> assert_owner db leases s = Inr () \<and> lease_columns db' = (lease_columns db)(s := None))"
proof (cases c)
  case (Enqueue t m)
  then show ?thesis using assms(1) enqueue.leases_kept by auto
next
  case (ClearQueue t)
  then show ?thesis using assms(1) clear_queue.leases_kept by auto
next
  case (RemoveQueued t n)
  then show ?thesis using assms(1) remove_queue.leases_kept by auto
next
  case (CreateExec e fresh now)
  then show ?thesis using assms(1) exec_create_keeps(3) by (auto simp: result_simps)
next
  case (UpdateSession m e r)
  then obtain ok where u: "session_update db leases m e r = Inr (ok, db')" using assms(1) by (auto simp: result_simps)
  then have "(\<forall>t. lease_columns db' t = lease_columns db t) \<or> lease_columns db (meta_id m) = None
      \<and> lease_columns db' = (lease_columns db)(meta_id m \<mapsto> (False, 0, 0))"
    by (auto simp: session_update_iff lease_columns_save_session fun_eq_iff split: if_splits)
  then show ?thesis using UpdateSession by blast
next
  case (DeleteSession t)
  then have "assert_owner db leases t = Inr ()" "lease_columns db' = (lease_columns db)(t := None)"
    using session_delete_tables(1,2)[of db leases t db'] assms(1) by (auto simp: lease_columns_def fun_eq_iff)
  then show ?thesis using DeleteSession by blast
next
  case (DeleteUnreferenced k)
  then show ?thesis
    using assms(1) lease_columns_delete_records by (auto simp: delete_unreferenced_def split: if_splits)
next
  case (ChangeContext x)
  then show ?thesis
    using assms(1)
    by (cases x) (auto simp: append_command_def append_runtime_def dest: context_event.leases_kept
        snapshot_write.leases_kept instruction_write.leases_kept)
next
  case (SaveMessage m)
  then show ?thesis
    using message_save_iff[OF assms(2), of leases m db'] assms(1) lease_columns_message_record(1) by fastforce
next
  case (SaveCheckpoint k)
  then show ?thesis
    using assms(1) lease_columns_message_record(1) by (auto simp: checkpoint_save_def result_simps)
next
  case (LinkMessages request)
  then show ?thesis using assms(1) lease_columns_linked by (auto simp: result_simps)
next
  case (ModelList x)
  then show ?thesis using assms(1) by (auto simp: lease_columns_def)
qed (use assms(1) exec_apply_leases append_deltas_keeps(2) lease_columns_message_record(2)
      context_removal.leases_kept usage_write.leases_kept usage_removal.leases_kept in
      \<open>auto simp: message_delete_def checkpoint_delete_def\<close>)

section \<open>Worlds\<close>

record world =
  store :: database
  tokens :: "nat \<Rightarrow> lease_tokens"
  used :: "string set"

definition initial_world :: world where
  "initial_world = \<lparr>store = empty_database, tokens = (\<lambda>_. []), used = {}\<rparr>"

definition present :: "database \<Rightarrow> string set" where
  "present db = {s. lease_columns db s \<noteq> None}"

text \<open>A session is created only under an id that was never used.\<close>

fun creates_fresh :: "world \<Rightarrow> write_op \<Rightarrow> bool" where
  "creates_fresh w (UpdateSession m _ _) = (meta_id m \<in> present (store w) \<or> meta_id m \<notin> used w)"
| "creates_fresh w _ = True"

inductive world_step :: "nat \<Rightarrow> world \<Rightarrow> world \<Rightarrow> bool" for r where
  written: "write_apply (tokens w r) c (store w) = Inr db' \<Longrightarrow> ids_valid c \<Longrightarrow> creates_fresh w c \<Longrightarrow>
    world_step r w (w\<lparr>store := db', used := used w \<union> present db'\<rparr>)"
| claims: "claim_turn_for (store w) (tokens w r) s duration first now = Inr (db', leases') \<Longrightarrow>
    world_step r w (w\<lparr>store := db', tokens := (tokens w)(r := leases')\<rparr>)"
| renews: "renew_turn (store w) (tokens w r) s duration now = Inr db' \<Longrightarrow> world_step r w (w\<lparr>store := db'\<rparr>)"
| releases: "release (store w) (tokens w r) s timer = (updated, db', leases') \<Longrightarrow>
    world_step r w (w\<lparr>store := db', tokens := (tokens w)(r := leases')\<rparr>)"
| timers: "save_turn_timer (store w) (tokens w r) s timer = db' \<Longrightarrow> world_step r w (w\<lparr>store := db'\<rparr>)"
| crashes: "world_step r w (w\<lparr>tokens := (tokens w)(r := [])\<rparr>)"

inductive reachable :: "world \<Rightarrow> bool" where
  start: "reachable initial_world"
| step: "reachable w \<Longrightarrow> world_step r w w' \<Longrightarrow> reachable w'"

abbreviation holds :: "world \<Rightarrow> nat \<Rightarrow> string \<Rightarrow> bool" where
  "holds w r s \<equiv> holds_lease (store w) (tokens w r) s"

section \<open>The invariant of the reachable worlds\<close>

text \<open>No runtime has a token above the session's current one, and no two have the same.\<close>

definition tokens_bounded :: "world \<Rightarrow> bool" where
  "tokens_bounded w =
     (\<forall>r s k. leases_get (tokens w r) s = Some k \<longrightarrow>
        s \<in> used w \<and> (\<forall>active expiry t. lease_columns (store w) s = Some (active, expiry, t) \<longrightarrow> k \<le> t))"

definition tokens_unique :: "world \<Rightarrow> bool" where
  "tokens_unique w =
     (\<forall>r r' s k. leases_get (tokens w r) s = Some k \<longrightarrow> leases_get (tokens w r') s = Some k \<longrightarrow> r = r')"

definition world_ok :: "world \<Rightarrow> bool" where
  "world_ok w = (store_ok (store w) \<and> present (store w) \<subseteq> used w \<and> tokens_bounded w \<and> tokens_unique w)"

lemma leases_simps [simp]:
  "leases_get (leases_insert leases s k) t = (if t = s then Some k else leases_get leases t)"
  "leases_get [] t = None"
  "leases_get (snd (leases_remove leases s)) t = (if t = s then None else leases_get leases t)"
  by (simp_all add: leases_get_def leases_insert_def leases_remove_def)

lemma store_ok_updated_rows:
  assumes "store_ok db" "\<And>row. session_row_ok s row \<Longrightarrow> session_row_ok s (f row)"
  shows "store_ok (db\<lparr>sessions := bt_update s f (sessions db)\<rparr>)"
proof -
  have "table_all session_row_ok (bt_update s f (sessions db))"
    using assms store_okD(1)[OF assms(1)] by (intro table_all_update) auto
  then have "db_wf (db\<lparr>sessions := bt_update s f (sessions db)\<rparr>)"
    using store_okD(1)[OF assms(1)] by (simp add: db_wf_def)
  then show ?thesis by (rule store_okI[OF assms(1)]) simp_all
qed

lemma store_ok_if_owned:
  assumes "store_ok db" "update_if_owned db s expected f = (db', updated)"
    and "\<And>row. session_row_ok s row \<Longrightarrow> session_row_ok s (f row)"
  shows "store_ok db'"
  using assms store_ok_updated_rows[OF assms(1), of s f]
  by (auto simp: update_if_owned_def split: option.splits if_splits)

lemma update_if_owned_keeps:
  assumes "update_if_owned db s expected f = (db', updated)" "\<And>row. lease_token (f row) = lease_token row"
    and "\<And>row. lease_active row \<Longrightarrow> lease_active (f row)"
  shows "map_option (\<lambda>(a, _, k). (a, k)) (lease_columns db' t) = map_option (\<lambda>(a, _, k). (a, k)) (lease_columns db t)"
  using assms
  by (auto simp: update_if_owned_def lease_columns_def bt_get_update split: option.splits if_splits)

text \<open>The lease of a session as far as ownership goes: whether it is in force, and its token.\<close>

definition lease_state :: "database \<Rightarrow> string \<Rightarrow> (bool \<times> int) option" where
  "lease_state db s = map_option (\<lambda>(a, _, k). (a, k)) (lease_columns db s)"

lemma holds_lease_state: "holds_lease db leases s \<longleftrightarrow> (\<exists>k. lease_state db s = Some (True, k) \<and> leases_get leases s = Some k)"
  by (auto simp: holds_lease_def lease_state_def)

lemma lease_state_None: "lease_state db s = None \<longleftrightarrow> s \<notin> present db"
  by (simp only: lease_state_def present_def option.map_disc_iff mem_Collect_eq not_not)

lemma assert_owner_state:
  "assert_owner db leases s = Inr () \<longleftrightarrow>
     (case lease_state db s of
        None \<Rightarrow> leases_get leases s = None
      | Some (active, k) \<Rightarrow> (case leases_get leases s of None \<Rightarrow> \<not> active | Some e \<Rightarrow> active \<and> e = k))"
  by (auto simp: assert_owner_iff lease_state_def split: option.splits)

text \<open>Every step in terms of lease states and tokens.\<close>

inductive lease_move ::
  "nat \<Rightarrow> (string \<Rightarrow> (bool \<times> int) option) \<Rightarrow> (nat \<Rightarrow> string \<Rightarrow> int option)
     \<Rightarrow> (string \<Rightarrow> (bool \<times> int) option) \<Rightarrow> (nat \<Rightarrow> string \<Rightarrow> int option) \<Rightarrow> bool" for r where
  same: "lease_move r L T L T"
| created: "L s = None \<Longrightarrow> lease_move r L T (L(s \<mapsto> (False, 0))) T"
| deleted: "(case L s of Some (True, k) \<Rightarrow> T r s = Some k | _ \<Rightarrow> True) \<Longrightarrow> lease_move r L T (L(s := None)) T"
| claimed: "L s = Some (a, k) \<Longrightarrow> lease_move r L T (L(s \<mapsto> (True, k + 1))) (T(r := (T r)(s \<mapsto> k + 1)))"
| released: "L' = L \<or> (\<exists>k. L s = Some (True, k) \<and> T r s = Some k \<and> L' = L(s \<mapsto> (False, k))) \<Longrightarrow>
    lease_move r L T L' (T(r := (T r)(s := None)))"
| crashed: "lease_move r L T L (T(r := Map.empty))"

abbreviation token_map :: "world \<Rightarrow> nat \<Rightarrow> string \<Rightarrow> int option" where
  "token_map w \<equiv> \<lambda>r. leases_get (tokens w r)"

lemma lease_state_upd:
  "lease_columns db' = (lease_columns db)(s \<mapsto> (a, e, k)) \<Longrightarrow> lease_state db' = (lease_state db)(s \<mapsto> (a, k))"
  "lease_columns db' = (lease_columns db)(s := None) \<Longrightarrow> lease_state db' = (lease_state db)(s := None)"
  "(\<forall>t. lease_columns db' t = lease_columns db t) \<Longrightarrow> lease_state db' = lease_state db"
  by (auto simp: lease_state_def fun_eq_iff)

lemma lease_state_if_owned:
  assumes "update_if_owned db s expected f = (db', updated)" "\<And>row. lease_token (f row) = lease_token row"
    and "\<And>row. lease_active row \<Longrightarrow> lease_active (f row)"
  shows "lease_state db' = lease_state db"
  using update_if_owned_keeps[OF assms] by (simp add: lease_state_def fun_eq_iff)

lemma written_move:
  assumes "write_apply leases c db = Inr db'" "db_wf db" "leases_get leases = T r"
  shows "lease_move r (lease_state db) T (lease_state db') T"
proof -
  consider "\<forall>s. lease_columns db' s = lease_columns db s"
    | s where "lease_columns db s = None" "lease_columns db' = (lease_columns db)(s \<mapsto> (False, 0, 0))"
    | s where "assert_owner db leases s = Inr ()" "lease_columns db' = (lease_columns db)(s := None)"
    using write_apply_leases[OF assms(1,2)] by blast
  then show ?thesis
  proof cases
    case 1
    then have "lease_state db' = lease_state db" by (rule lease_state_upd)
    then show ?thesis by (simp add: lease_move.same)
  next
    case 2
    then have "lease_state db s = None" by (simp add: lease_state_def)
    then show ?thesis using lease_state_upd(1)[OF 2(2)] lease_move.created by metis
  next
    case 3
    have "case lease_state db s of Some (True, k) \<Rightarrow> T r s = Some k | _ \<Rightarrow> True"
      using 3(1) assms(3) by (auto simp: assert_owner_state split: option.splits bool.splits)
    then show ?thesis using lease_state_upd(2)[OF 3(2)] lease_move.deleted by metis
  qed
qed

lemma claimed_move:
  assumes "claim_turn_for db leases s duration first now = Inr (db', leases')" "leases_get leases = T r"
  shows "\<exists>a k. lease_state db s = Some (a, k) \<and> lease_state db' = (lease_state db)(s \<mapsto> (True, k + 1))
    \<and> leases_get leases' = (T r)(s \<mapsto> k + 1)"
proof -
  obtain row where row: "bt_get (sessions db) s = Some row" "leases' = leases_insert leases s (lease_token row + 1)"
    using assms(1) unfolding claim_iff by blast
  have cols: "lease_columns db s = Some (lease_active row, lease_expires_at row, lease_token row)"
    using row(1) by (simp add: lease_columns_def)
  have "lease_columns db' = (lease_columns db)(s \<mapsto> (True, now + int duration, lease_token row + 1))"
    using lease_columns_claimed[OF assms(1)] cols by (auto simp: fun_eq_iff)
  then have "lease_state db' = (lease_state db)(s \<mapsto> (True, lease_token row + 1))" by (rule lease_state_upd)
  moreover have "lease_state db s = Some (lease_active row, lease_token row)" using cols by (simp add: lease_state_def)
  moreover have "leases_get leases' = (T r)(s \<mapsto> lease_token row + 1)" using row(2) assms(2) by (auto simp: fun_eq_iff)
  ultimately show ?thesis by blast
qed

lemma released_move:
  assumes "release db leases s timer = (updated, db', leases')"
  shows "leases_get leases' = (leases_get leases)(s := None)"
    "lease_state db' = lease_state db \<or> (\<exists>k. lease_state db s = Some (True, k) \<and> leases_get leases s = Some k
       \<and> lease_state db' = (lease_state db)(s \<mapsto> (False, k)))"
proof -
  show "leases_get leases' = (leases_get leases)(s := None)"
    using assms by (auto simp: release_def leases_remove_def leases_get_def fun_eq_iff Let_def split: option.splits prod.splits)
  show "lease_state db' = lease_state db \<or> (\<exists>k. lease_state db s = Some (True, k) \<and> leases_get leases s = Some k
       \<and> lease_state db' = (lease_state db)(s \<mapsto> (False, k)))"
    using assms
    by (auto simp: release_def leases_remove_def leases_get_def update_if_owned_def lease_state_def lease_columns_def
        bt_get_update fun_eq_iff Let_def split: option.splits prod.splits if_splits)
qed

lemma step_moves:
  assumes "world_step r w w'" "world_ok w"
  shows "lease_move r (lease_state (store w)) (token_map w) (lease_state (store w')) (token_map w')"
  using assms(1)
proof cases
  case (written c db')
  then show ?thesis
    using written_move[of "tokens w r" c "store w" db' "token_map w" r] store_okD(1) assms(2) by (simp add: world_ok_def)
next
  case (claims s duration first now db' leases')
  obtain a k where c: "lease_state (store w) s = Some (a, k)" "lease_state db' = (lease_state (store w))(s \<mapsto> (True, k + 1))"
      "leases_get leases' = (token_map w r)(s \<mapsto> k + 1)"
    using claimed_move[OF claims(2), of "token_map w" r] by auto
  have "token_map w' = (token_map w)(r := (token_map w r)(s \<mapsto> k + 1))" using claims(1) c(3) by (auto simp: fun_eq_iff)
  then show ?thesis using lease_move.claimed[of "lease_state (store w)" s a k r "token_map w"] c claims(1) by simp
next
  case (renews s duration now db')
  then obtain e f where u: "update_if_owned (store w) s e (\<lambda>row. row\<lparr>lease_expires_at := f\<rparr>) = (db', True)"
    by (auto simp: renew_turn_def result_simps Let_def split: prod.splits) (metis surj_pair)
  show ?thesis using lease_state_if_owned[OF u] renews(1) by (simp add: lease_move.same)
next
  case (releases s timer updated db' leases')
  have "token_map w' = (token_map w)(r := (token_map w r)(s := None))"
    using releases(1) released_move(1)[OF releases(2)] by (auto simp: fun_eq_iff)
  then show ?thesis
    using lease_move.released[of "lease_state db'" "lease_state (store w)" s "token_map w" r] released_move(2)[OF releases(2)]
      releases(1) by simp
next
  case (timers s timer db')
  have "lease_state db' = lease_state (store w)"
  proof (cases "leases_get (tokens w r) s")
    case (Some e)
    obtain d u where "update_if_owned (store w) s e (\<lambda>row. row\<lparr>turn_timer := Some timer\<rparr>) = (d, u)" by (metis surj_pair)
    then show ?thesis using lease_state_if_owned[of "store w" s e _ d u] timers(2) Some by (simp add: save_turn_timer_def)
  qed (use timers(2) in \<open>simp add: save_turn_timer_def\<close>)
  then show ?thesis using timers(1) lease_move.same by simp
next
  case crashes
  have "token_map w' = (token_map w)(r := Map.empty)" using crashes by (auto simp: fun_eq_iff)
  then show ?thesis using lease_move.crashed[of r "lease_state (store w)" "token_map w"] crashes by simp
qed

lemma tokens_bounded_state:
  "tokens_bounded w \<longleftrightarrow> (\<forall>r s k. token_map w r s = Some k \<longrightarrow>
     s \<in> used w \<and> (\<forall>a t. lease_state (store w) s = Some (a, t) \<longrightarrow> k \<le> t))"
  unfolding tokens_bounded_def lease_state_def by fastforce

lemma move_bounded:
  assumes "lease_move r L T L' T'" "\<And>r s k a t. T r s = Some k \<Longrightarrow> L s = Some (a, t) \<Longrightarrow> k \<le> t"
    and "\<And>r s. L s = None \<Longrightarrow> L' s \<noteq> None \<Longrightarrow> T r s = None"
    and "T' q s = Some k" "L' s = Some (a, t)"
  shows "k \<le> t"
  using assms(1)
proof cases
  case (claimed u b j)
  show ?thesis
  proof (cases "s = u")
    case True
    have "t = j + 1" using assms(5) claimed True by simp
    moreover have "k = j + 1 \<or> T q s = Some k" using assms(4) claimed True by (cases "q = r") auto
    ultimately show ?thesis using assms(2)[of q s k b j] claimed True by auto
  next
    case False
    then show ?thesis using assms(2)[of q s k a t] assms(4,5) claimed by (cases "q = r") auto
  qed
next
  case (released u)
  then have "T q s = Some k" using assms(4) by (cases "q = r"; cases "s = u") auto
  moreover obtain b where "L s = Some (b, t)" using released(2) assms(5) by (cases "s = u") auto
  ultimately show ?thesis using assms(2) by blast
next
  case (created u)
  then show ?thesis using assms(2)[of q s k a t] assms(3)[of s q] assms(4,5) by (cases "s = u") auto
next
  case (deleted u)
  then show ?thesis using assms(2)[of q s k a t] assms(4,5) by (cases "s = u") auto
next
  case crashed
  then show ?thesis using assms(2)[of q s k a t] assms(4,5) by (cases "q = r") auto
qed (use assms(2)[of q s k a t] assms(4,5) in auto)

lemma move_unique:
  assumes "lease_move r L T L' T'" "\<And>r s k a t. T r s = Some k \<Longrightarrow> L s = Some (a, t) \<Longrightarrow> k \<le> t"
    and "\<And>r r' s k. T r s = Some k \<Longrightarrow> T r' s = Some k \<Longrightarrow> r = r'"
    and "T' q s = Some k" "T' q' s = Some k"
  shows "q = q'"
  using assms(1)
proof cases
  case (claimed u b j)
  have "T p s = Some k \<or> p = r \<and> s = u \<and> k = j + 1" if "T' p s = Some k" for p
    using that claimed by (cases "p = r"; cases "s = u") auto
  then have "T q s = Some k \<or> q = r \<and> s = u \<and> k = j + 1" "T q' s = Some k \<or> q' = r \<and> s = u \<and> k = j + 1"
    using assms(4,5) by blast+
  moreover have "T p u \<noteq> Some (j + 1)" for p using assms(2)[of p u "j + 1" b j] claimed(3) by auto
  ultimately show ?thesis using assms(3)[of q s k q'] by auto
next
  case (released u)
  have "T p s = Some k" if "T' p s = Some k" for p
    using that released(1) by (cases "p = r"; cases "s = u") auto
  then show ?thesis using assms(3,4,5) by blast
next
  case crashed
  have "T p s = Some k" if "T' p s = Some k" for p using that crashed(2) by (cases "p = r") auto
  then show ?thesis using assms(3,4,5) by blast
qed (use assms(3,4,5) in blast)+

lemma move_tokens:
  assumes "lease_move r L T L' T'" "T' q s = Some k"
  shows "T q s \<noteq> None \<or> L s \<noteq> None"
  using assms by cases (auto simp: fun_upd_apply split: if_splits)

lemma step_store_ok:
  assumes "world_step r w w'" "world_ok w"
  shows "store_ok (store w')"
proof -
  have ok: "store_ok (store w)" using assms(2) by (simp add: world_ok_def)
  from assms(1) show ?thesis
  proof cases
    case (written c db')
    then show ?thesis using write_apply_ok[OF ok] by simp
  next
    case (claims s duration first now db' leases')
    then show ?thesis
      using store_ok_updated_rows[OF ok, of s "claim_row _"] unfolding claim_iff
      by (auto simp: claim_row_def session_row_ok_def)
  next
    case (renews s duration now db')
    then obtain e f where u: "update_if_owned (store w) s e (\<lambda>row. row\<lparr>lease_expires_at := f\<rparr>) = (db', True)"
      by (auto simp: renew_turn_def result_simps Let_def split: prod.splits) (metis surj_pair)
    show ?thesis using store_ok_if_owned[OF ok u] renews(1) by (simp add: session_row_ok_def)
  next
    case (releases s timer updated db' leases')
    show ?thesis
    proof (cases "bt_get (tokens w r) s")
      case (Some e)
      then obtain u where u: "update_if_owned (store w) s e (\<lambda>row. row\<lparr>lease_active := False, revision := revision row + 1,
           turn_timer := (case timer of None \<Rightarrow> turn_timer row | Some t \<Rightarrow> Some t)\<rparr>) = (db', u)"
        using releases(2) by (auto simp: release_def leases_remove_def Let_def split: prod.splits)
      show ?thesis using store_ok_if_owned[OF ok u] releases(1) by (simp add: session_row_ok_def)
    qed (use releases ok in \<open>auto simp: release_def leases_remove_def\<close>)
  next
    case (timers s timer db')
    show ?thesis
    proof (cases "leases_get (tokens w r) s")
      case (Some e)
      obtain d u where u: "update_if_owned (store w) s e (\<lambda>row. row\<lparr>turn_timer := Some timer\<rparr>) = (d, u)" by (metis surj_pair)
      then show ?thesis
        using store_ok_if_owned[OF ok u] timers Some by (simp add: save_turn_timer_def session_row_ok_def)
    qed (use timers ok in \<open>simp add: save_turn_timer_def\<close>)
  qed (use ok in simp)
qed

text \<open>A session that appears was never used.\<close>

lemma step_appears:
  assumes "world_step r w w'" "world_ok w" "lease_state (store w) s = None" "lease_state (store w') s \<noteq> None"
  shows "s \<notin> used w \<and> s \<in> used w'"
  using assms(1)
proof cases
  case (written c db')
  have "db_wf (store w)" using assms(2) store_okD(1) by (simp add: world_ok_def)
  note cases = write_apply_leases[OF written(2) this]
  have cols: "lease_columns (store w) s = None" "lease_columns db' s \<noteq> None"
    using assms(3,4) written(1) by (simp_all add: lease_state_def)
  then obtain m e q where "c = UpdateSession m e q" "meta_id m = s"
    using cases by (metis fun_upd_apply)
  then show ?thesis using written(1,4) cols by (simp add: present_def)
next
  case (claims u duration first now db' leases')
  then show ?thesis
    using claimed_move[OF claims(2), of "token_map w" r] assms(3,4) by (auto split: if_splits)
next
  case (releases u timer updated db' leases')
  then show ?thesis using released_move(2)[OF releases(2)] assms(3,4) by (auto split: if_splits)
next
  case (renews u duration now db')
  then show ?thesis
    using step_moves[OF assms(1,2)] assms(3,4)
    by (auto simp: renew_turn_def update_if_owned_def lease_state_def lease_columns_def result_simps bt_get_update
        Let_def split: option.splits if_splits)
next
  case (timers u timer db')
  then show ?thesis
    using assms(3,4)
    by (auto simp: save_turn_timer_def update_if_owned_def lease_state_def lease_columns_def bt_get_update
        split: option.splits if_splits)
qed (use assms(3,4) in simp)

lemma step_used: "world_step r w w' \<Longrightarrow> used w \<subseteq> used w'"
  by (cases rule: world_step.cases) auto

lemma step_ok:
  assumes "world_step r w w'" "world_ok w"
  shows "world_ok w'"
proof -
  have w: "present (store w) \<subseteq> used w" "tokens_unique w"
    and bounded: "\<And>q s k. token_map w q s = Some k \<Longrightarrow> s \<in> used w"
      "\<And>q s k a t. token_map w q s = Some k \<Longrightarrow> lease_state (store w) s = Some (a, t) \<Longrightarrow> k \<le> t"
    using assms(2) by (auto simp: world_ok_def tokens_bounded_state)
  note move = step_moves[OF assms] and appears = step_appears[OF assms] and more = step_used[OF assms(1)]
  have "present (store w') \<subseteq> used w'"
    using appears more w(1) lease_state_None by (metis subset_iff)
  moreover have "k \<le> t" if "token_map w' q s = Some k" "lease_state (store w') s = Some (a, t)" for q s k a t
  proof (rule move_bounded[OF move bounded(2) _ that])
    fix p u assume "lease_state (store w) u = None" "lease_state (store w') u \<noteq> None"
    then have "u \<notin> used w" using appears by blast
    then show "token_map w p u = None" using bounded(1)[of p u] by (cases "token_map w p u") auto
  qed
  moreover have "s \<in> used w'" if "token_map w' q s = Some k" for q s k
  proof -
    have "s \<in> used w \<or> s \<in> present (store w)"
      using move_tokens[OF move that] bounded(1)[of q s] lease_state_None[of "store w" s] by auto
    then show ?thesis using w(1) more by blast
  qed
  moreover have "q = q'" if "token_map w' q s = Some k" "token_map w' q' s = Some k" for q q' s k
    using move_unique[OF move bounded(2) _ that] w(2) by (auto simp: tokens_unique_def)
  ultimately show ?thesis
    using step_store_ok[OF assms] by (auto simp: world_ok_def tokens_bounded_state tokens_unique_def)
qed

lemma reachable_ok: "reachable w \<Longrightarrow> world_ok w"
proof (induction rule: reachable.induct)
  case start
  then show ?case
    by (auto simp: initial_world_def world_ok_def store_ok_empty present_def lease_columns_def tokens_bounded_def
        tokens_unique_def) (simp add: empty_database_def)
qed (rule step_ok)

section \<open>Ownership\<close>

lemma not_owner:
  assumes "tokens_unique w" "holds w r s" "q \<noteq> r"
  shows "assert_owner (store w) (tokens w q) s \<noteq> Inr ()"
  using assms by (auto simp: holds_lease_state assert_owner_state tokens_unique_def split: option.splits)

section \<open>An abstract lock service\<close>

text \<open>What the leases are for: each session has at most one owner, with the time its ownership ends.
  A runtime takes a session that is free or whose time is over, prolongs or gives up what it owns,
  and loses all of it in a crash; nothing else changes ownership.\<close>

type_synonym locks = "string \<Rightarrow> (nat \<times> int) option"

inductive lock_step :: "nat \<Rightarrow> locks \<Rightarrow> locks \<Rightarrow> bool" for r where
  keep: "lock_step r own own"
| acquire: "(case own s of None \<Rightarrow> True | Some (_, until) \<Rightarrow> until < now) \<Longrightarrow> now < until' \<Longrightarrow>
    lock_step r own (own(s \<mapsto> (r, until')))"
| prolong: "own s = Some (r, until) \<Longrightarrow> lock_step r own (own(s \<mapsto> (r, until')))"
| vacate: "own s = Some (r, until) \<Longrightarrow> lock_step r own (own(s := None))"
| lose_all: "lock_step r own (\<lambda>s. case own s of Some (q, until) \<Rightarrow> if q = r then None else Some (q, until) | None \<Rightarrow> None)"

definition lock_view :: "world \<Rightarrow> locks \<Rightarrow> bool" where
  "lock_view w own =
     (\<forall>s q until. own s = Some (q, until) \<longleftrightarrow>
        (\<exists>k. lease_columns (store w) s = Some (True, until, k) \<and> token_map w q s = Some k))"

lemma lock_viewD:
  assumes "lock_view w own"
  shows "own s = Some (q, until) \<longleftrightarrow> (\<exists>k. lease_columns (store w) s = Some (True, until, k) \<and> token_map w q s = Some k)"
  using assms by (simp add: lock_view_def)

text \<open>The view after a change of one session \<open>s\<close>, when the rest stays.\<close>

lemma lock_view_upd:
  assumes "lock_view w own"
    and "\<And>u. u \<noteq> s \<Longrightarrow> lease_columns (store w') u = lease_columns (store w) u"
    and "\<And>q u. u \<noteq> s \<Longrightarrow> token_map w' q u = token_map w q u"
    and "\<And>q until. owner = Some (q, until) \<longleftrightarrow>
      (\<exists>k. lease_columns (store w') s = Some (True, until, k) \<and> token_map w' q s = Some k)"
  shows "lock_view w' (own(s := owner))"
  unfolding lock_view_def
proof (intro allI)
  fix u q until
  show "(own(s := owner)) u = Some (q, until) \<longleftrightarrow>
      (\<exists>k. lease_columns (store w') u = Some (True, until, k) \<and> token_map w' q u = Some k)"
    using assms(4)[of q until] lock_viewD[OF assms(1), of u q until] assms(2)[of u] assms(3)[of u q]
    by (cases "u = s") simp_all
qed

lemma lock_view_same:
  assumes "lock_view w own" "\<And>u. lease_columns (store w') u = lease_columns (store w) u"
    and "\<And>q u. token_map w' q u = token_map w q u"
  shows "lock_view w' own"
  using assms by (simp add: lock_view_def)

lemma simulate_written:
  assumes "lock_view w own" "world_ok w" "write_apply (tokens w r) c (store w) = Inr db'"
    and "store w' = db'" "tokens w' = tokens w"
  shows "\<exists>own'. lock_step r own own' \<and> lock_view w' own'"
proof -
  have "db_wf (store w)" using assms(2) store_okD(1) by (simp add: world_ok_def)
  from write_apply_leases[OF assms(3) this]
  consider "\<forall>s. lease_columns db' s = lease_columns (store w) s"
    | s where "lease_columns (store w) s = None" "lease_columns db' = (lease_columns (store w))(s \<mapsto> (False, 0, 0))"
    | s where "assert_owner (store w) (tokens w r) s = Inr ()" "lease_columns db' = (lease_columns (store w))(s := None)"
    by blast
  then show ?thesis
  proof cases
    case 1
    then have "lock_view w' own" using assms(4,5) by (intro lock_view_same[OF assms(1)]) simp_all
    then show ?thesis using lock_step.keep by blast
  next
    case 2
    have "own s = None" using lock_viewD[OF assms(1), of s] 2(1) by (cases "own s") auto
    moreover have "lock_view w' (own(s := None))"
      using 2(2) assms(4,5) by (intro lock_view_upd[OF assms(1)]) auto
    ultimately show ?thesis using lock_step.keep[of r own] by (metis fun_upd_triv)
  next
    case 3
    have view: "lock_view w' (own(s := None))" using 3(2) assms(4,5) by (intro lock_view_upd[OF assms(1)]) auto
    show ?thesis
    proof (cases "own s")
      case None
      then show ?thesis using view lock_step.keep[of r own] by (metis fun_upd_triv)
    next
      case (Some o1)
      obtain q until where q: "own s = Some (q, until)" using Some by (cases o1) auto
      then obtain k where k: "lease_columns (store w) s = Some (True, until, k)" "token_map w q s = Some k"
        using lock_viewD[OF assms(1)] by blast
      have "token_map w r s = Some k" using 3(1) assert_owner_active[OF k(1)] by simp
      then have "q = r" using k(2) assms(2) by (auto simp: world_ok_def tokens_unique_def)
      then show ?thesis using view lock_step.vacate[of own s r until] q by blast
    qed
  qed
qed

lemma simulate_claim:
  assumes "lock_view w own" "world_ok w"
    and "claim_turn_for (store w) (tokens w r) s duration first now = Inr (db', leases')"
    and "w' = w\<lparr>store := db', tokens := (tokens w)(r := leases')\<rparr>"
  shows "\<exists>own'. lock_step r own own' \<and> lock_view w' own'"
proof -
  obtain row where row: "bt_get (sessions (store w)) s = Some row" "duration \<noteq> 0"
      "\<not> lease_active row \<or> lease_expires_at row < now" "leases' = leases_insert (tokens w r) s (lease_token row + 1)"
    using assms(3) unfolding claim_iff by blast
  let ?k = "lease_token row"
  have cols: "lease_columns (store w) s = Some (lease_active row, lease_expires_at row, ?k)"
    using row(1) by (simp add: lease_columns_def)
  have old: "token_map w q s \<noteq> Some (?k + 1)" for q
  proof
    assume "token_map w q s = Some (?k + 1)"
    then have "?k + 1 \<le> ?k" using assms(2) cols unfolding world_ok_def tokens_bounded_def by blast
    then show False by simp
  qed
  have "lock_view w' (own(s \<mapsto> (r, now + int duration)))"
  proof (rule lock_view_upd[OF assms(1)])
    show "lease_columns (store w') u = lease_columns (store w) u" if "u \<noteq> s" for u
      using that lease_columns_claimed[OF assms(3)] assms(4) by simp
    show "token_map w' q u = token_map w q u" if "u \<noteq> s" for q u using that assms(4) row(4) by simp
    show "Some (r, now + int duration) = Some (q, until) \<longleftrightarrow>
        (\<exists>k. lease_columns (store w') s = Some (True, until, k) \<and> token_map w' q s = Some k)" for q until
      using lease_columns_claimed[OF assms(3), of s] cols assms(4) row(4) old[of q] by (cases "q = r") auto
  qed
  moreover have "case own s of None \<Rightarrow> True | Some (_, until) \<Rightarrow> until < now"
    using lock_viewD[OF assms(1), of s] cols row(3) by (auto split: option.split)
  ultimately show ?thesis using lock_step.acquire[where own = own and s = s and now = now and until' = "now + int duration" and r = r] row(2) by auto
qed

lemma simulate_renew:
  assumes "lock_view w own" "renew_turn (store w) (tokens w r) s duration now = Inr db'" "w' = w\<lparr>store := db'\<rparr>"
    and "world_ok w"
  shows "\<exists>own'. lock_step r own own' \<and> lock_view w' own'"
proof -
  obtain e f where e: "leases_get (tokens w r) s = Some e"
      "update_if_owned (store w) s e (\<lambda>row. row\<lparr>lease_expires_at := f\<rparr>) = (db', True)"
    using assms(2) by (auto simp: renew_turn_def result_simps Let_def split: prod.splits) (metis surj_pair)
  then obtain row where row: "bt_get (sessions (store w)) s = Some row" "lease_active row" "lease_token row = e"
      "db' = (store w)\<lparr>sessions := bt_update s (\<lambda>row. row\<lparr>lease_expires_at := f\<rparr>) (sessions (store w))\<rparr>"
    by (auto simp: update_if_owned_def split: option.splits if_splits)
  have cols: "lease_columns db' u = (if u = s then Some (True, f, e) else lease_columns (store w) u)" for u
    using row by (auto simp: lease_columns_def bt_get_update)
  have "own s = Some (r, lease_expires_at row)"
    using lock_viewD[OF assms(1), of s r] row e(1) by (simp add: lease_columns_def)
  moreover have "lock_view w' (own(s \<mapsto> (r, f)))"
    using cols assms(3,4) e(1) by (intro lock_view_upd[OF assms(1)]) (auto simp: world_ok_def tokens_unique_def)
  ultimately show ?thesis using lock_step.prolong[of own s r] by blast
qed

lemma simulate_release:
  assumes "lock_view w own" "release (store w) (tokens w r) s timer = (updated, db', leases')"
    and "w' = w\<lparr>store := db', tokens := (tokens w)(r := leases')\<rparr>" "world_ok w"
  shows "\<exists>own'. lock_step r own own' \<and> lock_view w' own'"
proof (cases "leases_get (tokens w r) s")
  case None
  then have "db' = store w" "\<And>u. leases_get leases' u = token_map w r u"
    using assms(2) by (auto simp: release_def leases_remove_def leases_get_def)
  then have "lock_view w' own" using assms(3) by (intro lock_view_same[OF assms(1)]) auto
  then show ?thesis using lock_step.keep by blast
next
  case (Some e)
  let ?f = "\<lambda>row. row\<lparr>lease_active := False, revision := revision row + 1,
     turn_timer := (case timer of None \<Rightarrow> turn_timer row | Some t \<Rightarrow> Some t)\<rparr>"
  have u: "update_if_owned (store w) s e ?f = (db', updated)" "leases' = bt_remove s (tokens w r)"
    using assms(2) Some by (auto simp: release_def leases_remove_def leases_get_def Let_def split: prod.splits)
  have toks: "token_map w' q v = (if q = r \<and> v = s then None else token_map w q v)" for q v
    using assms(3) u(2) by (simp add: leases_get_def)
  have cols: "lease_columns db' v = (if v = s \<and> updated
      then map_option (\<lambda>(_, until, k). (False, until, k)) (lease_columns (store w) s) else lease_columns (store w) v)" for v
    using update_if_owned_columns[OF u(1), of v] by (simp add: lease_columns_def option.map_comp comp_def)
  have mine: "updated \<longleftrightarrow> (\<exists>until. lease_columns (store w) s = Some (True, until, e))"
    using u(1) by (auto simp: update_if_owned_def lease_columns_def split: option.splits if_splits)
  show ?thesis
  proof (cases updated)
    case True
    then obtain until where "own s = Some (r, until)" using mine lock_viewD[OF assms(1), of s r] Some by blast
    moreover have "lock_view w' (own(s := None))"
      using cols toks True assms(3) by (intro lock_view_upd[OF assms(1)]) auto
    ultimately show ?thesis using lock_step.vacate by blast
  next
    case False
    have "lock_view w' (own(s := own s))"
    proof (rule lock_view_upd[OF assms(1)])
      show "own s = Some (q, until) \<longleftrightarrow> (\<exists>k. lease_columns (store w') s = Some (True, until, k) \<and> token_map w' q s = Some k)" for q until
        using lock_viewD[OF assms(1), of s q until] cols[of s] toks[of q s] False mine Some assms(3) by (cases "q = r") auto
    qed (use cols toks False assms(3) in auto)
    then show ?thesis using lock_step.keep by auto
  qed
qed

lemma simulate_crash:
  assumes "lock_view w own" "w' = w\<lparr>tokens := (tokens w)(r := [])\<rparr>"
  shows "\<exists>own'. lock_step r own own' \<and> lock_view w' own'"
proof -
  let ?own = "\<lambda>s. case own s of Some (q, until) \<Rightarrow> if q = r then None else Some (q, until) | None \<Rightarrow> None"
  have "?own s = Some (q, until) \<longleftrightarrow> own s = Some (q, until) \<and> q \<noteq> r" for s q until
    by (auto split: option.split)
  then have "lock_view w' ?own" using lock_viewD[OF assms(1)] assms(2) unfolding lock_view_def by auto
  then show ?thesis using lock_step.lose_all by blast
qed

lemma simulate_timer:
  assumes "lock_view w own" "save_turn_timer (store w) (tokens w r) s timer = db'" "w' = w\<lparr>store := db'\<rparr>"
  shows "lock_view w' own"
proof (rule lock_view_same[OF assms(1)])
  show "lease_columns (store w') u = lease_columns (store w) u" for u
    using assms(2,3)
    by (auto simp: save_turn_timer_def update_if_owned_def lease_columns_def bt_get_update split: option.splits if_splits)
qed (use assms(3) in simp)

section \<open>A short run\<close>

text \<open>Runtime 0 creates session \<open>s\<close> and claims it for 10 at time 0.\<close>

definition new_session :: session_meta where
  "new_session = (sample_meta ''s'')\<lparr>meta_revision := 0\<rparr>"

definition created_world :: world where
  "created_world = initial_world\<lparr>store := save_session empty_database new_session, used := {''s''}\<rparr>"

definition claimed_store :: database where
  "claimed_store = (store created_world)\<lparr>sessions := bt_update ''s'' (claim_row 10) (sessions (store created_world))\<rparr>"

definition claimed_world :: world where
  "claimed_world = created_world\<lparr>store := claimed_store, tokens := (tokens created_world)(0 := [(''s'', 1)])\<rparr>"

lemma created_row: "bt_get (sessions (store created_world)) t =
  (if t = ''s'' then Some \<lparr>row_data = new_session, row_tip = None, revision = 1, metadata_revision = 1, lease_active = False,
     lease_expires_at = 0, lease_token = 0, turn_timer = None\<rparr> else None)"
  by (simp add: created_world_def initial_world_def save_session_get new_session_def sample_meta_def empty_database_def)

lemma created_reachable: "reachable created_world"
proof (rule reachable.step[OF reachable.start])
  have "write_apply (tokens initial_world 0) (UpdateSession new_session None False) (store initial_world)
      = Inr (store created_world)"
    by (simp add: initial_world_def created_world_def session_update_def assert_owner_def read_session_def empty_database_def
        assert_session_revision_def new_session_def sample_meta_def adopt_tip_def state_of_def)
  moreover have "present (store created_world) = {''s''}" by (auto simp: present_def lease_columns_def created_row split: if_splits)
  ultimately show "world_step 0 initial_world created_world"
    using world_step.written[of initial_world 0 "UpdateSession new_session None False" "store created_world"] valid_id_s
    by (simp add: initial_world_def created_world_def new_session_def sample_meta_def present_def lease_columns_def)
qed

lemma claimed_reachable: "reachable claimed_world"
proof (rule reachable.step[OF created_reachable])
  have "claim_turn_for (store created_world) (tokens created_world 0) ''s'' 10 0 0 = Inr (claimed_store, [(''s'', 1)])"
    unfolding claim_iff created_row
    by (simp add: claimed_store_def i64_max_def leases_insert_def created_world_def initial_world_def)
  then show "world_step 0 created_world claimed_world"
    using world_step.claims unfolding claimed_world_def by blast
qed

lemma claimed_columns: "lease_columns (store claimed_world) ''s'' = Some (True, 10, 1)"
  by (simp add: claimed_world_def claimed_store_def lease_columns_def bt_get_update created_row claim_row_def)

lemma claimed_holds: "holds claimed_world 0 ''s''"
  using claimed_columns by (simp add: holds_lease_def claimed_world_def leases_get_def)

section \<open>Properties\<close>

text \<open>C1. At most one runtime owns a session: in every world that any number of runtimes can reach by
  any interleaving of store operations, claims, renewals, releases, crashes and unsynchronised
  clocks, two runtimes holding the lease of one session are the same.\<close>

theorem lease_mutual_exclusion:
  assumes "reachable w" "holds w r s" "holds w q s"
  shows "r = q"
  using reachable_ok[OF assms(1)] assms(2,3) by (auto simp: holds_lease_state world_ok_def tokens_unique_def)

theorem lease_mutual_exclusion_witness: "holds claimed_world 1 ''s'' \<longleftrightarrow> False"
  using lease_mutual_exclusion[OF claimed_reachable claimed_holds, of 1] by auto

text \<open>C6. The leases implement the lock service: every step of a reachable world is, seen through who
  holds which lease until when, a step of the abstract service by the same runtime; in particular
  only the runtime itself gains a session, it gains it free or over time on its own clock, and
  nobody else loses one it still has time for.\<close>

theorem leases_refine_locks:
  assumes "reachable w" "world_step r w w'" "lock_view w own"
  shows "\<exists>own'. lock_step r own own' \<and> lock_view w' own'"
  using assms(2)
proof cases
  case (written c db')
  then show ?thesis using simulate_written[OF assms(3) reachable_ok[OF assms(1)]] by simp
next
  case (claims s duration first now db' leases')
  then show ?thesis using simulate_claim[OF assms(3) reachable_ok[OF assms(1)]] by blast
next
  case (renews s duration now db')
  then show ?thesis using simulate_renew[OF assms(3) _ _ reachable_ok[OF assms(1)]] by blast
next
  case (releases s timer updated db' leases')
  then show ?thesis using simulate_release[OF assms(3) _ _ reachable_ok[OF assms(1)]] by blast
next
  case (timers s timer db')
  then show ?thesis using simulate_timer[OF assms(3)] lock_step.keep by blast
next
  case crashes
  then show ?thesis using simulate_crash[OF assms(3)] by blast
qed

theorem leases_refine_locks_witness:
  "\<exists>own'. lock_step 0 [''s'' \<mapsto> (0, 10)] own' \<and> lock_view (claimed_world\<lparr>tokens := (tokens claimed_world)(0 := [])\<rparr>) own'"
proof -
  have tok: "token_map claimed_world q s = (if q = 0 \<and> s = ''s'' then Some 1 else None)" for q s
    by (simp add: claimed_world_def created_world_def initial_world_def leases_get_def)
  have "lock_view claimed_world [''s'' \<mapsto> (0, 10)]"
    using claimed_columns by (auto simp: lock_view_def tok split: if_splits)
  then show ?thesis using leases_refine_locks[OF claimed_reachable world_step.crashes] by blast
qed

text \<open>C13. A dead owner blocks a session only until its lease runs out: in every reachable world, any
  runtime whose clock has passed the expiry of a session's lease can claim the session, owns it
  afterwards, and no other runtime does, a paused previous owner included.\<close>

theorem expired_lease_recovers:
  assumes "reachable w" "lease_columns (store w) s = Some (active, expiry, token)" "expiry < now"
    and "0 < duration" "int duration \<le> i64_max" "now + int duration \<le> i64_max"
  shows "\<exists>w'. world_step r w w' \<and> reachable w' \<and> holds w' r s
    \<and> lease_columns (store w') s = Some (True, now + int duration, token + 1)
    \<and> (q = r \<or> holds w' q s = False)"
proof -
  obtain row where row: "bt_get (sessions (store w)) s = Some row" "expiry = lease_expires_at row" "token = lease_token row"
    using assms(2) by (auto simp: lease_columns_def)
  obtain db' leases' where c: "claim_turn_for (store w) (tokens w r) s duration now now = Inr (db', leases')"
      "leases' = leases_insert (tokens w r) s (token + 1)"
    using row assms(3,4,5,6) unfolding claim_iff by auto
  define w' where "w' = w\<lparr>store := db', tokens := (tokens w)(r := leases')\<rparr>"
  have step: "world_step r w w'" using world_step.claims[OF c(1)] by (simp add: w'_def)
  then have reach: "reachable w'" using assms(1) by (rule reachable.step[rotated])
  have cols: "lease_columns (store w') s = Some (True, now + int duration, token + 1)"
    using lease_columns_claimed[OF c(1), of s] assms(2) by (simp add: w'_def)
  then have mine: "holds w' r s" using c(2) by (simp add: holds_lease_def w'_def)
  have "q = r \<or> holds w' q s = False"
    using reachable_ok[OF reach] mine by (auto simp: holds_lease_state world_ok_def tokens_unique_def)
  then show ?thesis using step reach mine cols by blast
qed

theorem expired_lease_recovers_witness:
  "\<exists>w'. world_step 1 claimed_world w' \<and> holds w' 1 ''s'' \<and> holds w' 0 ''s'' = False"
proof -
  have "\<exists>w'. world_step 1 claimed_world w' \<and> reachable w' \<and> holds w' 1 ''s''
      \<and> lease_columns (store w') ''s'' = Some (True, 11 + int 5, 1 + 1) \<and> ((0::nat) = 1 \<or> holds w' 0 ''s'' = False)"
    by (rule expired_lease_recovers[OF claimed_reachable claimed_columns]) (simp_all add: i64_max_def)
  then show ?thesis by auto
qed

text \<open>C23. The store stays consistent: in every reachable world the tables are ordered maps, every row
  of a session agrees with its metadata, every record has the type of its kind and the identifier
  of its key, every script execution is well formed and belongs to the session its row names,
  and every checkpoint is stored under the message it covers.\<close>

theorem reachable_store_consistent:
  assumes "reachable w"
  shows "db_wf (store w) \<and> execs_ok (store w) \<and> checkpoints_keyed (store w)"
  using reachable_ok[OF assms] store_okD by (simp add: world_ok_def)

theorem reachable_store_consistent_witness: "db_wf (store claimed_world)"
  using reachable_store_consistent[OF claimed_reachable] by simp

end
