(* ===== verification/Fencing.thy ===== *)
theory Fencing
  imports World
begin

text \<open>
  What one runtime may do to the sessions of another (crates/kraai-persistence, all its writing
  operations). A session is its row, its queue, its context document, the messages, executions and
  usage that belong to it with their deltas, sources and output, and the messages and checkpoints of
  its history. An operation that succeeds without the ownership check of a session leaves all of that
  as it is; the executions of a session that is not deleted stay well formed and move only forward.
\<close>

section \<open>What belongs to a session\<close>

definition belongs :: "database \<Rightarrow> string \<Rightarrow> string \<Rightarrow> string \<Rightarrow> bool" where
  "belongs db kind s k = (\<exists>row. bt_get (records db) (kind, k) = Some row \<and> record_session_id row = Some s)"

text \<open>Nothing of session \<open>s\<close> changes, except usage recorded under the ids \<open>reused\<close>.\<close>

definition spares :: "string set \<Rightarrow> string \<Rightarrow> database \<Rightarrow> database \<Rightarrow> bool" where
  "spares reused s db db' \<longleftrightarrow>
     bt_get (sessions db') s = bt_get (sessions db) s
     \<and> queue_rows db' s = queue_rows db s
     \<and> bt_get (records db') (''context'', s) = bt_get (records db) (''context'', s)
     \<and> (\<forall>kind k row. kind \<in> {''message'', ''execution'', ''usage''} \<longrightarrow> (kind = ''usage'' \<longrightarrow> k \<notin> reused) \<longrightarrow>
          record_session_id row = Some s \<longrightarrow>
          (bt_get (records db') (kind, k) = Some row \<longleftrightarrow> bt_get (records db) (kind, k) = Some row))
     \<and> (\<forall>k. belongs db ''execution'' s k \<longrightarrow> bt_get (execution_sources db') k = bt_get (execution_sources db) k
          \<and> filter (\<lambda>(e, _). e = k) (execution_output db') = filter (\<lambda>(e, _). e = k) (execution_output db))
     \<and> (\<forall>k. belongs db ''message'' s k \<longrightarrow> delta_rows db' k = delta_rows db k)
     \<and> (\<forall>k kind. in_history db s k \<longrightarrow> kind \<in> {''message'', ''compaction''} \<longrightarrow>
          map_option record_data_of (bt_get (records db') (kind, k)) = map_option record_data_of (bt_get (records db) (kind, k)))"

lemma spares_refl [simp]: "spares reused s db db"
  by (simp add: spares_def)

lemma spares_history:
  assumes "spares reused s db db'" "in_history db s k"
  shows "in_history db' s k"
proof -
  obtain row t where t: "bt_get (sessions db) s = Some row" "row_tip row = Some t" "(t, k) \<in> (parents db)\<^sup>*"
    using assms(2) by (auto simp: in_history_def)
  have "(t, k) \<in> (parents db')\<^sup>*" using t(3)
  proof (induction rule: rtrancl_induct)
    case (step j i)
    have "in_history db s j" using step(1) t(1,2) by (auto simp: in_history_def)
    then have "map_option record_data_of (bt_get (records db') (''message'', j)) = map_option record_data_of (bt_get (records db) (''message'', j))"
      using assms(1) by (simp add: spares_def)
    then have "parent_of db' j = parent_of db j"
      by (cases "bt_get (records db) (''message'', j)") (auto simp: parent_of_def)
    then have "(j, i) \<in> parents db'" using step(2) by (simp add: parents_def)
    then show ?case using step(3) by simp
  qed simp
  moreover have "bt_get (sessions db') s = Some row" using assms(1) t(1) by (simp add: spares_def)
  ultimately show ?thesis using t(2) by (auto simp: in_history_def)
qed

lemma spares_belongs:
  "spares reused s db db' \<Longrightarrow> kind \<in> {''message'', ''execution''} \<Longrightarrow> belongs db' kind s k \<longleftrightarrow> belongs db kind s k"
  by (auto simp: spares_def belongs_def)

lemma spares_trans:
  assumes "spares reused s a b" "spares reused s b c"
  shows "spares reused s a c"
  using assms spares_history[OF assms(1)] spares_belongs[OF assms(1)]
  unfolding spares_def by simp

lemma spares_owner: "spares reused s db db' \<Longrightarrow> assert_owner db' leases s = assert_owner db leases s"
  by (simp add: spares_def assert_owner_def)

section \<open>Changing messages\<close>

text \<open>One message or checkpoint changes that neither belongs to the session nor is in its history.\<close>

lemma spares_records:
  assumes "bt_get (sessions db') s = bt_get (sessions db) s" "queued_messages db' = queued_messages db"
    "execution_sources db' = execution_sources db" "execution_output db' = execution_output db"
    "kind \<in> {''message'', ''compaction''}"
    "\<And>kind' j. kind' = kind \<and> j = k \<or> bt_get (records db') (kind', j) = bt_get (records db) (kind', j)"
    "\<not> belongs db ''message'' s k" "\<not> in_history db s k" "kind = ''message'' \<Longrightarrow> \<not> belongs db' ''message'' s k"
    "\<And>j. (kind = ''message'' \<longrightarrow> j \<noteq> k) \<Longrightarrow> delta_rows db' j = delta_rows db j"
  shows "spares reused s db db'"
  unfolding spares_def
proof (intro conjI allI impI)
  show "bt_get (sessions db') s = bt_get (sessions db) s" by fact
  show "queue_rows db' s = queue_rows db s" using assms(2) by (simp add: queue_rows_def)
  show "bt_get (records db') (''context'', s) = bt_get (records db) (''context'', s)"
    using assms(5) assms(6)[of "''context''" s] by auto
next
  fix kind' j and row :: record_row
  assume k: "kind' \<in> {''message'', ''execution'', ''usage''}" "record_session_id row = Some s"
  show "bt_get (records db') (kind', j) = Some row \<longleftrightarrow> bt_get (records db) (kind', j) = Some row"
  proof (cases "kind' = kind \<and> j = k")
    case True
    then have "kind = ''message''" using k(1) assms(5) by auto
    then show ?thesis using assms(7,9) k(2) True by (auto simp: belongs_def)
  next
    case False
    then have "bt_get (records db') (kind', j) = bt_get (records db) (kind', j)" using assms(6) by blast
    then show ?thesis by simp
  qed
next
  fix j
  show "bt_get (execution_sources db') j = bt_get (execution_sources db) j"
    "filter (\<lambda>(e, _). e = j) (execution_output db') = filter (\<lambda>(e, _). e = j) (execution_output db)"
    using assms(3,4) by simp_all
  show "delta_rows db' j = delta_rows db j" if "belongs db ''message'' s j"
    using that assms(7) assms(10)[of j] by auto
next
  fix j kind'
  assume "in_history db s j"
  then show "map_option record_data_of (bt_get (records db') (kind', j)) = map_option record_data_of (bt_get (records db) (kind', j))"
    using assms(6)[of kind' j] assms(8) by auto
qed

lemma owners_loop_all:
  "owners_loop db leases k assoc visited = Inr ss \<Longrightarrow>
     (\<forall>t \<in> set ss. assert_owner db leases t = Inr ()) \<and> (case assoc of None \<Rightarrow> True | Some t \<Rightarrow> assert_owner db leases t = Inr ())
     \<and> (\<forall>t. record_session db ''message'' k = Inr (Some t) \<longrightarrow> assert_owner db leases t = Inr ())"
proof (induction db leases k assoc visited rule: owners_loop.induct)
  case (1 db leases k assoc visited)
  obtain u owner v ss1 w where step: "k \<notin> visited"
      "(case assoc of None \<Rightarrow> Inr () | Some s \<Rightarrow> assert_owner db leases s) = Inr u"
      "record_session db ''message'' k = Inr owner"
      "(case owner of None \<Rightarrow> Inr () | Some s \<Rightarrow> if owner \<noteq> assoc then assert_owner db leases s else Inr ()) = Inr v"
      "message_sessions db k assoc = Inr ss1" "assert_owners db leases ss1 = Inr w"
    and rest: "(if ss1 \<noteq> [] then Inr ss1 else case parent_of db k of None \<Rightarrow> Inr ss1
        | Some p \<Rightarrow> owners_loop db leases p None (insert k visited)) = Inr ss"
    using "1.prems" by (subst (asm) owners_loop.simps) (auto simp: bindR_eq_Inr split: if_splits)
  have own: "case assoc of None \<Rightarrow> True | Some t \<Rightarrow> assert_owner db leases t = Inr ()"
    using step(2) by (auto split: option.splits)
  then have "\<forall>t. owner = Some t \<longrightarrow> assert_owner db leases t = Inr ()"
    using step(4) by (auto split: if_splits option.splits)
  moreover have "\<forall>t \<in> set ss. assert_owner db leases t = Inr ()"
  proof (cases "ss1 \<noteq> [] \<or> parent_of db k = None")
    case True
    then show ?thesis using rest step(6) assert_owners_iff[of db leases ss1] by (auto split: if_splits)
  next
    case False
    then obtain p where p: "parent_of db k = Some p" "owners_loop db leases p None (insert k visited) = Inr ss" "ss1 = []"
      using rest by auto
    show ?thesis using "1.IH"[OF step(1-6)] p by simp
  qed
  ultimately show ?case using own step(3) by auto
qed

lemma bump_rows: "s \<notin> set ss \<Longrightarrow> bt_get (sessions (foldl (\<lambda>db s. if p s then bump_revision db s else db) db ss)) s = bt_get (sessions db) s"
  by (induction ss arbitrary: db) (auto simp: bump_revision_get)

lemma foreign_write:
  assumes "db_wf db" "write_message_record db leases kind k assoc v = Inr db'" "assert_owner db leases s \<noteq> Inr ()"
    "kind \<in> {''message'', ''compaction''}"
  shows "spares reused s db db'"
proof -
  obtain ss where ss: "owners_loop db leases k assoc {} = Inr ss"
      "db' = foldl (\<lambda>db s. if Some s \<noteq> assoc then bump_revision db s else db)
            (if kind = ''message'' then clear_stream_deltas (write_record db kind k assoc v) k
             else write_record db kind k assoc v) ss"
    using assms(2) unfolding write_message_record_iff assert_message_owners_def by blast
  note all = owners_loop_all[OF ss(1)]
  have assoc: "assoc \<noteq> Some s" using all assms(3) by auto
  have "s \<notin> set ss" using all assms(3) by auto
  then have "bt_get (sessions db') s = bt_get (sessions (write_record db kind k assoc v)) s"
    unfolding ss(2) by (subst bump_rows[where p = "\<lambda>s. Some s \<noteq> assoc"]) simp_all
  then have row: "bt_get (sessions db') s = bt_get (sessions db) s"
    using assoc by (cases assoc) (auto simp: write_record_sessions bump_revision_get)
  have foreign: "\<not> belongs db ''message'' s k"
    using all assms(3) record_session_wf[OF assms(1), of "''message''" k] by (auto simp: belongs_def)
  have hist: "\<not> in_history db s k" using owners_loop_first(3)[OF assms(1) ss(1)] assms(3) by blast
  have recs: "records db' = records (write_record db kind k assoc v)" by (simp add: ss(2) bumps_keep)
  have get: "bt_get (records db') key = (if key = (kind, k) then Some \<lparr>record_session_id =
          (case bt_get (records db) (kind, k) of
             Some row \<Rightarrow> (case record_session_id row of Some s \<Rightarrow> Some s | None \<Rightarrow> assoc)
           | None \<Rightarrow> assoc), record_data_of = v\<rparr> else bt_get (records db) key)" for key
    by (simp add: recs write_record_records)
  have deltas: "delta_rows db' j = delta_rows db j" if "kind = ''message'' \<longrightarrow> j \<noteq> k" for j
    using that unfolding delta_rows_def ss(2) bumps_keep(2)[where p = "\<lambda>s. Some s \<noteq> assoc"]
    by (auto simp: clear_stream_deltas_def bt_retain_def intro!: filter_cong)
  have others: "queued_messages db' = queued_messages db" "execution_sources db' = execution_sources db"
    "execution_output db' = execution_output db"
    unfolding ss(2) bumps_keep(1-5)[where p = "\<lambda>s. Some s \<noteq> assoc"] by simp_all
  have at: "kind' = kind \<and> j = k \<or> bt_get (records db') (kind', j) = bt_get (records db) (kind', j)" for kind' j
    by (simp add: get)
  have after: "kind = ''message'' \<Longrightarrow> \<not> belongs db' ''message'' s k"
    using foreign assoc by (auto simp: get belongs_def split: option.splits)
  show ?thesis
    by (rule spares_records[OF row others(1-3) assms(4) at foreign hist after deltas])
qed

lemma foreign_delete:
  assumes "db_wf db" "delete_message_record db leases kind k = Inr db'" "assert_owner db leases s \<noteq> Inr ()"
    "kind \<in> {''message'', ''compaction''}"
  shows "spares reused s db db'"
proof (cases "bt_get (records db) (kind, k) = None")
  case True
  then show ?thesis using assms(2) by (simp add: delete_message_record_iff)
next
  case False
  then obtain assoc ss where ss: "owners_loop db leases k assoc {} = Inr ss"
      "db' = foldl (\<lambda>db s. if True then bump_revision db s else db)
            (if kind = ''message'' then clear_stream_deltas (delete_record db kind k) k
             else delete_record db kind k) ss"
    using assms(2) unfolding delete_message_record_iff assert_message_owners_def by auto
  note all = owners_loop_all[OF ss(1)] and keep = bumps_keep(1-5)[where p = "\<lambda>_. True"]
  let ?d = "if kind = ''message'' then clear_stream_deltas (delete_record db kind k) k else delete_record db kind k"
  have notin: "s \<notin> set ss" using all assms(3) by auto
  have row: "bt_get (sessions db') s = bt_get (sessions db) s"
    unfolding ss(2) by (subst bump_rows[where p = "\<lambda>_. True", OF notin]) simp
  have foreign: "\<not> belongs db ''message'' s k"
    using all assms(3) record_session_wf[OF assms(1), of "''message''" k] by (auto simp: belongs_def)
  have hist: "\<not> in_history db s k" using owners_loop_first(3)[OF assms(1) ss(1)] assms(3) by blast
  have get: "bt_get (records db') key = (if key = (kind, k) then None else bt_get (records db) key)" for key
    unfolding ss(2) keep by (simp add: delete_record_def)
  have deltas: "delta_rows db' j = delta_rows db j" if "kind = ''message'' \<longrightarrow> j \<noteq> k" for j
    using that unfolding delta_rows_def ss(2) keep
    by (auto simp: delete_record_def clear_stream_deltas_def bt_retain_def intro!: filter_cong)
  have others: "queued_messages db' = queued_messages db" "execution_sources db' = execution_sources db"
    "execution_output db' = execution_output db"
    unfolding ss(2) keep by (simp_all add: delete_record_def)
  have at: "kind' = kind \<and> j = k \<or> bt_get (records db') (kind', j) = bt_get (records db) (kind', j)" for kind' j
    by (simp add: get)
  show ?thesis
    by (rule spares_records[OF row others(1-3) assms(4) at foreign hist _ deltas]) (auto simp: get belongs_def)
qed


section \<open>The other operations\<close>

lemma spares_sessions:
  assumes "bt_get (sessions db') s = bt_get (sessions db) s" "queue_rows db' s = queue_rows db s" "records db' = records db"
    "execution_sources db' = execution_sources db" "execution_output db' = execution_output db"
    "\<And>k. belongs db ''message'' s k \<Longrightarrow> delta_rows db' k = delta_rows db k"
  shows "spares reused s db db'"
  using assms by (simp add: spares_def)

text \<open>One record of a kind that is no message changes, and does not belong to the session.\<close>

lemma spares_record:
  assumes "bt_get (sessions db') s = bt_get (sessions db) s" "queued_messages db' = queued_messages db"
    "stream_deltas db' = stream_deltas db"
    "\<And>kind' j. kind' = kind \<and> j = k \<or> bt_get (records db') (kind', j) = bt_get (records db) (kind', j)"
    "kind \<in> {''execution'', ''usage'', ''context''}" "kind = ''context'' \<longrightarrow> k \<noteq> s"
    "kind = ''usage'' \<and> k \<in> reused \<or> kind = ''context'' \<or> \<not> belongs db kind s k \<and> \<not> belongs db' kind s k"
    "\<And>j. kind = ''execution'' \<and> j = k \<or> bt_get (execution_sources db') j = bt_get (execution_sources db) j
       \<and> filter (\<lambda>(e, _). e = j) (execution_output db') = filter (\<lambda>(e, _). e = j) (execution_output db)"
  shows "spares reused s db db'"
  unfolding spares_def
proof (intro conjI allI impI)
  show "bt_get (sessions db') s = bt_get (sessions db) s" by fact
  show "queue_rows db' s = queue_rows db s" using assms(2) by (simp add: queue_rows_def)
  show "bt_get (records db') (''context'', s) = bt_get (records db) (''context'', s)"
    using assms(6) assms(4)[of "''context''" s] by auto
next
  fix kind' j and row :: record_row
  assume k: "kind' \<in> {''message'', ''execution'', ''usage''}" "kind' = ''usage'' \<longrightarrow> j \<notin> reused" "record_session_id row = Some s"
  show "bt_get (records db') (kind', j) = Some row \<longleftrightarrow> bt_get (records db) (kind', j) = Some row"
    using k assms(5,7) assms(4)[of kind' j] by (auto simp: belongs_def)
next
  fix j
  assume "belongs db ''execution'' s j"
  then have "\<not> (kind = ''execution'' \<and> j = k)" using assms(7) by auto
  then show "bt_get (execution_sources db') j = bt_get (execution_sources db) j"
    "filter (\<lambda>(e, _). e = j) (execution_output db') = filter (\<lambda>(e, _). e = j) (execution_output db)"
    using assms(8)[of j] by blast+
next
  fix j
  show "delta_rows db' j = delta_rows db j" using assms(3) by (simp add: delta_rows_def)
next
  fix j kind'
  assume "kind' \<in> {''message'', ''compaction''}"
  then show "map_option record_data_of (bt_get (records db') (kind', j)) = map_option record_data_of (bt_get (records db) (kind', j))"
    using assms(4)[of kind' j] assms(5) by auto
qed

lemma foreign_links:
  assumes "foldR (link_step leases t) db ms = Inr db'" "db_wf db" "valid_id t" "assert_owner db leases s \<noteq> Inr ()"
  shows "spares reused s db db'"
  using assms(1,2,4)
proof (induction ms arbitrary: db)
  case (Cons m ms)
  obtain mid where mid: "link_step leases t db m = Inr mid" "foldR (link_step leases t) mid ms = Inr db'"
    using Cons.prems(1) by (auto simp: bindR_eq_Inr)
  then have w: "write_message_record db leases ''message'' (message_id m) (Some t) (MessageRecord m) = Inr mid"
    by (simp add: link_step_iff)
  have one: "spares reused s db mid" by (rule foreign_write[OF Cons.prems(2) w Cons.prems(3)]) simp
  have "db_wf mid" by (rule write_message_record_wf[OF Cons.prems(2) w]) (use assms(3) in simp_all)
  from Cons.IH[OF mid(2) this] Cons.prems(3) show ?case using spares_trans[OF one] spares_owner[OF one] by simp
qed simp

lemma foreign_save_session: "meta_id m \<noteq> s \<Longrightarrow> spares reused s db (save_session db m)"
  by (rule spares_sessions) (auto simp: save_session_get queue_rows_def delta_rows_def)

lemma foreign_consume: "t \<noteq> s \<Longrightarrow> spares reused s db (consume_queued_messages db t n)"
  by (rule spares_sessions)
    (auto simp: consume_queued_messages_def queue_rows_def delta_rows_def bt_retain_def intro!: filter_cong)

lemma foreign_adopt:
  assumes "meta_id m \<noteq> s"
  shows "spares reused s db (adopt_tip db m)"
proof (cases "tip_id m")
  case (Some tip)
  have get: "bt_get (records (adopt_tip db m)) key = map_option (\<lambda>row. if key = (''message'', tip) \<and> record_session_id row = None
      then row\<lparr>record_session_id := Some (meta_id m)\<rparr> else row) (bt_get (records db) key)" for key
    by (cases "bt_get (records db) key")
      (auto simp: adopt_tip_def Some bt_get_update split: option.split)
  show ?thesis
    unfolding spares_def
    using assms by (auto simp: get queue_rows_def delta_rows_def option.map_comp comp_def option.map_ident intro!: option.map_cong split: if_splits)
qed (simp add: adopt_tip_def)


lemma foreign_unreferenced:
  assumes "db_wf db" "delete_unreferenced db leases k = Inr db'" "assert_owner db leases s \<noteq> Inr ()"
    "bt_get (sessions db) s \<noteq> None"
  shows "spares reused s db db'"
proof (cases "message_referenced db k")
  case True
  then show ?thesis using assms(2) by (simp add: delete_unreferenced_def)
next
  case False
  then obtain owner where o: "record_session db ''message'' k = Inr owner"
      "\<forall>s. owner = Some s \<longrightarrow> read_session db s \<noteq> None \<longrightarrow> assert_owner db leases s = Inr ()"
      "db' = clear_stream_deltas
            (db\<lparr>records := bt_retain (\<lambda>(kind, i) _. \<not> (kind \<in> {''message'', ''compaction''} \<and> i = k)) (records db)\<rparr>) k"
    using assms(2) by (auto simp: delete_unreferenced_def delete_message_records_iff)
  have foreign: "\<not> belongs db ''message'' s k"
    using o(1,2) assms(3,4) record_session_wf[OF assms(1), of "''message''" k]
    by (auto simp: belongs_def read_session_def)
  have hist: "\<not> in_history db s k" using False message_referenced_iff[OF assms(1)] by blast
  have get: "bt_get (records db') (kind, j) =
      (if kind \<in> {''message'', ''compaction''} \<and> j = k then None else bt_get (records db) (kind, j))" for kind j
    using assms(1) by (auto simp: o(3) bt_get_retain split: option.split)
  have deltas: "delta_rows db' j = delta_rows db j" if "j \<noteq> k" for j
    using that by (auto simp: o(3) delta_rows_def clear_stream_deltas_def bt_retain_def intro!: filter_cong)
  have others: "sessions db' = sessions db" "queued_messages db' = queued_messages db"
    "execution_sources db' = execution_sources db" "execution_output db' = execution_output db"
    by (simp_all add: o(3))
  have kept: "bt_get (records db') (kind, j) = Some row \<longleftrightarrow> bt_get (records db) (kind, j) = Some row"
    if "kind \<in> {''message'', ''execution'', ''usage''}" "record_session_id row = Some s" for kind j row
  proof (cases "kind = ''message'' \<and> j = k")
    case True
    then show ?thesis using foreign that(2) by (auto simp: get belongs_def)
  next
    case False
    then have "bt_get (records db') (kind, j) = bt_get (records db) (kind, j)" using that(1) by (auto simp: get)
    then show ?thesis by simp
  qed
  have same: "bt_get (records db') (kind, j) = bt_get (records db) (kind, j)" if "in_history db s j" for kind j
    using hist that by (auto simp: get)
  have unread: "delta_rows db' j = delta_rows db j" if "belongs db ''message'' s j" for j
    by (rule deltas) (use foreign that in auto)
  show ?thesis
    unfolding spares_def
  proof (intro conjI allI impI)
    show "bt_get (records db') (''context'', s) = bt_get (records db) (''context'', s)" by (simp add: get)
  next
    fix kind j and row :: record_row
    assume "kind \<in> {''message'', ''execution'', ''usage''}" "record_session_id row = Some s"
    then show "bt_get (records db') (kind, j) = Some row \<longleftrightarrow> bt_get (records db) (kind, j) = Some row" by (rule kept)
  qed (simp_all add: others queue_rows_def same unread)
qed

lemma doomed_checked:
  assumes "foldR (\<lambda>db k. delete_message_records db leases k) db ks = Inr db'" "k \<in> set ks" "db_wf db"
    "belongs db ''message'' s k" "read_session db s \<noteq> None"
  shows "assert_owner db leases s = Inr ()"
  using assms
proof (induction ks arbitrary: db)
  case (Cons j ks)
  obtain mid where mid: "delete_message_records db leases j = Inr mid"
      "foldR (\<lambda>db k. delete_message_records db leases k) mid ks = Inr db'"
    using Cons.prems(1) by (auto simp: bindR_eq_Inr)
  obtain owner where o: "record_session db ''message'' j = Inr owner"
      "\<forall>s. owner = Some s \<longrightarrow> read_session db s \<noteq> None \<longrightarrow> assert_owner db leases s = Inr ()"
      "mid = clear_stream_deltas
            (db\<lparr>records := bt_retain (\<lambda>(kind, i) _. \<not> (kind \<in> {''message'', ''compaction''} \<and> i = j)) (records db)\<rparr>) j"
    using mid(1) unfolding delete_message_records_iff by blast
  show ?case
  proof (cases "j = k")
    case True
    then show ?thesis
      using o(1,2) Cons.prems(4,5) record_session_wf[OF Cons.prems(3), of "''message''" k] by (auto simp: belongs_def)
  next
    case False
    have wf: "db_wf (db\<lparr>records := bt_retain p (records db)\<rparr>)" for p
      using Cons.prems(3) by (simp add: db_wf_def)
    have "belongs mid ''message'' s k"
      using Cons.prems(3,4) False by (auto simp: o(3) belongs_def bt_get_retain)
    moreover have "read_session mid s \<noteq> None" using Cons.prems(5) by (simp add: o(3) read_session_def)
    moreover have "db_wf mid" unfolding o(3) by (rule clear_stream_deltas_keeps(7)) (rule wf)
    moreover have "assert_owner mid leases s = assert_owner db leases s" by (simp add: o(3) assert_owner_def)
    ultimately show ?thesis using Cons.IH[OF mid(2)] Cons.prems(2) False by auto
  qed
qed simp

lemma foreign_session_delete:
  assumes ok: "store_ok db" and "session_delete db leases t = Inr db'" "assert_owner db leases s \<noteq> Inr ()"
    "bt_get (sessions db) s \<noteq> None"
  shows "spares reused s db db'"
proof -
  note assms = store_okD(1)[OF ok] assms(2-4)
  note tables = session_delete_tables[OF assms(2)]
  have ts: "t \<noteq> s" using tables(1) assms(3) by auto
  let ?db = "delete_queued (db\<lparr>sessions := bt_remove t (sessions db)\<rparr>) t"
  obtain db1 where db1: "foldR (\<lambda>db k. delete_message_records db leases k) ?db (doomed_messages db t) = Inr db1"
    using assms(2) by (auto simp: session_delete_def Let_def bindR_eq_Inr)
  have wf: "db_wf ?db" using assms(1) by (simp add: db_wf_def delete_queued_def)
  have kept: "k \<notin> set (doomed_messages db t)" if "belongs db ''message'' s k" for k
  proof
    assume "k \<in> set (doomed_messages db t)"
    then have "assert_owner ?db leases s = Inr ()"
      using doomed_checked[OF db1 _ wf, of k s] that assms(4) ts
      by (auto simp: belongs_def delete_queued_def read_session_def)
    then show False using assms(3) ts by (simp add: assert_owner_def delete_queued_def)
  qed
  have hist: "k \<notin> set (doomed_messages db t)" if "in_history db s k" for k
    using that ts by (auto simp: doomed_iff[OF assms(1)])
  have get: "bt_get (records db') key = (case bt_get (records db) key of None \<Rightarrow> None
      | Some row \<Rightarrow> if record_doomed db t (key, row) then None else Some row)" for key
    using assms(1) by (auto simp: tables(4) bt_get_filter split: option.split)
  have exec: "k \<notin> set (session_executions db t)" if "belongs db ''execution'' s k" for k
    using that ts bt_get_mem[of "records db"] assms(1) by (force simp: session_executions_def belongs_def)
  have context_row: "record_session_id row = Some s" if "bt_get (records db) (''context'', s) = Some row" for row
  proof -
    have "row_ok (''context'', s) row" using table_all_get[OF _ that] ok by (auto simp: store_ok_def)
    then show ?thesis by (cases "record_data_of row") (auto simp: row_ok_def record_row_ok_def)
  qed
  have old: "bt_get (records db') (kind, k) = Some row \<longleftrightarrow> bt_get (records db) (kind, k) = Some row"
    if "kind \<in> {''message'', ''execution'', ''usage''}" "record_session_id row = Some s" for kind k row
  proof -
    have "\<not> record_doomed db t ((kind, k), row)" if "bt_get (records db) (kind, k) = Some row"
      using that \<open>record_session_id row = Some s\<close> \<open>kind \<in> _\<close> ts kept[of k] by (auto simp: record_doomed_def belongs_def)
    then show ?thesis by (auto simp: get split: option.split)
  qed
  show ?thesis
    unfolding spares_def
  proof (intro conjI allI impI)
    show "bt_get (sessions db') s = bt_get (sessions db) s" using ts by (simp add: tables(2))
    show "queue_rows db' s = queue_rows db s"
      using ts by (auto simp: tables(3) queue_rows_def bt_retain_def intro!: filter_cong)
    show "bt_get (records db') (''context'', s) = bt_get (records db) (''context'', s)"
      using context_row ts by (auto simp: get record_doomed_def split: option.split)
  next
    fix kind k and row :: record_row
    assume "kind \<in> {''message'', ''execution'', ''usage''}" "record_session_id row = Some s"
    then show "bt_get (records db') (kind, k) = Some row \<longleftrightarrow> bt_get (records db) (kind, k) = Some row" by (rule old)
  next
    fix k
    assume b: "belongs db ''execution'' s k"
    show "bt_get (execution_sources db') k = bt_get (execution_sources db) k"
      using exec[OF b] assms(1) by (auto simp: tables(6) bt_get_retain db_wf_def split: option.split)
    show "filter (\<lambda>(e, _). e = k) (execution_output db') = filter (\<lambda>(e, _). e = k) (execution_output db)"
      using exec[OF b] by (auto simp: tables(7) intro!: filter_cong)
  next
    fix k
    assume "belongs db ''message'' s k"
    then show "delta_rows db' k = delta_rows db k"
      using kept[of k] by (auto simp: tables(5) delta_rows_def intro!: filter_cong)
  next
    fix k kind
    assume "in_history db s k" "kind \<in> {''message'', ''compaction''}"
    then show "map_option record_data_of (bt_get (records db') (kind, k)) = map_option record_data_of (bt_get (records db) (kind, k))"
      using hist[of k] by (auto simp: get record_doomed_def split: option.split)
  qed
qed

lemma foreign_exec:
  assumes "execs_ok db" "exec_apply op db leases k now = Inr db'" "assert_owner db leases s \<noteq> Inr ()"
  shows "spares reused s db db'"
  using assms(2)
proof (cases rule: exec_apply_cases)
  case (move r r1)
  obtain row where row: "bt_get (records db) (''execution'', k) = Some row" "record_session_id row = Some (exec_session_id r)"
    using exec_row[OF assms(1) move(1)] by blast
  have id: "exec_id r = k" using exec_row[OF assms(1) move(1)] by simp
  have rs: "exec_session_id r \<noteq> s" using move(2) assms(3) by auto
  show ?thesis
  proof (rule spares_record[where kind = "''execution''" and k = k])
    show "bt_get (sessions db') s = bt_get (sessions db) s"
      using rs by (simp add: move(4) write_record_sessions bump_revision_get)
    show "kind' = ''execution'' \<and> j = k \<or> bt_get (records db') (kind', j) = bt_get (records db) (kind', j)" for kind' j
      by (simp add: move(4) write_record_records)
    have "\<not> belongs db ''execution'' s k \<and> \<not> belongs db' ''execution'' s k"
      using rs row by (simp add: belongs_def move(4) write_record_records)
    then show "''execution'' = ''usage'' \<and> k \<in> reused \<or> ''execution'' = ''context'' \<or>
        \<not> belongs db ''execution'' s k \<and> \<not> belongs db' ''execution'' s k" by simp
    show "''execution'' = ''execution'' \<and> j = k \<or> bt_get (execution_sources db') j = bt_get (execution_sources db) j
       \<and> filter (\<lambda>(e, _). e = j) (execution_output db') = filter (\<lambda>(e, _). e = j) (execution_output db)" for j
      by (cases op) (auto simp: move(4) id filter_empty_conv conj_commute cong: conj_cong intro!: filter_cong)
  qed (simp_all add: move(4))
qed simp


text \<open>Usage is stored under the id of its message alone: the ids of session \<open>s\<close> that an operation records
  the usage of another session under.\<close>

fun reused_ids :: "database \<Rightarrow> string \<Rightarrow> write_op \<Rightarrow> string set" where
  "reused_ids db s (SaveUsage _ r) =
     (if belongs db ''usage'' s (usage_message_id r) then {usage_message_id r} else {})"
| "reused_ids db s _ = {}"

lemma bumped_row: "t \<noteq> s \<Longrightarrow> bt_get (sessions (bump_revision db t)) s = bt_get (sessions db) s"
  by (simp add: bump_revision_get)

lemma written_row_kept:
  "t \<noteq> s \<Longrightarrow> bt_get (sessions (write_record db kind k (Some t) v)) s = bt_get (sessions db) s"
  by (simp add: write_record_sessions bump_revision_get)

lemma filter_insert_other: "(\<And>w. \<not> P (k, w)) \<Longrightarrow> filter P (bt_insert k v m) = filter P m"
  by (induction k v m rule: bt_insert.induct) auto

lemma filter_insert_deltas:
  "insert_deltas k n t ds = Inr t' \<Longrightarrow> j \<noteq> k \<Longrightarrow> filter (\<lambda>((m, _), _). m = j) t' = filter (\<lambda>((m, _), _). m = j) t"
  by (induction k n t ds arbitrary: t' rule: insert_deltas.induct)
    (auto simp: result_simps filter_insert_other split: if_splits)

lemma foreign_context_write:
  assumes "t \<noteq> s"
  shows "spares reused s db (write_record db ''context'' t (Some t) v)"
  by (rule spares_record[where kind = "''context''" and k = t])
    (use assms in \<open>simp_all add: written_row_kept write_record_records\<close>)

lemma foreign_context:
  assumes "context_apply leases c db = Inr db'" "assert_owner db leases s \<noteq> Inr ()"
  shows "spares reused s db db'"
proof -
  have w: "assert_owner db leases t = Inr () \<Longrightarrow> spares reused s db (write_record db ''context'' t (Some t) v)" for t v
    using assms(2) by (intro foreign_context_write) auto
  then show ?thesis
    using assms(1)
    by (cases c) (auto simp: append_command_def append_runtime_def append_event_def save_snapshots_def
        save_instructions_def Let_def result_simps split: if_splits)
qed

lemma write_spares:
  assumes "store_ok db" "write_apply leases c db = Inr db'" "ids_valid c" "assert_owner db leases s \<noteq> Inr ()"
    "bt_get (sessions db) s \<noteq> None"
  shows "spares (reused_ids db s c) s db db'"
proof -
  note wf = store_okD(1)[OF assms(1)]
  show ?thesis
  proof (cases c)
    case (Enqueue t m)
    then have "t \<noteq> s" "db' = insert_queued db t m" using assms(2,4) by (auto simp: enqueue_message_def Let_def result_simps)
    then show ?thesis
      by (intro spares_sessions) (auto simp: insert_queued_def delta_rows_def queue_rows_def filter_insert_other)
  next
    case (ClearQueue t)
    then have "t \<noteq> s" "db' = delete_queued db t" using assms(2,4) by (auto simp: clear_queued_messages_def result_simps)
    then show ?thesis
      by (intro spares_sessions)
        (auto simp: delete_queued_def queue_rows_def delta_rows_def bt_retain_def intro!: filter_cong)
  next
    case (RemoveQueued t n)
    then have "t \<noteq> s" "db' = consume_queued_messages db t n" using assms(2,4) by (auto simp: remove_queued_messages_def result_simps)
    then show ?thesis using foreign_consume by simp
  next
    case (CreateExec e fresh now)
    then obtain r where r: "exec_create db leases e fresh now = Inr (r, db')" using assms(2) by (auto simp: result_simps)
    note facts = exec_create_iff[OF r]
    have ts: "new_session_id e \<noteq> s" using facts assms(4) by auto
    have d: "db' = write_record (db\<lparr>execution_sources := bt_insert (new_id e) (new_source e) (execution_sources db)\<rparr>)
         ''execution'' (new_id e) (Some (new_session_id e)) (ExecutionRecord r)" using facts by blast
    show ?thesis
    proof (rule spares_record[where kind = "''execution''" and k = "new_id e"])
      have "\<not> belongs db ''execution'' s (new_id e) \<and> \<not> belongs db' ''execution'' s (new_id e)"
        using facts ts by (simp add: belongs_def write_record_records)
      then show "''execution'' = ''usage'' \<and> new_id e \<in> reused_ids db s c \<or> ''execution'' = ''context'' \<or>
          \<not> belongs db ''execution'' s (new_id e) \<and> \<not> belongs db' ''execution'' s (new_id e)" by simp
      show "bt_get (sessions db') s = bt_get (sessions db) s" unfolding d written_row_kept[OF ts] by simp
    qed (simp_all add: d write_record_records)
  next
    case (ChangeExec x k now)
    then show ?thesis using foreign_exec[OF store_okD(2)[OF assms(1)]] assms(2,4) by simp
  next
    case (StreamDeltas k first ds)
    then obtain t table where t: "record_session db ''message'' k = Inr (Some t)" "assert_owner db leases t = Inr ()"
      and d: "insert_deltas k first (stream_deltas db) ds = Inr table" "db' = bump_revision (db\<lparr>stream_deltas := table\<rparr>) t"
      using assms(2) by (auto simp: append_deltas_iff)
    have ts: "t \<noteq> s" using t(2) assms(4) by auto
    have foreign: "\<not> belongs db ''message'' s k"
      using t(1) ts record_session_wf[OF wf, of "''message''" k] by (auto simp: belongs_def)
    have deltas: "delta_rows db' j = delta_rows db j" if "belongs db ''message'' s j" for j
      using filter_insert_deltas[OF d(1), of j] foreign that by (auto simp: d(2) delta_rows_def)
    show ?thesis
      by (rule spares_sessions[OF _ _ _ _ _ deltas]) (use ts in \<open>simp_all add: d(2) bumped_row queue_rows_def\<close>)
  next
    case (SaveMessage m)
    then obtain assoc where "write_message_record db leases ''message'' (message_id m) assoc (MessageRecord m) = Inr db'"
      using message_save_iff[OF wf, of leases m db'] assms(2) by auto
    then show ?thesis by (rule foreign_write[OF wf _ assms(4)]) simp
  next
    case (SaveCheckpoint k)
    then obtain assoc where "write_message_record db leases ''compaction'' (covered_through k) assoc (CompactionRecord k) = Inr db'"
      using assms(2) by (auto simp: checkpoint_save_def result_simps)
    then show ?thesis by (rule foreign_write[OF wf _ assms(4)]) simp
  next
    case (DeleteMessage k)
    then have "delete_message_record db leases ''message'' k = Inr db'" using assms(2) by (simp add: message_delete_def)
    then show ?thesis by (rule foreign_delete[OF wf _ assms(4)]) simp
  next
    case (DeleteCheckpoint k)
    then have "delete_message_record db leases ''compaction'' k = Inr db'" using assms(2) by (simp add: checkpoint_delete_def)
    then show ?thesis by (rule foreign_delete[OF wf _ assms(4)]) simp
  next
    case (LinkMessages request)
    obtain ms session tip through where q: "request = \<lparr>link_messages = ms, link_session = session,
        link_expected_tip = tip, consumed_queue_through = through\<rparr>" by (cases request) auto
    obtain r where r: "save_linked db leases request = Inr (r, db')" using assms(2) LinkMessages by (auto simp: result_simps)
    then have ts: "meta_id session \<noteq> s" using assms(4) by (auto simp: q save_linked_iff)
    have valid: "valid_id (meta_id session)" using assms(3) LinkMessages q by simp
    consider "db' = db" | db1 where "foldR (link_step leases (meta_id session)) db ms = Inr db1" "db' = finish_link db1 session through"
      using r by (auto simp: q save_linked_iff split: if_splits)
    then show ?thesis
    proof cases
      case 2
      have links: "spares (reused_ids db s c) s db db1" by (rule foreign_links[OF 2(1) wf valid assms(4)])
      have "spares (reused_ids db s c) s db1 db'"
        using ts foreign_save_session[OF ts] spares_trans[OF foreign_save_session[OF ts] foreign_consume[OF ts]]
        by (cases through) (auto simp: 2(2) finish_link_def)
      then show ?thesis by (rule spares_trans[OF links])
    qed simp
  next
    case (UpdateSession m e q)
    then obtain ok where "session_update db leases m e q = Inr (ok, db')" using assms(2) by (auto simp: result_simps)
    then have "meta_id m \<noteq> s" "db' = db \<or> db' = adopt_tip (save_session db m) m"
      using assms(4) by (auto simp: session_update_iff split: if_splits)
    then show ?thesis using spares_trans[OF foreign_save_session foreign_adopt] by auto
  next
    case (DeleteSession t)
    then show ?thesis using foreign_session_delete[OF assms(1) _ assms(4,5)] assms(2) by simp
  next
    case (DeleteUnreferenced k)
    then show ?thesis using foreign_unreferenced[OF wf _ assms(4,5)] assms(2) by simp
  next
    case (ChangeContext x)
    then show ?thesis using foreign_context assms(2,4) by simp
  next
    case (DeleteContext t)
    then have ts: "t \<noteq> s" and d: "db' = bump_revision (delete_record db ''context'' t) t"
      using assms(2,4) by (auto simp: context_delete_def result_simps)
    show ?thesis
      by (rule spares_record[where kind = "''context''" and k = t])
        (use ts in \<open>simp_all add: d bumped_row delete_record_def\<close>)
  next
    case (SaveUsage t r)
    then have ts: "t \<noteq> s" and d: "db' = write_record db ''usage'' (usage_message_id r) (Some t) (UsageRecord r)"
      using assms(2,4) by (auto simp: usage_save_def result_simps)
    have after: "\<not> belongs db' ''usage'' s (usage_message_id r)" if "\<not> belongs db ''usage'' s (usage_message_id r)"
      using that ts by (auto simp: belongs_def d write_record_records split: option.splits)
    show ?thesis
      by (rule spares_record[where kind = "''usage''" and k = "usage_message_id r"])
        (use ts SaveUsage after in \<open>simp_all add: d written_row_kept write_record_records\<close>)
  next
    case (DeleteUsage t)
    then have ts: "t \<noteq> s" and d: "db' = bump_revision (db\<lparr>records := bt_retain
       (\<lambda>(kind, _) row. \<not> (kind = ''usage'' \<and> record_session_id row = Some t)) (records db)\<rparr>) t"
      using assms(2,4) by (auto simp: usage_delete_def result_simps)
    have get: "bt_get (records db') (kind, k) = (case bt_get (records db) (kind, k) of None \<Rightarrow> None
        | Some row \<Rightarrow> if kind = ''usage'' \<and> record_session_id row = Some t then None else Some row)" for kind k
      using wf by (auto simp: d bt_get_retain split: option.split)
    have others: "bt_get (sessions db') s = bt_get (sessions db) s" "queued_messages db' = queued_messages db"
      "stream_deltas db' = stream_deltas db" "execution_sources db' = execution_sources db"
      "execution_output db' = execution_output db"
      using ts by (simp_all add: d bumped_row)
    show ?thesis
      unfolding spares_def queue_rows_def delta_rows_def others using ts by (auto simp: get split: option.split)
  next
    case (ModelList x)
    then show ?thesis using assms(2) by (intro spares_sessions) (auto simp: queue_rows_def delta_rows_def)
  qed
qed


section \<open>What a reader sees\<close>

lemma filter_same_rows:
  assumes "bt_wf m" "bt_wf m'" "\<And>k v. P (k, v) \<Longrightarrow> bt_get m' k = Some v \<longleftrightarrow> bt_get m k = Some v"
  shows "filter P m' = filter P m"
proof -
  have "bt_retain (\<lambda>k v. P (k, v)) m' = bt_retain (\<lambda>k v. P (k, v)) m"
  proof (rule bt_eqI)
    fix k
    show "bt_get (bt_retain (\<lambda>k v. P (k, v)) m') k = bt_get (bt_retain (\<lambda>k v. P (k, v)) m) k"
      using assms(3)[of k "the (bt_get m k)"] assms(3)[of k "the (bt_get m' k)"]
      by (auto simp: bt_get_retain[OF assms(1)] bt_get_retain[OF assms(2)] split: option.split)
  qed (use assms in simp_all)
  then show ?thesis by (simp add: bt_retain_def)
qed

lemma spares_lists:
  assumes "spares reused s db db'" "db_wf db" "db_wf db'" "kind \<in> {''execution'', ''usage''}" "kind = ''usage'' \<longrightarrow> reused = {}"
  shows "list_records as db' kind (Some s) = list_records as db kind (Some s)"
proof -
  have "filter (\<lambda>((k, _), row). k = kind \<and> (Some s = None \<or> record_session_id row = Some s)) (records db')
      = filter (\<lambda>((k, _), row). k = kind \<and> (Some s = None \<or> record_session_id row = Some s)) (records db)"
    using assms by (intro filter_same_rows) (auto simp: spares_def)
  then show ?thesis by (simp only: list_records_def)
qed

lemma spares_row:
  assumes "spares reused s db db'" "belongs db kind s k" "kind \<in> {''message'', ''execution''}"
  shows "bt_get (records db') (kind, k) = bt_get (records db) (kind, k)"
proof -
  obtain row where row: "bt_get (records db) (kind, k) = Some row" "record_session_id row = Some s"
    using assms(2) by (auto simp: belongs_def)
  have "bt_get (records db') (kind, k) = Some row \<longleftrightarrow> bt_get (records db) (kind, k) = Some row"
    using assms(1,3) row(2) by (auto simp: spares_def)
  then show ?thesis using row(1) by simp
qed

lemma spares_message:
  assumes "spares reused s db db'" "belongs db ''message'' s k"
  shows "read_message db' k = read_message db k"
proof -
  have "delta_rows db' k = delta_rows db k" using assms by (simp add: spares_def)
  moreover have "bt_get (records db') (''message'', k) = bt_get (records db) (''message'', k)"
    using spares_row[OF assms] by simp
  ultimately show ?thesis by (simp only: read_message_def read_record_def)
qed

lemma spares_execution:
  assumes "spares reused s db db'" "belongs db ''execution'' s k"
  shows "exec_get db' k = exec_get db k" "read_source db' k = read_source db k" "read_output db' k = read_output db k"
proof -
  have "bt_get (execution_sources db') k = bt_get (execution_sources db) k"
    "filter (\<lambda>(e, _). e = k) (execution_output db') = filter (\<lambda>(e, _). e = k) (execution_output db)"
    using assms by (simp_all add: spares_def)
  then show "exec_get db' k = exec_get db k" "read_source db' k = read_source db k" "read_output db' k = read_output db k"
    using spares_row[OF assms] by (simp_all add: exec_get_def read_source_def read_output_def read_record_def)
qed

lemma spares_data:
  assumes "spares reused s db db'" "in_history db s k" "kind \<in> {''message'', ''compaction''}"
  shows "read_record as db' kind k = read_record as db kind k"
proof -
  have "map_option record_data_of (bt_get (records db') (kind, k)) = map_option record_data_of (bt_get (records db) (kind, k))"
    using assms(1)[unfolded spares_def] assms(2,3) by blast
  then show ?thesis
    by (cases "bt_get (records db') (kind, k)"; cases "bt_get (records db) (kind, k)") (simp_all add: read_record_def)
qed

lemma spares_session:
  assumes "spares reused s db db'"
  shows "queued_entries db' s = queued_entries db s" "context_load db' s = context_load db s"
  using assms by (simp_all add: spares_def queued_entries_def context_load_def read_record_def)

section \<open>Properties\<close>

text \<open>C2. A runtime that lost a session cannot change it: in every reachable world, while one runtime
  holds the lease of a session, whatever write of any other runtime succeeds leaves the session as it
  was, whatever stale token that runtime still has: its row with revision, tip and metadata, its
  queue, its context document, its script executions with their source and output, the messages that
  belong to it with the deltas streamed into them, and the stored row of every message and checkpoint
  of its history, which remains its history. So an operation that would change any of these fails.
  Two things the store keys by message alone are outside: deltas streamed into a message of the history
  that belongs to another session, and usage, which is the same unless another session's usage is saved
  under the id of a message whose usage is the session's.\<close>

theorem foreign_writes_fail:
  assumes "reachable w" "holds w r s" "q \<noteq> r" "ids_valid c" "write_apply (tokens w q) c (store w) = Inr db'"
  shows "bt_get (sessions db') s = bt_get (sessions (store w)) s
    \<and> queued_entries db' s = queued_entries (store w) s
    \<and> context_load db' s = context_load (store w) s
    \<and> list_for_session db' s = list_for_session (store w) s
    \<and> (\<forall>k. belongs (store w) ''execution'' s k \<longrightarrow>
         read_source db' k = read_source (store w) k \<and> read_output db' k = read_output (store w) k)
    \<and> (\<forall>k. belongs (store w) ''message'' s k \<longrightarrow> read_message db' k = read_message (store w) k)
    \<and> (\<forall>k. in_history (store w) s k \<longrightarrow> in_history db' s k
         \<and> read_record as_message db' ''message'' k = read_record as_message (store w) ''message'' k
         \<and> checkpoint_get db' k = checkpoint_get (store w) k)
    \<and> (reused_ids (store w) s c = {} \<longrightarrow> usage_load db' s = usage_load (store w) s)"
proof -
  have ok: "world_ok w" by (rule reachable_ok[OF assms(1)])
  then have st: "store_ok (store w)" by (simp add: world_ok_def)
  have foreign: "assert_owner (store w) (tokens w q) s \<noteq> Inr ()"
    using not_owner[OF _ assms(2,3)] ok by (simp add: world_ok_def)
  have "lease_state (store w) s \<noteq> None" using assms(2) by (auto simp: holds_lease_state)
  then have "bt_get (sessions (store w)) s \<noteq> None" by (auto simp: lease_state_def lease_columns_def)
  from write_spares[OF st assms(5,4) foreign this]
  have sp: "spares (reused_ids (store w) s c) s (store w) db'" .
  note wf = store_okD(1)[OF st] store_okD(1)[OF write_apply_ok[OF st assms(5,4)]]
  have usage: "usage_load db' s = usage_load (store w) s" if "reused_ids (store w) s c = {}"
    using spares_lists[OF sp wf, of "''usage''" as_usage] that by (simp add: usage_load_def)
  have execs: "list_for_session db' s = list_for_session (store w) s"
    using spares_lists[OF sp wf, of "''execution''" as_execution] by (simp add: list_for_session_def)
  have row: "bt_get (sessions db') s = bt_get (sessions (store w)) s" using sp by (simp add: spares_def)
  show ?thesis
    using row spares_session[OF sp] execs usage spares_execution(2,3)[OF sp] spares_message[OF sp]
      spares_history[OF sp] spares_data[OF sp, of _ "''message''" as_message]
      spares_data[OF sp, of _ "''compaction''" as_compaction]
    by (simp add: checkpoint_get_def)
qed

text \<open>Runtime 1 saves a message no session shows; the session runtime 0 holds stays as it is.\<close>

definition loose_message :: message where
  "loose_message = sample_stream\<lparr>message_id := ''z'', parent_id := None\<rparr>"

lemma loose_saved: "case write_apply (tokens claimed_world 1) (SaveMessage loose_message) (store claimed_world) of Inr _ \<Rightarrow> True | Inl _ \<Rightarrow> False"
  by code_simp

theorem foreign_writes_fail_witness:
  "\<exists>db'. write_apply (tokens claimed_world 1) (SaveMessage loose_message) (store claimed_world) = Inr db'
    \<and> bt_get (sessions db') ''s'' = bt_get (sessions (store claimed_world)) ''s''"
proof -
  obtain db' where "write_apply (tokens claimed_world 1) (SaveMessage loose_message) (store claimed_world) = Inr db'"
    using loose_saved by (auto split: sum.splits)
  moreover from this have "bt_get (sessions db') ''s'' = bt_get (sessions (store claimed_world)) ''s''"
    using foreign_writes_fail[OF claimed_reachable claimed_holds, of 1 "SaveMessage loose_message" db'] by simp
  ultimately show ?thesis by blast
qed

section \<open>Executions over time\<close>

text \<open>What an execution keeps, and how it moves.\<close>

definition execution_later :: "script_execution_record \<Rightarrow> script_execution_record \<Rightarrow> bool" where
  "execution_later r r' \<longleftrightarrow>
     phase_rank (exec_phase r) \<le> phase_rank (exec_phase r')
     \<and> exec_id r' = exec_id r \<and> exec_session_id r' = exec_session_id r
     \<and> source_message_id r' = source_message_id r \<and> exec_call_id r' = exec_call_id r
     \<and> effective_capabilities r' = effective_capabilities r \<and> exec_timeout r' = exec_timeout r
     \<and> created_at_millis r' = created_at_millis r
     \<and> (exec_phase r = Finished \<longrightarrow> r'\<lparr>updated_at_millis := 0\<rparr> = r\<lparr>updated_at_millis := 0\<rparr>)"

lemma execution_later_refl [simp]: "execution_later r r"
  by (simp add: execution_later_def)

lemma phase_rank_finished: "3 \<le> phase_rank p \<longleftrightarrow> p = Finished"
  by (cases p) simp_all

lemma execution_later_trans: "execution_later a b \<Longrightarrow> execution_later b c \<Longrightarrow> execution_later a c"
proof -
  assume ab: "execution_later a b" and bc: "execution_later b c"
  have "exec_phase b = Finished" if "exec_phase a = Finished"
    using ab that phase_rank_finished[of "exec_phase b"] by (simp add: execution_later_def)
  then show ?thesis using ab bc by (auto simp: execution_later_def)
qed

lemma exec_moves_later:
  assumes "exec_moves op now r r1"
  shows "execution_later r (r1\<lparr>updated_at_millis := u\<rparr>)"
  using assms exec_moves_rank[OF assms] by cases (auto simp: execution_later_def)

lemma written_execution:
  assumes "store_ok db" "write_apply leases c db = Inr db'" "exec_get db k = Inr (Some r)"
    "c \<noteq> DeleteSession (exec_session_id r)"
  shows "\<exists>r'. exec_get db' k = Inr (Some r') \<and> execution_later r r'"
proof -
  obtain row where row: "bt_get (records db) (''execution'', k) = Some row" "record_data_of row = ExecutionRecord r"
      "record_session_id row = Some (exec_session_id r)"
    using exec_row[OF store_okD(2)[OF assms(1)]] assms(3)[unfolded exec_get_def read_execution_iff]
      assms(3)[unfolded exec_get_def] by fastforce
  have same: ?thesis if "bt_get (records db') (''execution'', k) = bt_get (records db) (''execution'', k)"
    using that assms(3) by (auto simp: exec_get_def read_record_def)
  have message: "bt_get (records db') (''execution'', k) = bt_get (records db) (''execution'', k)"
    if "write_message_record db leases kind j assoc v = Inr db'" "kind \<noteq> ''execution''" for kind j assoc v
    using that by (auto simp: write_message_record_iff bumps_keep write_record_records)
  have removed: "bt_get (records db') (''execution'', k) = bt_get (records db) (''execution'', k)"
    if "delete_message_record db leases kind j = Inr db'" "kind \<noteq> ''execution''" for kind j
    using that bumps_keep(1)[where p = "\<lambda>_. True"] by (auto simp: delete_message_record_iff delete_record_def split: if_splits)
  have links: "foldR (link_step leases t) d ms = Inr d' \<Longrightarrow> bt_get (records d') (''execution'', k) = bt_get (records d) (''execution'', k)"
    for t d ms d'
  proof (induction ms arbitrary: d)
    case (Cons m ms)
    then obtain mid where mid: "link_step leases t d m = Inr mid" "foldR (link_step leases t) mid ms = Inr d'"
      by (auto simp: bindR_eq_Inr)
    have "bt_get (records mid) (''execution'', k) = bt_get (records d) (''execution'', k)"
      using mid(1) by (auto simp: link_step_iff write_message_record_iff bumps_keep write_record_records)
    then show ?case using Cons.IH[OF mid(2)] by simp
  qed simp
  note wf = store_okD(1)[OF assms(1)]
  show ?thesis
  proof (cases c)
    case (CreateExec e fresh now)
    then obtain r where "exec_create db leases e fresh now = Inr (r, db')" using assms(2) by (auto simp: result_simps)
    then show ?thesis using row exec_create_iff by (intro same) (fastforce simp: write_record_records)
  next
    case (ChangeExec x j now)
    then have "exec_apply x db leases j now = Inr db'" using assms(2) by simp
    then show ?thesis
    proof (cases rule: exec_apply_cases)
      case skip
      then show ?thesis by (intro same) simp
    next
      case (move r0 r1)
      show ?thesis
      proof (cases "j = k")
        case True
        then have "r0 = r" using move(1) assms(3) by (simp add: exec_get_def)
        moreover have "exec_get db' k = Inr (Some (r1\<lparr>updated_at_millis := now\<rparr>))"
          using move(4) True by (simp add: exec_get_def read_after_write)
        ultimately show ?thesis using exec_moves_later[OF move(3)] by blast
      next
        case False
        then show ?thesis by (intro same) (simp add: move(4) write_record_records)
      qed
    qed
  next
    case (SaveMessage m)
    then show ?thesis using message_save_iff[OF wf, of leases m db'] assms(2) message by (intro same) auto
  next
    case (SaveCheckpoint d)
    then show ?thesis using assms(2) message by (intro same) (auto simp: checkpoint_save_def result_simps)
  next
    case (DeleteMessage j)
    then show ?thesis using assms(2) removed by (intro same) (auto simp: message_delete_def)
  next
    case (DeleteCheckpoint j)
    then show ?thesis using assms(2) removed by (intro same) (auto simp: checkpoint_delete_def)
  next
    case (LinkMessages request)
    obtain ms session tip through where q: "request = \<lparr>link_messages = ms, link_session = session,
        link_expected_tip = tip, consumed_queue_through = through\<rparr>" by (cases request) auto
    obtain r where "save_linked db leases request = Inr (r, db')" using assms(2) LinkMessages by (auto simp: result_simps)
    then consider "db' = db" | db1 where "foldR (link_step leases (meta_id session)) db ms = Inr db1" "db' = finish_link db1 session through"
      by (auto simp: q save_linked_iff split: if_splits)
    then show ?thesis
    proof cases
      case 2
      then show ?thesis
        using links[OF 2(1)] by (intro same) (simp add: finish_link_def consume_queued_messages_def split: option.split)
    qed (use same in simp)
  next
    case (UpdateSession m e q)
    then obtain ok where "session_update db leases m e q = Inr (ok, db')" using assms(2) by (auto simp: result_simps)
    then show ?thesis
      by (intro same) (auto simp: session_update_iff adopt_tip_def bt_get_update split: if_splits option.split)
  next
    case (DeleteSession t)
    have d: "session_delete db leases t = Inr db'" using DeleteSession assms(2) by simp
    have "\<not> record_doomed db t ((''execution'', k), row)" using row(3) assms(4) DeleteSession by (simp add: record_doomed_def)
    then show ?thesis
      using row(1) wf by (intro same) (simp add: session_delete_tables(4)[OF d] bt_get_filter db_wfD)
  next
    case (DeleteUnreferenced j)
    then show ?thesis
      using assms(2) wf
      by (intro same) (auto simp: delete_unreferenced_def delete_message_records_iff bt_get_retain split: if_splits option.split)
  next
    case (ChangeContext x)
    then show ?thesis
      using assms(2)
      by (intro same) (cases x; auto simp: append_command_def append_runtime_def append_event_def save_snapshots_def
        save_instructions_def Let_def result_simps write_record_records split: if_splits)
  next
    case (DeleteContext t)
    then show ?thesis using assms(2) by (intro same) (auto simp: context_delete_def delete_record_def result_simps)
  next
    case (SaveUsage t u)
    then show ?thesis using assms(2) by (intro same) (auto simp: usage_save_def result_simps write_record_records)
  next
    case (DeleteUsage t)
    then show ?thesis
      using assms(2) wf by (intro same) (auto simp: usage_delete_def result_simps bt_get_retain split: option.split)
  next
    case (StreamDeltas j first ds)
    then show ?thesis using assms(2) append_deltas_keeps(1) by (intro same) simp
  qed (use assms(2) same in \<open>auto simp: enqueue_message_def insert_queued_def clear_queued_messages_def delete_queued_def
      remove_queued_messages_def consume_queued_messages_def Let_def result_simps\<close>)
qed

text \<open>Any number of steps of any runtimes.\<close>

definition some_step :: "world \<Rightarrow> world \<Rightarrow> bool" where
  "some_step w w' = (\<exists>r. world_step r w w')"

lemma if_owned_records: "update_if_owned db s expected f = (db', updated) \<Longrightarrow> records db' = records db"
  by (auto simp: update_if_owned_def split: option.splits if_splits)

lemma if_owned_records_fst: "records (fst (update_if_owned db s expected f)) = records db"
  by (auto simp: update_if_owned_def split: option.splits)

lemma step_execution:
  assumes "world_step q w w'" "store_ok (store w)" "exec_get (store w) k = Inr (Some r)"
    "exec_session_id r \<in> present (store w')"
  shows "\<exists>r'. exec_get (store w') k = Inr (Some r') \<and> execution_later r r'"
proof -
  have same: ?thesis if "records (store w') = records (store w)"
    using that assms(3) by (auto simp: exec_get_def read_record_def)
  show ?thesis
    using assms(1)
  proof cases
    case (written c db')
    have "c \<noteq> DeleteSession (exec_session_id r)"
    proof
      assume "c = DeleteSession (exec_session_id r)"
      then have "bt_get (sessions db') (exec_session_id r) = None"
        using written(2) session_delete_tables(2)[of "store w" "tokens w q" "exec_session_id r" db'] by simp
      then show False using assms(4) written(1) by (simp add: present_def lease_columns_def)
    qed
    from written_execution[OF assms(2) written(2) assms(3) this] show ?thesis using written(1) by simp
  next
    case (claims t duration first now db' leases')
    then show ?thesis
      by (intro same) (auto simp: claim_turn_for_def result_simps Let_def split: option.splits if_splits)
  next
    case (renews t duration now db')
    then obtain e f where "update_if_owned (store w) t e (\<lambda>row. row\<lparr>lease_expires_at := f\<rparr>) = (db', True)"
      by (auto simp: renew_turn_def result_simps Let_def split: prod.splits) (metis surj_pair)
    then show ?thesis using renews(1) by (intro same) (simp add: if_owned_records)
  next
    case (releases t timer updated db' leases')
    then show ?thesis
      by (intro same) (auto simp: release_def Let_def split: option.splits if_splits prod.splits dest: if_owned_records)
  next
    case (timers t timer db')
    then show ?thesis
      by (intro same) (auto simp: save_turn_timer_def Let_def if_owned_records_fst split: option.splits if_splits prod.splits)
  qed (use same in simp)
qed

lemma stays_gone:
  assumes "some_step\<^sup>*\<^sup>* w w'" "world_ok w" "s \<in> used w" "s \<notin> present (store w)"
  shows "s \<notin> present (store w')"
  using assms
proof (induction rule: converse_rtranclp_induct)
  case (step w mid)
  then obtain q where q: "world_step q w mid" by (auto simp: some_step_def)
  have "s \<notin> present (store mid)"
    using step_appears[OF q step.prems(1)] step.prems(2,3) by (auto simp: lease_state_None)
  then show ?case using step.IH step_ok[OF q step.prems(1)] step_used[OF q] step.prems(2) by blast
qed

text \<open>C32. The lifecycle of an execution only moves forward. Take any reachable world, any execution
  recorded in it for a session that exists, and any number of further steps of any runtimes, of whatever
  operations and in whatever order, among them creating and deleting other executions and sessions, and
  crashes. As long as its session has not been deleted the execution is still recorded, its phase has
  never gone back, its identity, source message, capabilities and timeout are the same, and if it was finished
  it kept everything but its update time. And every execution recorded at the end satisfies the record
  invariant: a status exactly when finished, a start time exactly once it ran, at most eight valid
  attachments of at most 32 MiB together.\<close>

theorem execution_lifecycle:
  assumes "reachable w" "some_step\<^sup>*\<^sup>* w w'" "exec_get (store w) k = Inr (Some r)"
    "exec_session_id r \<in> present (store w)" "exec_session_id r \<in> present (store w')"
  shows "(\<exists>r'. exec_get (store w') k = Inr (Some r') \<and> execution_later r r')
    \<and> (\<forall>j e. exec_get (store w') j = Inr (Some e) \<longrightarrow> exec_ok e)"
proof -
  have "world_ok w" by (rule reachable_ok[OF assms(1)])
  with assms(2-5) have "(\<exists>r'. exec_get (store w') k = Inr (Some r') \<and> execution_later r r') \<and> world_ok w'"
  proof (induction arbitrary: r rule: converse_rtranclp_induct)
    case base
    then show ?case by simp
  next
    case (step w mid)
    obtain q where q: "world_step q w mid" using step.hyps(1) by (auto simp: some_step_def)
    have ok: "world_ok mid" by (rule step_ok[OF q step.prems(4)])
    have "exec_session_id r \<in> used w" using step.prems(2,4) by (auto simp: world_ok_def)
    then have used: "exec_session_id r \<in> used mid" using step_used[OF q] by blast
    then have here: "exec_session_id r \<in> present (store mid)"
      using stays_gone[OF step.hyps(2) ok used] step.prems(3) by blast
    have "store_ok (store w)" using step.prems(4) by (simp add: world_ok_def)
    from step_execution[OF q this step.prems(1) here]
    obtain r1 where r1: "exec_get (store mid) k = Inr (Some r1)" "execution_later r r1" by blast
    then have "exec_session_id r1 = exec_session_id r" by (simp add: execution_later_def)
    then show ?case
      using step.IH[OF r1(1) _ _ ok] here step.prems(3) execution_later_trans[OF r1(2)] by auto
  qed
  then show ?thesis
    using exec_row[OF store_okD(2)] by (auto simp: world_ok_def exec_get_def)
qed

text \<open>An execution is recorded, then runs.\<close>

definition new_run :: new_script_execution where
  "new_run = \<lparr>new_id = ''x'', new_session_id = ''s'', new_source_message_id = ''m'', new_call_id = ''c'',
     new_profile = exec_profile (sample_exec Prepared), new_source = ''ls'', new_rewrites = [],
     new_requested_capabilities = {}, new_effective_capabilities = {}, new_timeout = None\<rparr>"

lemma run_steps:
  "\<exists>db1 db2 r. write_apply (tokens claimed_world 0) (CreateExec new_run ''r'' 5) (store claimed_world) = Inr db1
    \<and> write_apply (tokens claimed_world 0) (ChangeExec MarkRunning ''x'' 6) db1 = Inr db2
    \<and> exec_get db1 ''x'' = Inr (Some r) \<and> exec_session_id r = ''s''
    \<and> ''s'' \<in> present db1 \<and> ''s'' \<in> present db2"
proof -
  let ?l = "tokens claimed_world 0" and ?db = "store claimed_world"
  have owner: "assert_owner ?db ?l ''s'' = Inr ()"
    using claimed_holds by (auto simp: holds_lease_state assert_owner_state)
  have none: "records ?db = []" "execution_sources ?db = []"
    by (simp_all add: claimed_world_def claimed_store_def created_world_def initial_world_def save_session_def Let_def empty_database_def)
  have id: "validate_message_id ''x'' = Inr ()"
    by (simp add: validate_message_id_def validate_id_def message_id_byte_def is_ascii_alphanumeric_def is_ascii_digit_def byte_def)
  obtain r db1 where c: "exec_create ?db ?l new_run ''r'' 5 = Inr (r, db1)"
    by (simp add: exec_create_def new_run_def id_try_new_def id owner read_record_def none Let_def)
  note facts = exec_create_iff[OF c]
  have r: "exec_session_id r = ''s''" "exec_phase r = Prepared" using facts by (simp_all add: new_run_def)
  have cols: "lease_columns db1 t = lease_columns ?db t" for t by (rule exec_create_keeps(3)[OF c])
  have get: "read_record as_execution db1 ''execution'' ''x'' = Inr (Some r)"
    using facts by (simp add: new_run_def read_after_write)
  have "assert_owner db1 ?l ''s'' = Inr ()"
    using owner cols[of "''s''"] by (simp add: assert_owner_state lease_state_def)
  then obtain db2 where d: "exec_apply MarkRunning db1 ?l ''x'' 6 = Inr db2"
    using get r by (simp add: mark_running_def exec_transition_def exec_update_def require_phase_def state_of_def Let_def)
  have "''s'' \<in> present db1" "''s'' \<in> present db2"
    using cols[of "''s''"] exec_apply_leases[OF d, of "''s''"] claimed_columns by (auto simp: present_def)
  then show ?thesis using c d get r by (auto simp: state_of_def exec_get_def)
qed

theorem execution_lifecycle_witness:
  "\<exists>db1 db2 r'. write_apply (tokens claimed_world 0) (ChangeExec MarkRunning ''x'' 6) db1 = Inr db2
    \<and> exec_get db2 ''x'' = Inr (Some r') \<and> exec_ok r'"
proof -
  obtain db1 db2 r where s: "write_apply (tokens claimed_world 0) (CreateExec new_run ''r'' 5) (store claimed_world) = Inr db1"
      "write_apply (tokens claimed_world 0) (ChangeExec MarkRunning ''x'' 6) db1 = Inr db2"
      "exec_get db1 ''x'' = Inr (Some r)" "exec_session_id r = ''s''" "''s'' \<in> present db1" "''s'' \<in> present db2"
    using run_steps by blast
  let ?w1 = "claimed_world\<lparr>store := db1, used := used claimed_world \<union> present db1\<rparr>"
  let ?w2 = "?w1\<lparr>store := db2, used := used ?w1 \<union> present db2\<rparr>"
  have "world_step 0 claimed_world ?w1"
    by (rule world_step.written[OF s(1)]) (simp_all add: new_run_def valid_id_s)
  then have w1: "reachable ?w1" by (rule reachable.step[OF claimed_reachable])
  have "world_step 0 ?w1 ?w2"
    by (rule world_step.written[where c = "ChangeExec MarkRunning ''x'' 6"]) (use s(2) in simp_all)
  then have "some_step ?w1 ?w2" unfolding some_step_def by blast
  then have "some_step\<^sup>*\<^sup>* ?w1 ?w2" by (rule r_into_rtranclp)
  from execution_lifecycle[OF w1 this, of "''x''" r]
  have "(\<exists>r'. exec_get db2 ''x'' = Inr (Some r') \<and> execution_later r r') \<and> (\<forall>j e. exec_get db2 j = Inr (Some e) \<longrightarrow> exec_ok e)"
    using s(3-6) by simp
  then obtain r' where "exec_get db2 ''x'' = Inr (Some r')" "exec_ok r'" by blast
  then show ?thesis using s(2) by blast
qed

end
