(* ===== verification/Spec2Isabelle.thy ===== *)
theory Spec2Isabelle
  imports Permissions Edits Cost Model_Options Http_Retry Model_Context Chat_Messages Reply_Cancellation Fencing
begin

text \<open>
  A verification library for kraai, an agent harness written in Rust: a runtime that keeps
  conversation sessions in a shared SQLite store, streams completions from model providers, runs the
  scripts a model writes in a sandbox, and lets several runtimes (terminal, editor, desktop) share
  one store.

  \<^bold>\<open>How the parts interact.\<close> A turn starts when a runtime claims the lease of a session (Leases). The
  messages waiting in its queue (Queue) are appended to the conversation together with an empty
  assistant message (Turns, Sessions), whose history is a chain of messages other sessions may share
  (History, Message_Graph). The request is built from the part of that history the model needs, from
  the latest usable compaction checkpoint and from the files and instructions the conversation has
  open (Model_Context, File_Context, Requests, Context_Store); when it is projected not to fit, the
  conversation is summarized first (Context_Compaction). A provider turns the request into wire
  messages (Chat_Messages), sends it with retries (Http_Retry), reads the response as server-sent
  events (Sse) and decodes them into the events of a reply (Provider_Stream, Chat_Stream,
  Provider_Errors). While the reply
  streams, its message grows in memory and in the store (Streaming, Stream_Deltas) until it is completed
  or cancelled, or recovered after a crash (Reply_Cancellation). Scripts run with
  the permissions their profile gives (Permissions) and leave an execution record (Executions,
  Execution_Types) and edits of files (Edits). World puts runtimes, store and clock together.

  \<^bold>\<open>Theories and sources\<close> (paths below src/crates).

  \<^item> Prelude and Rust_Str: what Rust's standard library contributes: results and the question mark
    operator, saturating and checked integers, ordered maps, bytes, UTF-8, decimal numbers.
  \<^item> Permissions: kraai-execution-types permissions.rs, policy.rs, profile.rs. Lemmas: the closure of
    capabilities is a closure operator, and a script gains nothing its policy does not allow.
  \<^item> Execution_Types: the same crate's id.rs, error.rs, script.rs, image.rs, effect.rs, mcp.rs.
  \<^item> Edits: kraai-workspace-fs edits.rs. Lemmas: exact edits equal a line-by-line reference, refuse
    truthfully, and do not depend on the order they are given in.
  \<^item> Cost, Model_Options, Conversation: kraai-types cost.rs, model_options, conversation.rs,
    token_estimate.rs and kraai-provider-core context_budget.rs. Lemmas: exact sums or reported
    overflow, the greatest consistent subset of stored options, limits that fit the window.
  \<^item> Store_Types, Database, Leases, Queue, Executions, Stream_Deltas, History, Message_Graph,
    Sessions, Turns, Context_Store, Model_Lists: kraai-persistence, one theory per source file or
    pair of files. The database is a record of ordered maps, one per table; an operation is the body
    of its transaction. Lemmas: what each operation keeps and changes, ownership checks, histories as
    chains, appending, rolling back and recovering.
  \<^item> World: any number of runtimes with their lease tokens, the store and the clock as a step
    relation; reachable stores are well formed, leases exclude each other and refine a lock service.
  \<^item> Fencing: what a runtime may do to a session another one holds. Lemmas: a write that succeeds without
    the lease of a session leaves everything of the session, which is listed, as it was; executions
    are kept and move only forward over any number of steps.
  \<^item> Sse, Http_Retry, Provider_Errors, Provider_Stream: kraai-provider-core sse.rs, http_retry.rs,
    request_context.rs, error.rs and stream.rs. Lemmas: chunking does not matter, events round trip,
    retries are bounded and truthful and panic only in two described cases, a cut reply is never complete.
  \<^item> Chat_Stream, Chat_Messages: kraai-provider-openai-chat-completions streaming.rs, reasoning.rs,
    usage.rs, wire.rs, messages.rs and the request of provider.rs. Lemmas: fragments become calls, no
    call leaves an unfinished reply, calls, results and images reach the wire in order.
  \<^item> Requests, Context_Compaction, File_Context, Model_Context: kraai-agent compaction.rs,
    compaction/summary.rs, context_state.rs, manager/model_context.rs and kraai-provider-core
    history.rs, images.rs, provider.rs. Lemmas: a conversation that grows at its end
    keeps its prefix as long as its images fit, refreshing is stable, a partial history gives the same
    request, compaction ends.
  \<^item> Script_Protocol: kraai-script-protocol. Lemmas: a script runs with what its header says, timeouts are
    exact, no capability is requested that the header does not name, output is shown by its true ends.
  \<^item> Streaming: kraai-agent manager/streaming.rs, manager/usage.rs and the streaming state of
    manager/mod.rs; a step relation interleaves the provider's output with publications that seal, store,
    take off, fail or are dropped. Lemmas: the stored message never loses more than what waits in memory.
  \<^item> Reply_Cancellation: the cancellation, rollback and recovery of manager/streaming.rs and
    manager/sessions.rs. Lemmas: a cancelled reply is kept whole with every call answered, a failed
    cancellation keeps the stream, recovery finishes one that was cut short; a failed cancellation can
    leave deltas that repeat the reply, which is shown on an example.

  \<^bold>\<open>Arguments.\<close> What is not the program's own is an argument: clocks and the last instant they can show, random jitter, HTTP replies,
  JSON reading and writing, base64, float conversions, the file system, image loading and fresh ids.
  Hypotheses about them state documented behaviour, such as that reading what was written gives it
  back. Paths are UTF-8 strings. An operation that reads in one transaction and writes in another
  takes both databases, so that other runtimes may have written in between.

  \<^bold>\<open>Bounds and fuel.\<close> The recursive SQL queries are iterated once per stored message, which reaches
  every ancestor and descendant. Walks over pages of a history take a bound on the number of pages;
  with more pages than messages they end, as the theorems show, also on corrupt histories. Polling a
  stream takes one more poll than there are items. Cancelling a reply needs as many turns of each
  walk as there are messages stored and calls made, and three; finishing one after a crash needs two, when
  the history has no cycle. Other loops are total functions with a
  termination proof. Machine integers are natural numbers or integers with their limits written out
  where the code saturates, checks or could overflow; sums of token estimates are natural numbers.

  \<^bold>\<open>Not modelled.\<close> SQL as text and the migration of old schemas: tables are the data. The actor and
  task structure of the runtime, its channels and timers, beyond the interleavings stated. The terminal, editor,
  headless and Node front ends, the evaluation harness and the profiler, which hold no state of the
  store. The sandbox platforms, the Nushell engine, MCP connections, file and network primitives:
  system calls and third-party code. Model discovery and catalogues, the Codex provider's wire format and login,
  profiles and skills: configuration and JSON glue over the modelled core.
\<close>

end
